(* ===== verification/Kernel_Prelude.thy ===== *)
theory Kernel_Prelude
  imports Main "HOL-Library.Word"
begin

text \<open>
  Shared vocabulary of the development: the C integer types, the outcome of running a piece of
  kernel code, the sequencing operators in which every kernel function is written, a
  weakest-precondition reading of them, and generic lemmas about maps and pointer chains.

  A kernel function is a function from the kernel state to an outcome:
  \<^item> \<open>Ok x s\<close>: it returned \<open>x\<close> and left the state \<open>s\<close>;
  \<^item> \<open>Switch s\<close>: it called \<^verbatim>\<open>swtch\<close> in state \<open>s\<close>, so control is now in another kernel thread
    and the rest of the function runs only when that thread switches back;
  \<^item> \<open>Panic m\<close>: it called \<^verbatim>\<open>panic(m)\<close>;
  \<^item> \<open>Fault m\<close>: it did something C leaves undefined (an index out of range, a null pointer);
  \<^item> \<open>Spin m\<close>: it spins for ever unless another CPU intervenes.
\<close>

unbundle bit_operations_syntax

section \<open>C types (kernel/types.h)\<close>

type_synonym uchar = "8 word"
type_synonym ushort = "16 word"
type_synonym uint = "32 word"
type_synonym uint64 = "64 word"

section \<open>Collections of facts\<close>

named_theorems kcomm \<open>updates of separate parts of the state commute\<close>

section \<open>Outcomes and sequencing\<close>

datatype ('a, 's) kres = Ok 'a 's | Switch 's | Panic string | Fault string | Spin string

type_synonym ('s, 'a) km = "'s \<Rightarrow> ('a, 's) kres"

definition return :: "'a \<Rightarrow> ('s, 'a) km" where
  "return x = (\<lambda>s. Ok x s)"

definition bind :: "('s, 'a) km \<Rightarrow> ('a \<Rightarrow> ('s, 'b) km) \<Rightarrow> ('s, 'b) km" where
  "bind m f = (\<lambda>s. case m s of
      Ok x t \<Rightarrow> f x t | Switch t \<Rightarrow> Switch t | Panic e \<Rightarrow> Panic e | Fault e \<Rightarrow> Fault e | Spin e \<Rightarrow> Spin e)"

definition modify :: "('s \<Rightarrow> 's) \<Rightarrow> ('s, unit) km" where
  "modify f = (\<lambda>s. Ok () (f s))"

definition gets :: "('s \<Rightarrow> 'a) \<Rightarrow> ('s, 'a) km" where
  "gets f = (\<lambda>s. Ok (f s) s)"

definition panic :: "string \<Rightarrow> ('s, 'a) km" where
  "panic e = (\<lambda>s. Panic e)"

definition fault :: "string \<Rightarrow> ('s, 'a) km" where
  "fault e = (\<lambda>s. Fault e)"

definition spin :: "string \<Rightarrow> ('s, 'a) km" where
  "spin e = (\<lambda>s. Spin e)"

definition panic_if :: "('s \<Rightarrow> bool) \<Rightarrow> string \<Rightarrow> ('s, unit) km" where
  "panic_if b e = (\<lambda>s. if b s then Panic e else Ok () s)"

definition fault_if :: "('s \<Rightarrow> bool) \<Rightarrow> string \<Rightarrow> ('s, unit) km" where
  "fault_if b e = (\<lambda>s. if b s then Fault e else Ok () s)"

text \<open>\<open>ifm c a b\<close> is the C conditional: the condition reads the state, then one branch runs.\<close>

definition ifm :: "('s \<Rightarrow> bool) \<Rightarrow> ('s, 'a) km \<Rightarrow> ('s, 'a) km \<Rightarrow> ('s, 'a) km" where
  "ifm c a b = (\<lambda>s. if c s then a s else b s)"

definition skip :: "('s, unit) km" where
  "skip = return ()"

text \<open>\<open>block ms\<close> is a sequence of statements.\<close>

primrec block :: "('s, unit) km list \<Rightarrow> ('s, unit) km" where
  "block [] = skip"
| "block (m # ms) = bind m (\<lambda>_. block ms)"

text \<open>\<open>for_each xs body\<close> is a counted loop whose body never leaves the loop.\<close>

primrec for_each :: "'b list \<Rightarrow> ('b \<Rightarrow> ('s, unit) km) \<Rightarrow> ('s, unit) km" where
  "for_each [] body = skip"
| "for_each (x # xs) body = bind (body x) (\<lambda>_. for_each xs body)"

lemmas kmonad_defs =
  return_def bind_def modify_def gets_def panic_def fault_def spin_def panic_if_def fault_if_def
  ifm_def skip_def

lemma bind_Ok [simp]: "m s = Ok x t \<Longrightarrow> bind m f s = f x t"
  by (simp add: bind_def)

lemma bind_Ok_bool [simp]:
  "m s = Ok True t \<Longrightarrow> bind m f s = f True t" "m s = Ok False t \<Longrightarrow> bind m f s = f False t"
  by (simp_all add: bind_def)

lemma bind_Switch [simp]: "m s = Switch t \<Longrightarrow> bind m f s = Switch t"
  by (simp add: bind_def)

lemma bind_Panic [simp]: "m s = Panic e \<Longrightarrow> bind m f s = Panic e"
  by (simp add: bind_def)

lemma bind_Fault [simp]: "m s = Fault e \<Longrightarrow> bind m f s = Fault e"
  by (simp add: bind_def)

lemma bind_Spin [simp]: "m s = Spin e \<Longrightarrow> bind m f s = Spin e"
  by (simp add: bind_def)

lemma kstep_simps [simp]:
  "return x s = Ok x s" "modify g s = Ok () (g s)" "gets h s = Ok (h s) s" "skip s = Ok () s"
  "panic e s = Panic e" "fault e s = Fault e" "spin e s = Spin e"
  "panic_if b e s = (if b s then Panic e else Ok () s)"
  "fault_if b e s = (if b s then Fault e else Ok () s)"
  "ifm c m n s = (if c s then m s else n s)"
  by (simp_all add: kmonad_defs)

lemma bind_simps [simp]:
  "bind (return x) f s = f x s" "bind (modify g) h s = h () (g s)" "bind (gets r) k s = k (r s) s"
  "bind skip h s = h () s" "bind (panic e) q s = Panic e" "bind (fault e) q s = Fault e"
  "bind (spin e) q s = Spin e"
  "bind (panic_if b e) h s = (if b s then Panic e else h () s)"
  "bind (fault_if b e) h s = (if b s then Fault e else h () s)"
  "bind (ifm c m n) q s = (if c s then bind m q s else bind n q s)"
  by (simp_all add: kmonad_defs)

lemma bind_eq_Ok_iff:
  "bind m f s = Ok y t \<longleftrightarrow> (\<exists>x u. m s = Ok x u \<and> f x u = Ok y t)"
  by (auto simp: bind_def split: kres.splits)

lemma bind_assoc [simp]: "bind (bind m f) g = bind m (\<lambda>x. bind (f x) g)"
  by (rule ext) (simp add: bind_def split: kres.splits)

lemma block_append: "block (xs @ ys) = bind (block xs) (\<lambda>_. block ys)"
proof (induction xs)
  case Nil
  show ?case by (rule ext) simp
qed simp

lemma for_each_append:
  "for_each (xs @ ys) body = bind (for_each xs body) (\<lambda>_. for_each ys body)"
proof (induction xs)
  case Nil
  show ?case by (rule ext) simp
next
  case (Cons x xs)
  then show ?case by simp
qed

text \<open>
  A counted loop whose body does one state change \<open>f x\<close> in every state that satisfies an
  invariant of the loop is the fold of the changes.
\<close>

lemma for_each_fold:
  assumes "I s"
    and "\<And>x t. x \<in> set xs \<Longrightarrow> I t \<Longrightarrow> body x t = Ok () (f x t) \<and> I (f x t)"
  shows "for_each xs body s = Ok () (fold f xs s) \<and> I (fold f xs s)"
  using assms
proof (induction xs arbitrary: s)
  case Nil
  then show ?case by simp
next
  case (Cons x xs)
  from Cons.prems have step: "body x s = Ok () (f x s)" "I (f x s)" by auto
  have "for_each xs body (f x s) = Ok () (fold f xs (f x s)) \<and> I (fold f xs (f x s))"
    by (rule Cons.IH) (use step Cons.prems in auto)
  with step show ?case by simp
qed

section \<open>Running to completion\<close>

text \<open>\<open>wp m Q s\<close>: started in \<open>s\<close>, \<open>m\<close> returns (it does not panic, fault, spin or switch) and \<open>Q\<close> holds.\<close>

definition wp :: "('s, 'a) km \<Rightarrow> ('a \<Rightarrow> 's \<Rightarrow> bool) \<Rightarrow> 's \<Rightarrow> bool" where
  "wp m Q s \<longleftrightarrow> (case m s of Ok x t \<Rightarrow> Q x t | _ \<Rightarrow> False)"

lemma wp_bind [simp]: "wp (bind m f) Q s = wp m (\<lambda>x. wp (f x) Q) s"
  by (simp add: wp_def bind_def split: kres.splits)

lemma wp_simps [simp]:
  "wp (return x) Q s = Q x s" "wp (modify g) Q s = Q () (g s)" "wp (gets h) Q s = Q (h s) s"
  "wp skip Q s = Q () s" "\<not> wp (panic e) Q s" "\<not> wp (fault e) Q s" "\<not> wp (spin e) Q s"
  "wp (panic_if b e) Q s = (\<not> b s \<and> Q () s)" "wp (fault_if b e) Q s = (\<not> b s \<and> Q () s)"
  "wp (ifm c m n) Q s = (if c s then wp m Q s else wp n Q s)"
  by (simp_all add: wp_def)

lemma wp_mono: "wp m P s \<Longrightarrow> (\<And>x t. P x t \<Longrightarrow> Q x t) \<Longrightarrow> wp m Q s"
  by (auto simp: wp_def split: kres.splits)

lemma wpD: "wp m Q s \<Longrightarrow> \<exists>x t. m s = Ok x t \<and> Q x t"
  by (auto simp: wp_def split: kres.splits)

lemma wp_OkI: "m s = Ok x t \<Longrightarrow> Q x t \<Longrightarrow> wp m Q s"
  by (simp add: wp_def)

section \<open>Pointer chains\<close>

text \<open>
  \<open>chain nx h ps\<close>: following the link field \<open>nx\<close> from the pointer \<open>h\<close> visits exactly \<open>ps\<close> and
  ends at the null pointer.
\<close>

primrec chain :: "('p \<Rightarrow> 'p option) \<Rightarrow> 'p option \<Rightarrow> 'p list \<Rightarrow> bool" where
  "chain nx h [] \<longleftrightarrow> h = None"
| "chain nx h (p # ps) \<longleftrightarrow> h = Some p \<and> chain nx (nx p) ps"

lemma chain_None [simp]: "chain nx None ps \<longleftrightarrow> ps = []"
  by (cases ps) auto

lemma chain_Some: "chain nx (Some p) ps \<longleftrightarrow> (\<exists>qs. ps = p # qs \<and> chain nx (nx p) qs)"
  by (cases ps) auto

lemma chain_unique: "chain nx h ps \<Longrightarrow> chain nx h qs \<Longrightarrow> ps = qs"
proof (induction ps arbitrary: h qs)
  case Nil
  then show ?case by simp
next
  case (Cons p ps)
  then show ?case by (cases qs) auto
qed

lemma chain_suffix: "chain nx h (xs @ p # ys) \<Longrightarrow> chain nx (Some p) (p # ys)"
  by (induction xs arbitrary: h) auto

lemma chain_distinct: "chain nx h ps \<Longrightarrow> distinct ps"
proof (induction ps arbitrary: h)
  case Nil
  then show ?case by simp
next
  case (Cons p ps)
  have "p \<notin> set ps"
  proof
    assume "p \<in> set ps"
    then obtain xs ys where ps: "ps = xs @ p # ys" by (auto dest: split_list)
    from Cons.prems ps have "chain nx (nx p) (xs @ p # ys)" by simp
    then have "chain nx (Some p) (p # ys)" by (rule chain_suffix)
    moreover from Cons.prems have "chain nx (Some p) (p # ps)" by simp
    ultimately have "p # ys = p # ps" by (rule chain_unique)
    with ps show False by simp
  qed
  with Cons show ?case by auto
qed

lemma chain_upd_fresh [simp]: "p \<notin> set ps \<Longrightarrow> chain (nx(p := v)) h ps = chain nx h ps"
  by (induction ps arbitrary: h) auto

lemma chain_cong: "(\<And>p. p \<in> set ps \<Longrightarrow> nx p = nx' p) \<Longrightarrow> chain nx h ps = chain nx' h ps"
  by (induction ps arbitrary: h) auto

lemma chain_last: "chain nx h ps \<Longrightarrow> ps \<noteq> [] \<Longrightarrow> nx (last ps) = None"
  by (induction ps arbitrary: h) (auto split: if_splits)

text \<open>Linking a fresh node behind the last one appends it to the chain.\<close>

lemma chain_snoc:
  assumes "chain nx h (ps @ [t])" and "p \<notin> set (ps @ [t])"
  shows "chain (nx(t := Some p, p := None)) h (ps @ [t, p])"
  using assms
proof (induction ps arbitrary: h)
  case Nil
  then show ?case by simp
next
  case (Cons q ps)
  then have "q \<noteq> t" using chain_distinct [OF Cons.prems(1)] by auto
  with Cons show ?case by auto
qed

text \<open>Unlinking an inner node removes it from the chain.\<close>

lemma chain_unlink:
  assumes "chain nx h (xs @ a # p # ys)"
  shows "chain (nx(a := nx p, p := None)) h (xs @ a # ys)"
  using assms
proof (induction xs arbitrary: h)
  case Nil
  from chain_distinct [OF Nil] have "a \<noteq> p" by auto
  moreover from chain_distinct [OF Nil]
  have "chain (nx(a := nx p, p := None)) (nx p) ys = chain nx (nx p) ys"
    by (intro chain_cong) auto
  ultimately show ?case using Nil by (auto simp: fun_upd_def)
next
  case (Cons q xs)
  from chain_distinct [OF Cons.prems] have "q \<noteq> a" "q \<noteq> p" by auto
  with Cons show ?case by auto
qed

text \<open>Linking a node behind the last one when it is already in the chain cuts the chain at that node.\<close>

lemma chain_cut:
  assumes "chain nx h (xs @ p # ys)" and "z = last (p # ys)"
  shows "chain (nx(z := Some p, p := None)) h (xs @ [p])"
  using assms(1)
proof (induction xs arbitrary: h)
  case Nil
  then show ?case by simp
next
  case (Cons q xs)
  have "z \<in> set (p # ys)" unfolding assms(2) by (rule last_in_set) simp
  with chain_distinct [OF Cons.prems] have "q \<noteq> p" "q \<noteq> z" by auto
  with Cons show ?case by simp
qed

end
