(* ===== verification/Spinlock.thy ===== *)
theory Spinlock
  imports Kernel_Prelude
begin

text \<open>
  Spin locks and interrupt nesting (kernel/spinlock.c, kernel/spinlock.h, \<^verbatim>\<open>struct cpu\<close> of
  kernel/proc.h, the interrupt helpers of kernel/riscv.h).

  The state is what these functions touch: the CPU structures, with the supervisor interrupt
  enable bit of each hart beside them, the register \<^verbatim>\<open>tp\<close> that says which hart is executing, and
  every lock of the kernel, named by where it lives. The state is an extensible record: every
  later component adds its own fields and keeps these operations.

  Shown here: \<^verbatim>\<open>acquire\<close> and \<^verbatim>\<open>release\<close> as state changes under their guards; that a critical
  section gives back the lock and interrupt state it found; and, over all interleavings of lock
  operations by any number of CPUs, mutual exclusion and the exactness of the nesting counter.
\<close>

section \<open>State\<close>

datatype sleeplock_id = BufLock nat | InodeLock nat

datatype lock_id =
    PidLock | WaitLock | MlfqLock | StatsLock | ProcLock nat | TicksLock | KmemLock | BcacheLock
  | LogLock | ItableLock | FtableLock | ConsLock | PrLock | TxLock | VdiskLock
  | PipeLock uint64 | SleepLk sleeplock_id

record spinlock =
  locked :: bool
  lk_name :: string
  lk_cpu :: "nat option"

record cpu =
  c_proc :: "nat option"
  noff :: int
  intena :: bool
  sie :: bool

record machine =
  tp :: nat
  cpus :: "nat \<Rightarrow> cpu"
  locks :: "lock_id \<Rightarrow> spinlock"

abbreviation this_cpu :: "('z) machine_scheme \<Rightarrow> cpu" where
  "this_cpu s \<equiv> cpus s (tp s)"

definition upd_cpu :: "(cpu \<Rightarrow> cpu) \<Rightarrow> ('z) machine_scheme \<Rightarrow> ('z) machine_scheme" where
  "upd_cpu f s = s\<lparr>cpus := (cpus s)(tp s := f (cpus s (tp s)))\<rparr>"

definition upd_lock :: "lock_id \<Rightarrow> (spinlock \<Rightarrow> spinlock) \<Rightarrow> ('z) machine_scheme \<Rightarrow> ('z) machine_scheme" where
  "upd_lock l f s = s\<lparr>locks := (locks s)(l := f (locks s l))\<rparr>"

section \<open>Interrupt flag and identity of the CPU\<close>

definition intr_get :: "('z) machine_scheme \<Rightarrow> bool" where
  "intr_get s = sie (this_cpu s)"

definition intr_on :: "('z machine_scheme, unit) km" where
  "intr_on = modify (upd_cpu (\<lambda>c. c\<lparr>sie := True\<rparr>))"

definition intr_off :: "('z machine_scheme, unit) km" where
  "intr_off = modify (upd_cpu (\<lambda>c. c\<lparr>sie := False\<rparr>))"

definition cpuid :: "('z) machine_scheme \<Rightarrow> nat" where
  "cpuid s = tp s"

section \<open>push\_off, pop\_off\<close>

definition push_off :: "('z machine_scheme, unit) km" where
  "push_off = bind (gets intr_get) (\<lambda>old. block [
     intr_off,
     modify (upd_cpu (\<lambda>c. if noff c = 0 then c\<lparr>intena := old\<rparr> else c)),
     modify (upd_cpu (\<lambda>c. c\<lparr>noff := noff c + 1\<rparr>))])"

definition pop_off :: "('z machine_scheme, unit) km" where
  "pop_off = block [
     panic_if intr_get ''pop_off - interruptible'',
     panic_if (\<lambda>s. noff (this_cpu s) < 1) ''pop_off'',
     modify (upd_cpu (\<lambda>c. c\<lparr>noff := noff c - 1\<rparr>)),
     ifm (\<lambda>s. noff (this_cpu s) = 0 \<and> intena (this_cpu s)) intr_on skip]"

section \<open>Locks\<close>

definition initlock :: "lock_id \<Rightarrow> string \<Rightarrow> ('z machine_scheme, unit) km" where
  "initlock l name = modify (upd_lock l (\<lambda>k. k\<lparr>lk_name := name, locked := False, lk_cpu := None\<rparr>))"

definition holding :: "lock_id \<Rightarrow> ('z) machine_scheme \<Rightarrow> bool" where
  "holding l s \<longleftrightarrow> locked (locks s l) \<and> lk_cpu (locks s l) = Some (cpuid s)"

text \<open>The test-and-set loop: it leaves with the lock taken when the lock is free, and spins otherwise.\<close>

definition sync_lock_test_and_set :: "lock_id \<Rightarrow> ('z machine_scheme, unit) km" where
  "sync_lock_test_and_set l =
     ifm (\<lambda>s. locked (locks s l)) (spin ''acquire'') (modify (upd_lock l (\<lambda>k. k\<lparr>locked := True\<rparr>)))"

definition acquire :: "lock_id \<Rightarrow> ('z machine_scheme, unit) km" where
  "acquire l = block [
     push_off,
     panic_if (holding l) ''acquire'',
     sync_lock_test_and_set l,
     modify (\<lambda>s. upd_lock l (\<lambda>k. k\<lparr>lk_cpu := Some (cpuid s)\<rparr>) s)]"

definition release :: "lock_id \<Rightarrow> ('z machine_scheme, unit) km" where
  "release l = block [
     panic_if (\<lambda>s. \<not> holding l s) ''release'',
     modify (upd_lock l (\<lambda>k. k\<lparr>lk_cpu := None\<rparr>)),
     modify (upd_lock l (\<lambda>k. k\<lparr>locked := False\<rparr>)),
     pop_off]"

definition myproc :: "('z machine_scheme, nat option) km" where
  "myproc = bind push_off (\<lambda>_. bind (gets (\<lambda>s. c_proc (this_cpu s))) (\<lambda>p.
     bind pop_off (\<lambda>_. return p)))"

section \<open>The operations as guarded state changes\<close>

text \<open>A lock nobody holds, and the shape every CPU keeps: interrupts are off while it nests.\<close>

definition lock_free :: "lock_id \<Rightarrow> ('z) machine_scheme \<Rightarrow> bool" where
  "lock_free l s \<longleftrightarrow> \<not> locked (locks s l) \<and> lk_cpu (locks s l) = None"

definition irq_wf :: "('z) machine_scheme \<Rightarrow> bool" where
  "irq_wf s \<longleftrightarrow> 0 \<le> noff (this_cpu s) \<and> (0 < noff (this_cpu s) \<longrightarrow> \<not> sie (this_cpu s))"

text \<open>What a balanced nesting leaves behind: at the outermost level it records the interrupt flag.\<close>

definition settle :: "('z) machine_scheme \<Rightarrow> ('z) machine_scheme" where
  "settle s = upd_cpu (\<lambda>c. if noff c = 0 then c\<lparr>intena := sie c\<rparr> else c) s"

definition acq :: "lock_id \<Rightarrow> ('z) machine_scheme \<Rightarrow> ('z) machine_scheme" where
  "acq l s = upd_lock l (\<lambda>k. k\<lparr>locked := True, lk_cpu := Some (tp s)\<rparr>)
     (upd_cpu (\<lambda>c. c\<lparr>sie := False, intena := (if noff c = 0 then sie c else intena c), noff := noff c + 1\<rparr>) s)"

definition rel :: "lock_id \<Rightarrow> ('z) machine_scheme \<Rightarrow> ('z) machine_scheme" where
  "rel l s = upd_cpu (\<lambda>c. c\<lparr>noff := noff c - 1, sie := (noff c = 1 \<and> intena c)\<rparr>)
     (upd_lock l (\<lambda>k. k\<lparr>lk_cpu := None, locked := False\<rparr>) s)"

lemmas mach_defs = upd_cpu_def upd_lock_def intr_get_def cpuid_def

lemma upd_cpu_sels [simp]:
  "tp (upd_cpu f s) = tp s" "locks (upd_cpu f s) = locks s"
  "cpus (upd_cpu f s) = (cpus s)(tp s := f (this_cpu s))"
  by (simp_all add: upd_cpu_def)

lemma upd_lock_sels [simp]:
  "tp (upd_lock l g s) = tp s" "cpus (upd_lock l g s) = cpus s"
  "locks (upd_lock l g s) = (locks s)(l := g (locks s l))"
  by (simp_all add: upd_lock_def)

lemma acq_sels [simp]:
  "tp (acq l s) = tp s"
  "locks (acq l s) = (locks s)(l := (locks s l)\<lparr>locked := True, lk_cpu := Some (tp s)\<rparr>)"
  "cpus (acq l s) = (cpus s)(tp s := (this_cpu s)\<lparr>sie := False,
     intena := (if noff (this_cpu s) = 0 then sie (this_cpu s) else intena (this_cpu s)),
     noff := noff (this_cpu s) + 1\<rparr>)"
  by (simp_all add: acq_def)

lemma rel_sels [simp]:
  "tp (rel l s) = tp s"
  "locks (rel l s) = (locks s)(l := (locks s l)\<lparr>lk_cpu := None, locked := False\<rparr>)"
  "cpus (rel l s) = (cpus s)(tp s := (this_cpu s)\<lparr>noff := noff (this_cpu s) - 1,
     sie := (noff (this_cpu s) = 1 \<and> intena (this_cpu s))\<rparr>)"
  by (simp_all add: rel_def)

lemma settle_sels [simp]:
  "tp (settle s) = tp s" "locks (settle s) = locks s"
  "cpus (settle s) = (cpus s)(tp s := (if noff (this_cpu s) = 0
     then (this_cpu s)\<lparr>intena := sie (this_cpu s)\<rparr> else this_cpu s))"
  by (simp_all add: settle_def)

lemma lock_free_sels [simp]:
  "lock_free l (acq k s) \<longleftrightarrow> l \<noteq> k \<and> lock_free l s"
  "lock_free l (rel k s) \<longleftrightarrow> l = k \<or> lock_free l s"
  "lock_free l (settle s) = lock_free l s"
  by (auto simp: lock_free_def)

lemma holding_sels [simp]:
  "holding l (acq k s) \<longleftrightarrow> l = k \<or> holding l s"
  "holding l (rel k s) \<longleftrightarrow> l \<noteq> k \<and> holding l s"
  "holding l (settle s) = holding l s"
  by (auto simp: holding_def cpuid_def)

lemma irq_wf_sels [simp]:
  "0 \<le> noff (this_cpu s) \<Longrightarrow> irq_wf (acq l s)" "irq_wf s \<Longrightarrow> irq_wf (acq l s)"
  "irq_wf (settle s) = irq_wf s"
  by (auto simp: irq_wf_def)

lemma push_off_eq:
  "push_off s = Ok () (upd_cpu (\<lambda>c. c\<lparr>sie := False,
      intena := (if noff c = 0 then sie c else intena c), noff := noff c + 1\<rparr>) s)"
  by (simp add: push_off_def intr_off_def mach_defs)

lemma pop_off_eq:
  "\<not> sie (this_cpu s) \<Longrightarrow> 1 \<le> noff (this_cpu s) \<Longrightarrow>
    pop_off s = Ok () (upd_cpu (\<lambda>c. c\<lparr>noff := noff c - 1, sie := (noff c = 1 \<and> intena c)\<rparr>) s)"
  by (auto simp: pop_off_def intr_on_def mach_defs fun_eq_iff)

lemma acquire_eq [simp]: "lock_free l s \<Longrightarrow> acquire l s = Ok () (acq l s)"
  by (simp add: acquire_def push_off_eq lock_free_def holding_def sync_lock_test_and_set_def
      acq_def mach_defs)

lemma release_eq [simp]:
  "holding l s \<Longrightarrow> \<not> sie (this_cpu s) \<Longrightarrow> 1 \<le> noff (this_cpu s) \<Longrightarrow> release l s = Ok () (rel l s)"
  by (simp add: release_def pop_off_eq holding_def rel_def) (simp add: mach_defs)


text \<open>A critical section gives back the lock and interrupt state it found.\<close>

lemma rel_acq:
  assumes "lock_free l s" and "irq_wf s"
  shows "cpus (rel l (acq l s)) = cpus (settle s)" and "locks (rel l (acq l s)) = locks s"
proof -
  show "cpus (rel l (acq l s)) = cpus (settle s)"
    using assms(2) by (auto simp: irq_wf_def fun_eq_iff)
  show "locks (rel l (acq l s)) = locks s"
    using assms(1) by (auto simp: lock_free_def fun_eq_iff)
qed

lemma settle_nested [simp]: "noff (this_cpu s) \<noteq> 0 \<Longrightarrow> settle s = s"
  by (simp add: settle_def upd_cpu_def)

lemma settle_acq [simp]: "irq_wf s \<Longrightarrow> settle (acq l s) = acq l s"
  by (simp add: irq_wf_def)

lemma rel_acq_eq: "lock_free l s \<Longrightarrow> irq_wf s \<Longrightarrow> rel l (acq l s) = settle s"
proof -
  assume "lock_free l s" "irq_wf s"
  then have "s\<lparr>cpus := cpus (rel l (acq l s)), locks := locks (rel l (acq l s))\<rparr> =
      s\<lparr>cpus := cpus (settle s), locks := locks s\<rparr>" by (simp only: rel_acq)
  moreover have "rel l (acq l s) = s\<lparr>cpus := cpus (rel l (acq l s)), locks := locks (rel l (acq l s))\<rparr>"
    by (simp add: rel_def acq_def upd_cpu_def upd_lock_def)
  moreover have "settle s = s\<lparr>cpus := cpus (settle s), locks := locks s\<rparr>"
    by (simp add: settle_def upd_cpu_def)
  ultimately show ?thesis by (simp only:)
qed

lemma release_acq [simp]: "lock_free l s \<Longrightarrow> irq_wf s \<Longrightarrow> release l (acq l s) = Ok () (settle s)"
  by (simp add: holding_def cpuid_def irq_wf_def flip: rel_acq_eq)

lemma locked_section:
  assumes "lock_free l s" and "irq_wf s"
    and "m (acq l s) = Ok () t"
    and "tp t = tp s" and "cpus t = cpus (acq l s)" and "locks t = locks (acq l s)"
  shows "block [acquire l, m, release l] s =
    Ok () (t\<lparr>cpus := cpus (settle s), locks := locks s\<rparr>)"
proof -
  have "holding l t" using assms by (simp add: holding_def cpuid_def)
  moreover have "\<not> sie (this_cpu t)" and "1 \<le> noff (this_cpu t)"
    using assms by (simp_all add: irq_wf_def)
  ultimately have "block [acquire l, m, release l] s = Ok () (rel l t)"
    using assms by simp
  moreover have "rel l t = t\<lparr>cpus := cpus (rel l (acq l s)), locks := locks (rel l (acq l s))\<rparr>"
    using assms by (simp add: rel_def upd_cpu_def upd_lock_def)
  ultimately show ?thesis using rel_acq [OF assms(1,2)] by simp
qed

section \<open>All interleavings of several CPUs\<close>

text \<open>
  The instructions of \<^verbatim>\<open>acquire\<close> and \<^verbatim>\<open>release\<close> that other CPUs can observe are steps of their
  own: \<^verbatim>\<open>push_off\<close> with the \<^verbatim>\<open>holding\<close> check, the successful atomic swap, the store to
  \<^verbatim>\<open>lk->cpu\<close>; the store of 0 to \<^verbatim>\<open>lk->cpu\<close>, the store of 0 to \<^verbatim>\<open>lk->locked\<close>, \<^verbatim>\<open>pop_off\<close>. \<open>phase\<close>
  says how far a CPU is in such a call; \<open>crit\<close> records the locks whose \<^verbatim>\<open>acquire\<close> has returned
  and whose \<^verbatim>\<open>release\<close> has not begun; \<open>was_on\<close> records whether the interrupts of the CPU were on when
  it last began an \<^verbatim>\<open>acquire\<close> while it held no lock. None of them is read by the steps' effect on the
  machine, and \<open>was_on\<close> looks neither at \<^verbatim>\<open>noff\<close> nor at \<^verbatim>\<open>intena\<close>.
\<close>

datatype lock_phase = Pushed | Swapped | Cleared | Unlocked

record lock_sys = machine +
  phase :: "nat \<Rightarrow> (lock_id \<times> lock_phase) option"
  crit :: "nat \<Rightarrow> lock_id set"
  was_on :: "nat \<Rightarrow> bool"

definition run_on :: "nat \<Rightarrow> ('z) machine_scheme \<Rightarrow> ('z) machine_scheme" where
  "run_on c s = s\<lparr>tp := c\<rparr>"

definition set_phase :: "nat \<Rightarrow> (lock_id \<times> lock_phase) option \<Rightarrow> lock_sys \<Rightarrow> lock_sys" where
  "set_phase c ph s = s\<lparr>phase := (phase s)(c := ph)\<rparr>"

definition set_crit :: "nat \<Rightarrow> lock_id set \<Rightarrow> lock_sys \<Rightarrow> lock_sys" where
  "set_crit c L s = s\<lparr>crit := (crit s)(c := L)\<rparr>"

definition begin_acquire :: "nat \<Rightarrow> lock_id \<Rightarrow> lock_sys \<Rightarrow> lock_sys \<Rightarrow> lock_sys" where
  "begin_acquire c l s t = t\<lparr>phase := (phase t)(c := Some (l, Pushed)),
     was_on := (was_on s)(c := if crit s c = {} then sie (cpus s c) else was_on s c)\<rparr>"

inductive lock_step :: "lock_sys \<Rightarrow> lock_sys \<Rightarrow> bool" where
  a_push: "phase s c = None \<Longrightarrow> push_off (run_on c s) = Ok () t \<Longrightarrow> \<not> holding l t \<Longrightarrow>
     lock_step s (begin_acquire c l s t)"
| a_swap: "phase s c = Some (l, Pushed) \<Longrightarrow> sync_lock_test_and_set l (run_on c s) = Ok () t \<Longrightarrow>
     lock_step s (set_phase c (Some (l, Swapped)) t)"
| a_own: "phase s c = Some (l, Swapped) \<Longrightarrow>
     lock_step s (set_crit c (insert l (crit s c)) (set_phase c None
       (upd_lock l (\<lambda>k. k\<lparr>lk_cpu := Some c\<rparr>) (run_on c s))))"
| r_clear: "phase s c = None \<Longrightarrow> holding l (run_on c s) \<Longrightarrow>
     lock_step s (set_crit c (crit s c - {l}) (set_phase c (Some (l, Cleared))
       (upd_lock l (\<lambda>k. k\<lparr>lk_cpu := None\<rparr>) (run_on c s))))"
| r_unlock: "phase s c = Some (l, Cleared) \<Longrightarrow>
     lock_step s (set_phase c (Some (l, Unlocked))
       (upd_lock l (\<lambda>k. k\<lparr>locked := False\<rparr>) (run_on c s)))"
| r_pop: "phase s c = Some (l, Unlocked) \<Longrightarrow> pop_off (run_on c s) = Ok () t \<Longrightarrow>
     lock_step s (set_phase c None t)"
| irq_on: "phase s c = None \<Longrightarrow> noff (cpus s c) = 0 \<Longrightarrow> intr_on (run_on c s) = Ok () t \<Longrightarrow> lock_step s t"
| irq_off: "phase s c = None \<Longrightarrow> intr_off (run_on c s) = Ok () t \<Longrightarrow> lock_step s t"

definition lock_init :: "lock_sys \<Rightarrow> bool" where
  "lock_init s \<longleftrightarrow> (\<forall>l. lock_free l s) \<and> (\<forall>c. noff (cpus s c) = 0 \<and> phase s c = None \<and> crit s c = {})"

inductive lock_reachable :: "lock_sys \<Rightarrow> bool" where
  start: "lock_init s \<Longrightarrow> lock_reachable s"
| step: "lock_reachable s \<Longrightarrow> lock_step s t \<Longrightarrow> lock_reachable t"

text \<open>Who has the lock word: between the swap and the store of 0, seen from outside.\<close>

definition owner :: "lock_sys \<Rightarrow> lock_id \<Rightarrow> nat \<Rightarrow> bool" where
  "owner s l c \<longleftrightarrow> l \<in> crit s c \<or> phase s c = Some (l, Swapped) \<or> phase s c = Some (l, Cleared)"

definition lock_inv :: "lock_sys \<Rightarrow> bool" where
  "lock_inv s \<longleftrightarrow>
     (\<forall>l. locked (locks s l) \<longleftrightarrow> (\<exists>c. owner s l c)) \<and>
     (\<forall>l c d. owner s l c \<longrightarrow> owner s l d \<longrightarrow> c = d) \<and>
     (\<forall>l c. lk_cpu (locks s l) = Some c \<longleftrightarrow> l \<in> crit s c) \<and>
     (\<forall>l c. l \<in> crit s c \<longrightarrow> phase s c \<noteq> Some (l, Swapped) \<and> phase s c \<noteq> Some (l, Cleared)) \<and>
     (\<forall>c. finite (crit s c)) \<and>
     (\<forall>c. noff (cpus s c) = int (card (crit s c)) + (if phase s c = None then 0 else 1)) \<and>
     (\<forall>c. 0 < noff (cpus s c) \<longrightarrow> \<not> sie (cpus s c)) \<and>
     (\<forall>c. 0 < noff (cpus s c) \<longrightarrow> intena (cpus s c) = was_on s c)"

lemma lock_sys_sels [simp]:
  "phase (run_on c s) = phase s" "crit (run_on c s) = crit s"
  "phase (upd_cpu f s) = phase s" "crit (upd_cpu f s) = crit s"
  "phase (upd_lock l g s) = phase s" "crit (upd_lock l g s) = crit s"
  "phase (set_phase d ph s) = (phase s)(d := ph)" "crit (set_phase d ph s) = crit s"
  "phase (set_crit d L s) = phase s" "crit (set_crit d L s) = (crit s)(d := L)"
  "locks (set_phase d ph s) = locks s" "cpus (set_phase d ph s) = cpus s"
  "locks (set_crit d L s) = locks s" "cpus (set_crit d L s) = cpus s"
  "was_on (run_on c s) = was_on s" "was_on (upd_cpu f s) = was_on s" "was_on (upd_lock l g s) = was_on s"
  "was_on (set_phase d ph s) = was_on s" "was_on (set_crit d L s) = was_on s"
  by (simp_all add: run_on_def upd_cpu_def upd_lock_def set_phase_def set_crit_def)

lemma begin_acquire_sels [simp]:
  "phase (begin_acquire c l s t) = (phase t)(c := Some (l, Pushed))" "crit (begin_acquire c l s t) = crit t"
  "was_on (begin_acquire c l s t) = (was_on s)(c := if crit s c = {} then sie (cpus s c) else was_on s c)"
  "locks (begin_acquire c l s t) = locks t" "cpus (begin_acquire c l s t) = cpus t"
  by (simp_all add: begin_acquire_def)

lemma run_on_sels [simp]:
  "tp (run_on c s) = c" "cpus (run_on c s) = cpus s" "locks (run_on c s) = locks s"
  by (simp_all add: run_on_def)

lemma lock_invI:
  assumes "\<And>l. locked (locks s l) \<longleftrightarrow> (\<exists>c. owner s l c)"
    and "\<And>l c d. owner s l c \<Longrightarrow> owner s l d \<Longrightarrow> c = d"
    and "\<And>l c. lk_cpu (locks s l) = Some c \<longleftrightarrow> l \<in> crit s c"
    and "\<And>l c. l \<in> crit s c \<Longrightarrow> phase s c \<noteq> Some (l, Swapped) \<and> phase s c \<noteq> Some (l, Cleared)"
    and "\<And>c. finite (crit s c)"
    and "\<And>c. noff (cpus s c) = int (card (crit s c)) + (if phase s c = None then 0 else 1)"
    and "\<And>c. 0 < noff (cpus s c) \<Longrightarrow> \<not> sie (cpus s c)"
    and "\<And>c. 0 < noff (cpus s c) \<Longrightarrow> intena (cpus s c) = was_on s c"
  shows "lock_inv s"
  using assms unfolding lock_inv_def by (intro conjI allI impI) blast+

lemma lock_invD:
  assumes "lock_inv s"
  shows "locked (locks s l) \<longleftrightarrow> (\<exists>c. owner s l c)"
    and "owner s l c \<Longrightarrow> owner s l d \<Longrightarrow> c = d"
    and "lk_cpu (locks s l) = Some c \<longleftrightarrow> l \<in> crit s c"
    and "l \<in> crit s c \<Longrightarrow> phase s c \<noteq> Some (l, Swapped)"
    and "l \<in> crit s c \<Longrightarrow> phase s c \<noteq> Some (l, Cleared)"
    and "finite (crit s c)"
    and "noff (cpus s c) = int (card (crit s c)) + (if phase s c = None then 0 else 1)"
    and "0 < noff (cpus s c) \<Longrightarrow> \<not> sie (cpus s c)"
    and "0 < noff (cpus s c) \<Longrightarrow> intena (cpus s c) = was_on s c"
  using assms unfolding lock_inv_def by blast+

text \<open>Steps that move no lock word only have to account for the nesting counter and the interrupt flag.\<close>

lemma lock_inv_quiet:
  assumes "lock_inv s" and "locks t = locks s" and "crit t = crit s"
    and "\<And>d k. phase t d = Some (k, Swapped) \<longleftrightarrow> phase s d = Some (k, Swapped)"
    and "\<And>d k. phase t d = Some (k, Cleared) \<longleftrightarrow> phase s d = Some (k, Cleared)"
    and "\<And>c. noff (cpus t c) = int (card (crit s c)) + (if phase t c = None then 0 else 1)"
    and "\<And>c. 0 < noff (cpus t c) \<Longrightarrow> \<not> sie (cpus t c)"
    and "\<And>c. 0 < noff (cpus t c) \<Longrightarrow> intena (cpus t c) = was_on t c"
  shows "lock_inv t"
proof -
  have "owner t = owner s" using assms(3,4,5) by (simp add: owner_def fun_eq_iff)
  with assms show ?thesis unfolding lock_inv_def by simp
qed

lemma lock_inv_push:
  assumes inv: "lock_inv s" and ph: "phase s c = None" and t: "push_off (run_on c s) = Ok () t"
  shows "lock_inv (begin_acquire c l s t)"
proof -
  from t have t: "t = upd_cpu (\<lambda>c. c\<lparr>sie := False,
      intena := (if noff c = 0 then sie c else intena c), noff := noff c + 1\<rparr>) (run_on c s)"
    by (simp add: push_off_eq)
  show ?thesis
    by (rule lock_inv_quiet [OF inv]) (use ph lock_invD(6-9) [OF inv] in \<open>auto simp: t card_gt_0_iff\<close>)
qed

lemma lock_inv_swap:
  assumes inv: "lock_inv s" and ph: "phase s c = Some (l, Pushed)"
    and swap: "sync_lock_test_and_set l (run_on c s) = Ok () t"
  shows "lock_inv (set_phase c (Some (l, Swapped)) t)"
proof -
  note D = lock_invD [OF inv]
  from swap have t: "t = upd_lock l (\<lambda>k. k\<lparr>locked := True\<rparr>) (run_on c s)" and free: "\<not> locked (locks s l)"
    by (auto simp: sync_lock_test_and_set_def split: if_splits)
  from free D(1) have no: "\<not> owner s l d" for d by blast
  have own: "owner (set_phase c (Some (l, Swapped)) t) k d \<longleftrightarrow> owner s k d \<or> k = l \<and> d = c" for k d
    using ph by (auto simp: t owner_def)
  show ?thesis
  proof (rule lock_invI, goal_cases)
    case (1 k) from D(1) [of k] show ?case unfolding own by (auto simp: t)
  next
    case (2 k d e) with D(2) [of k d e] no show ?case unfolding own by blast
  next
    case (3 k d) from D(3) [of k d] show ?case by (auto simp: t)
  next
    case (4 k d) with ph D(4) [of k d] D(5) [of k d] no show ?case by (auto simp: t owner_def split: if_splits)
  next
    case 5 from D(6) show ?case by (auto simp: t)
  next
    case (6 d) from ph D(7) [of d] show ?case by (auto simp: t)
  next
    case (7 d) with D(8) [of d] show ?case by (auto simp: t)
  next
    case (8 d) with D(9) [of d] show ?case by (auto simp: t)
  qed
qed

lemma lock_inv_own:
  assumes inv: "lock_inv s" and ph: "phase s c = Some (l, Swapped)"
  shows "lock_inv (set_crit c (insert l (crit s c)) (set_phase c None
       (upd_lock l (\<lambda>k. k\<lparr>lk_cpu := Some c\<rparr>) (run_on c s))))" (is "lock_inv ?t")
proof -
  note D = lock_invD [OF inv]
  have own: "owner ?t = owner s" using ph by (auto simp: owner_def fun_eq_iff)
  show ?thesis
  proof (rule lock_invI, goal_cases)
    case (1 k) from D(1) [of k] D(1) [of l] show ?case unfolding own by auto
  next
    case (2 k d e) with D(2) [of k d e] show ?case unfolding own by simp
  next
    case (3 k d) from ph D(3) [of k d] D(2) [of k d c] D(4) [of k d] show ?case by (auto simp: owner_def)
  next
    case (4 k d) with ph D(4) [of k d] D(5) [of k d] show ?case by (auto split: if_splits)
  next
    case (5 d) from D(6) [of d] show ?case by auto
  next
    case (6 d) from ph D(7) [of d] D(6) [of d] D(4) [of l d] show ?case
      by (cases "d = c") (auto simp: card_insert_if)
  next
    case (7 d) with D(8) [of d] show ?case by auto
  next
    case (8 d) with D(9) [of d] show ?case by auto
  qed
qed

lemma lock_inv_clear:
  assumes inv: "lock_inv s" and ph: "phase s c = None" and hold: "holding l (run_on c s)"
  shows "lock_inv (set_crit c (crit s c - {l}) (set_phase c (Some (l, Cleared))
       (upd_lock l (\<lambda>k. k\<lparr>lk_cpu := None\<rparr>) (run_on c s))))" (is "lock_inv ?t")
proof -
  note D = lock_invD [OF inv]
  from hold D(3) have mem: "l \<in> crit s c" by (simp add: holding_def cpuid_def)
  have own: "owner ?t = owner s" using ph mem by (auto simp: owner_def fun_eq_iff)
  show ?thesis
  proof (rule lock_invI, goal_cases)
    case (1 k) from D(1) [of k] D(1) [of l] show ?case unfolding own by auto
  next
    case (2 k d e) with D(2) [of k d e] show ?case unfolding own by simp
  next
    case (3 k d) from mem D(3) [of k d] D(3) [of k c] show ?case by auto
  next
    case (4 k d) with ph D(4) [of k d] D(5) [of k d] show ?case by (auto split: if_splits)
  next
    case (5 d) from D(6) [of d] show ?case by auto
  next
    case (6 d) from ph mem D(7) [of d] D(6) [of d] card_gt_0_iff [of "crit s c"] show ?case
      by (auto simp: card_Diff_singleton)
  next
    case (7 d) with D(8) [of d] show ?case by auto
  next
    case (8 d) with D(9) [of d] show ?case by auto
  qed
qed

lemma lock_inv_unlock:
  assumes inv: "lock_inv s" and ph: "phase s c = Some (l, Cleared)"
  shows "lock_inv (set_phase c (Some (l, Unlocked))
       (upd_lock l (\<lambda>k. k\<lparr>locked := False\<rparr>) (run_on c s)))" (is "lock_inv ?t")
proof -
  note D = lock_invD [OF inv]
  have own: "owner ?t k d \<longleftrightarrow> owner s k d \<and> k \<noteq> l" for k d
  proof (cases "d = c")
    case True
    with ph D(5) [of l c] show ?thesis by (auto simp: owner_def)
  next
    case False
    moreover from ph D(2) [of l d c] have "owner s l d \<Longrightarrow> d = c" by (simp add: owner_def)
    ultimately show ?thesis by (auto simp: owner_def)
  qed
  show ?thesis
  proof (rule lock_invI, goal_cases)
    case (1 k) from D(1) [of k] show ?case unfolding own by auto
  next
    case (2 k d e) with D(2) [of k d e] show ?case unfolding own by simp
  next
    case (3 k d) from D(3) [of k d] show ?case by auto
  next
    case (4 k d) with ph D(4) [of k d] D(5) [of k d] show ?case by (auto split: if_splits)
  next
    case (5 d) from D(6) [of d] show ?case by auto
  next
    case (6 d) from ph D(7) [of d] show ?case by auto
  next
    case (7 d) with D(8) [of d] show ?case by auto
  next
    case (8 d) with D(9) [of d] show ?case by auto
  qed
qed

lemma unlocked_pop_ready:
  assumes "lock_inv s" and "phase s c = Some (l, Unlocked)"
  shows "1 \<le> noff (cpus s c)" and "\<not> sie (cpus s c)"
proof -
  show n: "1 \<le> noff (cpus s c)" using lock_invD(7) [OF assms(1), of c] assms(2) by simp
  show "\<not> sie (cpus s c)" using n lock_invD(8) [OF assms(1), of c] by simp
qed

lemma lock_inv_pop:
  assumes inv: "lock_inv s" and ph: "phase s c = Some (l, Unlocked)" and pop: "pop_off (run_on c s) = Ok () t"
  shows "lock_inv (set_phase c None t)"
proof -
  from pop unlocked_pop_ready [OF inv ph]
  have t: "t = upd_cpu (\<lambda>c. c\<lparr>noff := noff c - 1, sie := (noff c = 1 \<and> intena c)\<rparr>) (run_on c s)"
    by (simp add: pop_off_eq)
  show ?thesis
    by (rule lock_inv_quiet [OF inv])
      (use ph lock_invD(7,8,9) [OF inv] in \<open>auto simp: t split: if_splits\<close>)
qed

lemma lock_inv_irq:
  assumes inv: "lock_inv s" and n: "on \<longrightarrow> noff (cpus s c) = 0"
  shows "lock_inv (upd_cpu (\<lambda>k. k\<lparr>sie := on\<rparr>) (run_on c s))"
  by (rule lock_inv_quiet [OF inv]) (use n lock_invD(7,8,9) [OF inv] in \<open>auto split: if_splits\<close>)

lemma lock_step_inv: "lock_step s t \<Longrightarrow> lock_inv s \<Longrightarrow> lock_inv t"
proof (induction rule: lock_step.induct)
  case a_push then show ?case by (blast intro: lock_inv_push)
next
  case a_swap then show ?case by (blast intro: lock_inv_swap)
next
  case a_own then show ?case by (blast intro: lock_inv_own)
next
  case r_clear then show ?case by (blast intro: lock_inv_clear)
next
  case r_unlock then show ?case by (blast intro: lock_inv_unlock)
next
  case r_pop then show ?case by (blast intro: lock_inv_pop)
next
  case (irq_on s c t)
  with lock_inv_irq [of s True c] show ?case by (auto simp: intr_on_def)
next
  case (irq_off s c t)
  with lock_inv_irq [of s False c] show ?case by (auto simp: intr_off_def)
qed

lemma lock_init_inv: "lock_init s \<Longrightarrow> lock_inv s"
proof -
  assume init: "lock_init s"
  then have "\<not> owner s l c" for l c by (simp add: lock_init_def owner_def)
  with init show ?thesis by (simp add: lock_inv_def lock_init_def lock_free_def)
qed

lemma lock_reachable_inv: "lock_reachable s \<Longrightarrow> lock_inv s"
  by (induction rule: lock_reachable.induct) (blast intro: lock_init_inv lock_step_inv)+

section \<open>Locks exclude each other\<close>

definition idle_sys :: lock_sys where
  "idle_sys = \<lparr>tp = 0, cpus = (\<lambda>_. \<lparr>c_proc = None, noff = 0, intena = False, sie = True\<rparr>),
     locks = (\<lambda>_. \<lparr>locked = False, lk_name = [], lk_cpu = None\<rparr>), phase = (\<lambda>_. None), crit = (\<lambda>_. {}), was_on = (\<lambda>_. False)\<rparr>"

lemma idle_sys_sels [simp]:
  "cpus idle_sys = (\<lambda>_. \<lparr>c_proc = None, noff = 0, intena = False, sie = True\<rparr>)"
  "locks idle_sys = (\<lambda>_. \<lparr>locked = False, lk_name = [], lk_cpu = None\<rparr>)"
  "phase idle_sys = (\<lambda>_. None)" "crit idle_sys = (\<lambda>_. {})"
  by (simp_all add: idle_sys_def)

lemma lock_init_idle: "lock_init idle_sys"
  by (simp add: lock_init_def lock_free_def)

text \<open>The states CPU 1 goes through in \<^verbatim>\<open>acquire(&stats_lock)\<close> and half of \<^verbatim>\<open>release\<close>.\<close>

definition sys_pushed :: lock_sys where
  "sys_pushed = begin_acquire 1 StatsLock idle_sys (upd_cpu (\<lambda>c. c\<lparr>sie := False,
      intena := (if noff c = 0 then sie c else intena c), noff := noff c + 1\<rparr>) (run_on 1 idle_sys))"

definition sys_swapped :: lock_sys where
  "sys_swapped = set_phase 1 (Some (StatsLock, Swapped))
     (upd_lock StatsLock (\<lambda>k. k\<lparr>locked := True\<rparr>) (run_on 1 sys_pushed))"

definition sys_held :: lock_sys where
  "sys_held = set_crit 1 (insert StatsLock (crit sys_swapped 1)) (set_phase 1 None
       (upd_lock StatsLock (\<lambda>k. k\<lparr>lk_cpu := Some 1\<rparr>) (run_on 1 sys_swapped)))"

definition sys_cleared :: lock_sys where
  "sys_cleared = set_crit 1 (crit sys_held 1 - {StatsLock}) (set_phase 1 (Some (StatsLock, Cleared))
       (upd_lock StatsLock (\<lambda>k. k\<lparr>lk_cpu := None\<rparr>) (run_on 1 sys_held)))"

definition sys_unlocked :: lock_sys where
  "sys_unlocked = set_phase 1 (Some (StatsLock, Unlocked))
       (upd_lock StatsLock (\<lambda>k. k\<lparr>locked := False\<rparr>) (run_on 1 sys_cleared))"

lemma reachable_held: "lock_reachable sys_held"
proof -
  have "lock_step idle_sys sys_pushed"
    unfolding sys_pushed_def by (rule a_push) (simp_all add: push_off_eq holding_def cpuid_def)
  moreover have "lock_step sys_pushed sys_swapped"
    unfolding sys_swapped_def by (rule a_swap) (simp_all add: sync_lock_test_and_set_def sys_pushed_def)
  moreover have "lock_step sys_swapped sys_held"
    unfolding sys_held_def by (rule a_own) (simp add: sys_swapped_def)
  ultimately show ?thesis using lock_reachable.intros lock_init_idle by metis
qed

lemma reachable_unlocked: "lock_reachable sys_unlocked"
proof -
  have "lock_step sys_held sys_cleared" unfolding sys_cleared_def
    by (rule r_clear) (simp_all add: sys_held_def holding_def cpuid_def sys_swapped_def)
  moreover have "lock_step sys_cleared sys_unlocked"
    unfolding sys_unlocked_def by (rule r_unlock) (simp add: sys_cleared_def)
  ultimately show ?thesis using reachable_held lock_reachable.step by blast
qed

text \<open>
  C4. Whatever the interleaving of the instructions of \<^verbatim>\<open>acquire\<close> and \<^verbatim>\<open>release\<close> on any number of
  CPUs, two CPUs are never both between a completed \<^verbatim>\<open>acquire\<close> and the following \<^verbatim>\<open>release\<close> of the
  same spinlock.
\<close>

theorem spinlock_mutual_exclusion:
  assumes "lock_reachable s" and "l \<in> crit s c" and "l \<in> crit s d"
  shows "c = d"
  using lock_invD(2) [OF lock_reachable_inv [OF assms(1)], of l c d] assms(2,3) by (simp add: owner_def)

theorem spinlock_mutual_exclusion_witness:
  "lock_reachable sys_held \<and> {d. StatsLock \<in> crit sys_held d} = {1}"
proof -
  have "StatsLock \<in> crit sys_held 1" by (simp add: sys_held_def)
  with spinlock_mutual_exclusion [OF reachable_held this] have "{d. StatsLock \<in> crit sys_held d} = {1}" by blast
  with reachable_held show ?thesis by simp
qed

text \<open>
  C7. A CPU that holds a spinlock has its interrupts off, owns the lock word and passes
  \<^verbatim>\<open>holding\<close>; and its nesting counter \<^verbatim>\<open>noff\<close> is exactly the number of locks it holds, plus one
  while it is inside a lock operation.
\<close>

theorem spinlock_holder_state:
  assumes "lock_reachable s" and "l \<in> crit s c"
  shows "\<not> sie (cpus s c) \<and> holding l (run_on c s) \<and>
    noff (cpus s c) = int (card (crit s c)) + (if phase s c = None then 0 else 1)"
proof -
  note D = lock_invD [OF lock_reachable_inv [OF assms(1)]]
  have "0 < card (crit s c)" using assms(2) D(6) [of c] by (auto simp: card_gt_0_iff)
  then have "0 < noff (cpus s c)" using D(7) [of c] by simp
  moreover have "locked (locks s l)" using D(1) [of l] assms(2) by (auto simp: owner_def)
  ultimately show ?thesis using D(3) [of l c] D(7,8) [of c] assms(2) by (simp add: holding_def cpuid_def)
qed

theorem spinlock_holder_state_witness:
  "StatsLock \<in> crit sys_held 1 \<and> \<not> sie (cpus sys_held 1) \<and> holding StatsLock (run_on 1 sys_held) \<and>
    noff (cpus sys_held 1) = 1"
  using spinlock_holder_state [OF reachable_held, of StatsLock 1]
  by (simp add: sys_held_def sys_swapped_def sys_pushed_def)

text \<open>
  C8. The \<^verbatim>\<open>pop_off\<close> that ends a \<^verbatim>\<open>release\<close> never hits its panics (interruptible, nesting below
  one), and it turns interrupts on again exactly when the CPU now holds no lock and its interrupts were
  on when it began the outermost \<^verbatim>\<open>acquire\<close>, however many locks it took and gave back in between.
\<close>

theorem release_pop_off_safe:
  assumes "lock_reachable s" and "phase s c = Some (l, Unlocked)"
  shows "\<exists>t. pop_off (run_on c s) = Ok () t \<and> noff (cpus t c) = int (card (crit s c)) \<and>
    (sie (cpus t c) \<longleftrightarrow> crit s c = {} \<and> was_on s c)"
proof -
  note D = lock_invD [OF lock_reachable_inv [OF assms(1)]]
  have "noff (cpus s c) = int (card (crit s c)) + 1" using D(7) [of c] assms(2) by simp
  with D(6,8,9) [of c] show ?thesis by (simp add: pop_off_eq)
qed

theorem release_pop_off_safe_witness:
  "was_on sys_unlocked 1 \<and> (\<exists>t. pop_off (run_on 1 sys_unlocked) = Ok () t \<and> noff (cpus t 1) = 0 \<and> sie (cpus t 1))"
  using release_pop_off_safe [OF reachable_unlocked, of 1 StatsLock]
  by (simp add: sys_unlocked_def sys_cleared_def sys_held_def sys_swapped_def sys_pushed_def)

end
