(* ===== verification/RunQueue.thy ===== *)
theory RunQueue
  imports Spinlock
begin

text \<open>
  The process table and the MLFQ run queues (kernel/proc.h, the queue management functions of
  kernel/proc.c, the constants of kernel/param.h).

  A \<^verbatim>\<open>struct proc *\<close> is an index into the process table and the null pointer is \<open>None\<close>. A run queue
  is a pair of pointers, and the queue itself is threaded through the \<^verbatim>\<open>queue_next\<close> fields of the
  process table, as in the code. \<open>rq_rep\<close> relates such a queue to the list of processes it holds.
  Shown here: the pointer operations implement the list operations, they never index outside the
  array of queues when levels are in range, the search loop of \<^verbatim>\<open>dequeue_specific\<close> terminates on a
  well-formed queue, and the interface \<open>ready_queues\<close> the scheduler relies on.
\<close>

section \<open>Constants (kernel/param.h, kernel/proc.h)\<close>

definition NPROC :: nat where "NPROC = 64"
definition NOFILE :: nat where "NOFILE = 16"
definition MLFQ_LEVELS :: nat where "MLFQ_LEVELS = 4"
definition QUANTUM_L0 :: int where "QUANTUM_L0 = 2"
definition QUANTUM_L1 :: int where "QUANTUM_L1 = 4"
definition QUANTUM_L2 :: int where "QUANTUM_L2 = 8"
definition QUANTUM_L3 :: int where "QUANTUM_L3 = 16"
definition BOOST_INTERVAL :: uint where "BOOST_INTERVAL = 100"

section \<open>The process table (kernel/proc.h)\<close>

datatype procstate = UNUSED | USED | SLEEPING | RUNNABLE | RUNNING | ZOMBIE

text \<open>
  A wait channel is the address of some kernel object; distinct objects have distinct addresses.
  The address 0 is \<open>None\<close> where a channel is stored.
\<close>

datatype chan =
    ChanProc nat | ChanTicks | ChanLog | ChanSleeplock sleeplock_id
  | ChanPipeRead uint64 | ChanPipeWrite uint64 | ChanCons | ChanTx | ChanDiskFree | ChanBuf nat

text \<open>The saved registers of \<^verbatim>\<open>struct context\<close>: \<^verbatim>\<open>ra\<close>, \<^verbatim>\<open>sp\<close> and the callee-saved \<^verbatim>\<open>s0\<close> to \<^verbatim>\<open>s11\<close>.\<close>

record proc_context =
  ctx_ra :: uint64
  ctx_sp :: uint64
  ctx_s :: "uint64 list"

record proc =
  state :: procstate
  chan :: "chan option"
  p_killed :: bool
  xstate :: int
  pid :: int
  parent :: "nat option"
  kstack :: uint64
  sz :: uint64
  pagetable :: uint64
  trapframe :: uint64
  pcontext :: proc_context
  ofile :: "nat \<Rightarrow> nat option"
  cwd :: "nat option"
  name :: "uchar list"
  queue_level :: int
  time_in_queue :: int
  time_slices :: uint64
  entered_queue_tick :: int
  queue_next :: "nat option"

record runqueue =
  head :: "nat option"
  tail :: "nat option"

record mlfq_stats =
  total_schedules :: uint64
  total_boosts :: uint64
  total_demotions :: uint64
  level_queue_count :: "nat \<Rightarrow> uint64"
  level_schedules :: "nat \<Rightarrow> uint64"

text \<open>The globals of kernel/proc.c and the tick counters of kernel/trap.c.\<close>

record kern = machine +
  procs :: "nat \<Rightarrow> proc"
  initproc :: "nat option"
  nextpid :: int
  runqueues :: "nat \<Rightarrow> runqueue"
  ticks_since_boost :: uint
  scheduler_stats :: mlfq_stats
  scheduler_cycle_count :: uint64
  ticks :: uint
  stimecmp :: "nat \<Rightarrow> uint64"
  mtime :: uint64

definition upd_proc :: "nat \<Rightarrow> (proc \<Rightarrow> proc) \<Rightarrow> ('z) kern_scheme \<Rightarrow> ('z) kern_scheme" where
  "upd_proc p f s = s\<lparr>procs := (procs s)(p := f (procs s p))\<rparr>"

definition upd_rq :: "nat \<Rightarrow> (runqueue \<Rightarrow> runqueue) \<Rightarrow> ('z) kern_scheme \<Rightarrow> ('z) kern_scheme" where
  "upd_rq l f s = s\<lparr>runqueues := (runqueues s)(l := f (runqueues s l))\<rparr>"

definition upd_stats :: "(mlfq_stats \<Rightarrow> mlfq_stats) \<Rightarrow> ('z) kern_scheme \<Rightarrow> ('z) kern_scheme" where
  "upd_stats f s = s\<lparr>scheduler_stats := f (scheduler_stats s)\<rparr>"

text \<open>The kernel's data before \<^verbatim>\<open>main\<close> runs: zero but for \<^verbatim>\<open>nextpid\<close>.\<close>

definition zero_proc :: proc where
  "zero_proc = \<lparr>state = UNUSED, chan = None, p_killed = False, xstate = 0, pid = 0, parent = None, kstack = 0,
     sz = 0, pagetable = 0, trapframe = 0, pcontext = \<lparr>ctx_ra = 0, ctx_sp = 0, ctx_s = replicate 12 0\<rparr>,
     ofile = (\<lambda>_. None), cwd = None, name = [], queue_level = 0, time_in_queue = 0, time_slices = 0,
     entered_queue_tick = 0, queue_next = None\<rparr>"

definition zero_sched :: kern where
  "zero_sched = \<lparr>tp = 0, cpus = (\<lambda>_. \<lparr>c_proc = None, noff = 0, intena = False, sie = False\<rparr>),
     locks = (\<lambda>_. \<lparr>locked = False, lk_name = [], lk_cpu = None\<rparr>),
     procs = (\<lambda>_. zero_proc), initproc = None, nextpid = 1, runqueues = (\<lambda>_. \<lparr>head = None, tail = None\<rparr>),
     ticks_since_boost = 0,
     scheduler_stats = \<lparr>total_schedules = 0, total_boosts = 0, total_demotions = 0,
       level_queue_count = (\<lambda>_. 0), level_schedules = (\<lambda>_. 0)\<rparr>,
     scheduler_cycle_count = 0, ticks = 0, stimecmp = (\<lambda>_. 0), mtime = 0\<rparr>"

section \<open>Queue management (kernel/proc.c)\<close>

definition get_quantum :: "int \<Rightarrow> int" where
  "get_quantum level =
     (if level = 0 then QUANTUM_L0
      else if level = 1 then QUANTUM_L1
      else if level = 2 then QUANTUM_L2
      else if level = 3 then QUANTUM_L3
      else QUANTUM_L3)"

text \<open>An index into the array \<^verbatim>\<open>runqueues\<close>; outside of it the access is undefined.\<close>

definition level_ok :: "int \<Rightarrow> bool" where
  "level_ok l \<longleftrightarrow> 0 \<le> l \<and> l < int MLFQ_LEVELS"

definition enqueue :: "nat \<Rightarrow> ('z kern_scheme, unit) km" where
  "enqueue p = bind (gets (\<lambda>s. queue_level (procs s p))) (\<lambda>level.
     bind (fault_if (\<lambda>_. \<not> level_ok level) ''runqueues'') (\<lambda>_.
     bind (gets (\<lambda>s. tail (runqueues s (nat level)))) (\<lambda>tl. case tl of
       None \<Rightarrow> block [
         modify (upd_rq (nat level) (\<lambda>q. q\<lparr>head := Some p\<rparr>)),
         modify (upd_rq (nat level) (\<lambda>q. q\<lparr>tail := Some p\<rparr>)),
         modify (upd_proc p (\<lambda>r. r\<lparr>queue_next := None\<rparr>))]
     | Some t \<Rightarrow> block [
         modify (upd_proc t (\<lambda>r. r\<lparr>queue_next := Some p\<rparr>)),
         modify (upd_rq (nat level) (\<lambda>q. q\<lparr>tail := Some p\<rparr>)),
         modify (upd_proc p (\<lambda>r. r\<lparr>queue_next := None\<rparr>))])))"

definition dequeue :: "int \<Rightarrow> ('z kern_scheme, nat option) km" where
  "dequeue level =
     bind (fault_if (\<lambda>_. \<not> level_ok level) ''runqueues'') (\<lambda>_.
     bind (gets (\<lambda>s. head (runqueues s (nat level)))) (\<lambda>h. case h of
       None \<Rightarrow> return None
     | Some p \<Rightarrow> bind (block [
         modify (\<lambda>s. upd_rq (nat level) (\<lambda>q. q\<lparr>head := queue_next (procs s p)\<rparr>) s),
         ifm (\<lambda>s. head (runqueues s (nat level)) = None)
           (modify (upd_rq (nat level) (\<lambda>q. q\<lparr>tail := None\<rparr>))) skip,
         modify (upd_proc p (\<lambda>r. r\<lparr>queue_next := None\<rparr>))]) (\<lambda>_. return (Some p))))"

text \<open>
  The search loop of \<^verbatim>\<open>dequeue_specific\<close> walks the links until it meets \<open>p\<close> or the end. On a cyclic
  list it never ends, so it is a partial function: \<open>None\<close> when it does not return, otherwise
  \<open>Some None\<close> when the end is reached and \<open>Some (Some prev)\<close> when \<open>p\<close> is found behind \<open>prev\<close>.
\<close>

partial_function (option) find_prev ::
  "(nat \<Rightarrow> nat option) \<Rightarrow> nat \<Rightarrow> nat option \<Rightarrow> nat option \<Rightarrow> nat option option option" where
  "find_prev nx p prev cur =
     (if cur = None then Some None
      else if cur = Some p then Some (Some prev)
      else find_prev nx p cur (nx (the cur)))"

definition dequeue_specific :: "nat \<Rightarrow> ('z kern_scheme, unit) km" where
  "dequeue_specific p = bind (gets (\<lambda>s. queue_level (procs s p))) (\<lambda>level.
     bind (fault_if (\<lambda>_. \<not> level_ok level) ''runqueues'') (\<lambda>_.
     bind (gets (\<lambda>s. find_prev (\<lambda>q. queue_next (procs s q)) p None (head (runqueues s (nat level))))) (\<lambda>r.
       case r of
         None \<Rightarrow> spin ''dequeue_specific''
       | Some None \<Rightarrow> skip
       | Some (Some prev) \<Rightarrow> block [
           (case prev of
              None \<Rightarrow> modify (\<lambda>s. upd_rq (nat level) (\<lambda>q. q\<lparr>head := queue_next (procs s p)\<rparr>) s)
            | Some a \<Rightarrow> modify (\<lambda>s. upd_proc a (\<lambda>r. r\<lparr>queue_next := queue_next (procs s p)\<rparr>) s)),
           ifm (\<lambda>s. queue_next (procs s p) = None)
             (modify (upd_rq (nat level) (\<lambda>q. q\<lparr>tail := prev\<rparr>))) skip,
           modify (upd_proc p (\<lambda>r. r\<lparr>queue_next := None\<rparr>))])))"

definition demote_process :: "nat \<Rightarrow> ('z kern_scheme, unit) km" where
  "demote_process p =
     ifm (\<lambda>s. queue_level (procs s p) < int MLFQ_LEVELS - 1)
       (block [
         dequeue_specific p,
         modify (upd_proc p (\<lambda>r. r\<lparr>queue_level := queue_level r + 1\<rparr>)),
         modify (upd_proc p (\<lambda>r. r\<lparr>time_in_queue := 0\<rparr>)),
         acquire StatsLock,
         modify (upd_stats (\<lambda>st. st\<lparr>total_demotions := total_demotions st + 1\<rparr>)),
         release StatsLock,
         enqueue p])
       skip"

section \<open>Queues as lists\<close>

text \<open>\<open>rq_rep s l ps\<close>: queue \<open>l\<close> holds the processes \<open>ps\<close>, first in first out.\<close>

definition nextp :: "('z) kern_scheme \<Rightarrow> nat \<Rightarrow> nat option" where
  "nextp s = (\<lambda>p. queue_next (procs s p))"

definition rq_rep :: "('z) kern_scheme \<Rightarrow> nat \<Rightarrow> nat list \<Rightarrow> bool" where
  "rq_rep s l ps \<longleftrightarrow> chain (nextp s) (head (runqueues s l)) ps \<and>
     tail (runqueues s l) = (if ps = [] then None else Some (last ps))"

text \<open>All the queues at once: no process is in two of them.\<close>

definition rqs_rep :: "('z) kern_scheme \<Rightarrow> (nat \<Rightarrow> nat list) \<Rightarrow> bool" where
  "rqs_rep s qs \<longleftrightarrow> (\<forall>l < MLFQ_LEVELS. rq_rep s l (qs l)) \<and>
     (\<forall>l < MLFQ_LEVELS. \<forall>k < MLFQ_LEVELS. l \<noteq> k \<longrightarrow> set (qs l) \<inter> set (qs k) = {})"

definition queued :: "(nat \<Rightarrow> nat list) \<Rightarrow> nat set" where
  "queued qs = (\<Union>l < MLFQ_LEVELS. set (qs l))"

lemma upd_proc_sels [simp]:
  "procs (upd_proc p f s) = (procs s)(p := f (procs s p))" "runqueues (upd_proc p f s) = runqueues s"
  "tp (upd_proc p f s) = tp s" "cpus (upd_proc p f s) = cpus s" "locks (upd_proc p f s) = locks s"
  "initproc (upd_proc p f s) = initproc s" "nextpid (upd_proc p f s) = nextpid s"
  "ticks_since_boost (upd_proc p f s) = ticks_since_boost s"
  "scheduler_stats (upd_proc p f s) = scheduler_stats s"
  "scheduler_cycle_count (upd_proc p f s) = scheduler_cycle_count s" "ticks (upd_proc p f s) = ticks s"
  by (simp_all add: upd_proc_def)

lemma upd_rq_sels [simp]:
  "procs (upd_rq l f s) = procs s" "runqueues (upd_rq l f s) = (runqueues s)(l := f (runqueues s l))"
  "tp (upd_rq l f s) = tp s" "cpus (upd_rq l f s) = cpus s" "locks (upd_rq l f s) = locks s"
  "initproc (upd_rq l f s) = initproc s" "nextpid (upd_rq l f s) = nextpid s"
  "ticks_since_boost (upd_rq l f s) = ticks_since_boost s"
  "scheduler_stats (upd_rq l f s) = scheduler_stats s"
  "scheduler_cycle_count (upd_rq l f s) = scheduler_cycle_count s" "ticks (upd_rq l f s) = ticks s"
  by (simp_all add: upd_rq_def)

lemma upd_stats_sels [simp]:
  "procs (upd_stats f s) = procs s" "runqueues (upd_stats f s) = runqueues s"
  "tp (upd_stats f s) = tp s" "cpus (upd_stats f s) = cpus s" "locks (upd_stats f s) = locks s"
  "initproc (upd_stats f s) = initproc s" "nextpid (upd_stats f s) = nextpid s"
  "ticks_since_boost (upd_stats f s) = ticks_since_boost s"
  "scheduler_stats (upd_stats f s) = f (scheduler_stats s)"
  "scheduler_cycle_count (upd_stats f s) = scheduler_cycle_count s" "ticks (upd_stats f s) = ticks s"
  by (simp_all add: upd_stats_def)

text \<open>What the queue operations cannot touch: everything but the links and the queue heads.\<close>

definition forget_queues :: "('z) kern_scheme \<Rightarrow> ('z) kern_scheme" where
  "forget_queues s = s\<lparr>procs := (\<lambda>p. (procs s p)\<lparr>queue_next := None\<rparr>),
     runqueues := (\<lambda>_. \<lparr>head = None, tail = None\<rparr>)\<rparr>"

lemma forget_queues_upd [simp]:
  "forget_queues (upd_rq l f s) = forget_queues s"
  "forget_queues (upd_proc p (\<lambda>r. r\<lparr>queue_next := v\<rparr>) s) = forget_queues s"
  by (simp_all add: forget_queues_def upd_rq_def upd_proc_def fun_eq_iff)

lemma forget_queues_sels:
  assumes "forget_queues t = forget_queues s"
  shows "tp t = tp s" "cpus t = cpus s" "locks t = locks s" "initproc t = initproc s" "nextpid t = nextpid s"
    "ticks_since_boost t = ticks_since_boost s" "scheduler_stats t = scheduler_stats s"
    "scheduler_cycle_count t = scheduler_cycle_count s" "ticks t = ticks s"
    "(procs t p)\<lparr>queue_next := None\<rparr> = (procs s p)\<lparr>queue_next := None\<rparr>"
proof -
  show "tp t = tp s" "cpus t = cpus s" "locks t = locks s" "initproc t = initproc s" "nextpid t = nextpid s"
    "ticks_since_boost t = ticks_since_boost s" "scheduler_stats t = scheduler_stats s"
    "scheduler_cycle_count t = scheduler_cycle_count s" "ticks t = ticks s"
    "(procs t p)\<lparr>queue_next := None\<rparr> = (procs s p)\<lparr>queue_next := None\<rparr>"
    using arg_cong [OF assms, of tp] arg_cong [OF assms, of cpus] arg_cong [OF assms, of locks]
      arg_cong [OF assms, of initproc] arg_cong [OF assms, of nextpid]
      arg_cong [OF assms, of ticks_since_boost] arg_cong [OF assms, of scheduler_stats]
      arg_cong [OF assms, of scheduler_cycle_count] arg_cong [OF assms, of ticks]
      arg_cong [OF assms, of "\<lambda>x. procs x p"]
    by (simp_all add: forget_queues_def)
qed

lemma forget_queues_proc:
  assumes "forget_queues t = forget_queues s"
  shows "state (procs t p) = state (procs s p)" "queue_level (procs t p) = queue_level (procs s p)"
    "time_in_queue (procs t p) = time_in_queue (procs s p)" "chan (procs t p) = chan (procs s p)"
    "pid (procs t p) = pid (procs s p)" "p_killed (procs t p) = p_killed (procs s p)"
    "parent (procs t p) = parent (procs s p)"
proof -
  note e = forget_queues_sels(10) [OF assms, of p]
  show "state (procs t p) = state (procs s p)" "queue_level (procs t p) = queue_level (procs s p)"
    "time_in_queue (procs t p) = time_in_queue (procs s p)" "chan (procs t p) = chan (procs s p)"
    "pid (procs t p) = pid (procs s p)" "p_killed (procs t p) = p_killed (procs s p)"
    "parent (procs t p) = parent (procs s p)"
    using arg_cong [OF e, of state] arg_cong [OF e, of queue_level] arg_cong [OF e, of time_in_queue]
      arg_cong [OF e, of chan] arg_cong [OF e, of pid] arg_cong [OF e, of p_killed] arg_cong [OF e, of parent]
    by simp_all
qed

lemma enqueue_rq:
  assumes "rq_rep s (nat l) ps" and "l = queue_level (procs s p)" and "level_ok l" and "p \<notin> set ps"
  shows "\<exists>t. enqueue p s = Ok () t \<and> rq_rep t (nat l) (ps @ [p]) \<and> forget_queues t = forget_queues s \<and>
    (\<forall>k. k \<noteq> nat l \<longrightarrow> runqueues t k = runqueues s k) \<and>
    (\<forall>q. q \<notin> set ps \<longrightarrow> q \<noteq> p \<longrightarrow> nextp t q = nextp s q)"
proof (cases ps rule: rev_cases)
  case Nil
  with assms show ?thesis by (auto simp: enqueue_def rq_rep_def nextp_def)
next
  case (snoc qs a)
  with assms(1) have c: "chain (nextp s) (head (runqueues s (nat l))) (qs @ [a])"
    and tl: "tail (runqueues s (nat l)) = Some a"
    by (simp_all add: rq_rep_def)
  let ?t = "upd_proc p (\<lambda>r. r\<lparr>queue_next := None\<rparr>) (upd_rq (nat l) (\<lambda>q. q\<lparr>tail := Some p\<rparr>)
      (upd_proc a (\<lambda>r. r\<lparr>queue_next := Some p\<rparr>) s))"
  have run: "enqueue p s = Ok () ?t" using assms(2,3) tl by (simp add: enqueue_def)
  have "nextp ?t = (nextp s)(a := Some p, p := None)" by (auto simp: nextp_def)
  with chain_snoc [OF c] assms(4) snoc have "rq_rep ?t (nat l) (ps @ [p])" by (simp add: rq_rep_def)
  with run snoc show ?thesis by (auto simp: nextp_def)
qed

lemma dequeue_empty:
  "rq_rep s (nat l) [] \<Longrightarrow> level_ok l \<Longrightarrow> dequeue l s = Ok None s"
  by (simp add: dequeue_def rq_rep_def)

lemma dequeue_rq:
  assumes "rq_rep s (nat l) (p # ps)" and "level_ok l"
  shows "\<exists>t. dequeue l s = Ok (Some p) t \<and> rq_rep t (nat l) ps \<and> forget_queues t = forget_queues s \<and>
    (\<forall>k. k \<noteq> nat l \<longrightarrow> runqueues t k = runqueues s k) \<and> (\<forall>q. q \<noteq> p \<longrightarrow> nextp t q = nextp s q)"
proof -
  from assms(1) have h: "head (runqueues s (nat l)) = Some p" and c: "chain (nextp s) (nextp s p) ps"
    and tl: "tail (runqueues s (nat l)) = (if ps = [] then Some p else Some (last ps))"
    by (auto simp: rq_rep_def)
  have fresh: "p \<notin> set ps" using chain_distinct [of "nextp s" _ "p # ps"] assms(1) by (auto simp: rq_rep_def)
  let ?u = "upd_rq (nat l) (\<lambda>q. q\<lparr>head := queue_next (procs s p)\<rparr>) s"
  let ?t = "upd_proc p (\<lambda>r. r\<lparr>queue_next := None\<rparr>)
     (if queue_next (procs s p) = None then upd_rq (nat l) (\<lambda>q. q\<lparr>tail := None\<rparr>) ?u else ?u)"
  have run: "dequeue l s = Ok (Some p) ?t" using assms(2) h by (simp add: dequeue_def)
  have "nextp ?t = (nextp s)(p := None)" by (auto simp: nextp_def)
  with c tl fresh have "rq_rep ?t (nat l) ps" by (cases ps) (auto simp: rq_rep_def nextp_def)
  with run show ?thesis by (auto simp: nextp_def)
qed


lemma find_prev_absent:
  "chain nx cur ps \<Longrightarrow> p \<notin> set ps \<Longrightarrow> find_prev nx p prev cur = Some None"
proof (induction ps arbitrary: prev cur)
  case Nil
  then show ?case by (simp add: find_prev.simps)
next
  case (Cons a ps)
  then show ?case by (subst find_prev.simps) auto
qed

lemma find_prev_found:
  "chain nx cur (xs @ p # ys) \<Longrightarrow> p \<notin> set xs \<Longrightarrow>
    find_prev nx p prev cur = Some (Some (if xs = [] then prev else Some (last xs)))"
proof (induction xs arbitrary: prev cur)
  case Nil
  then show ?case by (simp add: find_prev.simps)
next
  case (Cons a xs)
  then show ?case by (subst find_prev.simps) auto
qed

lemma dequeue_specific_absent:
  assumes "rq_rep s (nat (queue_level (procs s p))) ps" and "level_ok (queue_level (procs s p))" and "p \<notin> set ps"
  shows "dequeue_specific p s = Ok () s"
proof -
  from assms have "chain (nextp s) (head (runqueues s (nat (queue_level (procs s p))))) ps"
    by (simp add: rq_rep_def)
  from find_prev_absent [OF this assms(3)] assms(2) show ?thesis
    by (simp add: dequeue_specific_def nextp_def)
qed

lemma dequeue_specific_rq:
  assumes rep: "rq_rep s (nat l) (xs @ p # ys)" and l: "l = queue_level (procs s p)" and ok: "level_ok l"
  shows "\<exists>t. dequeue_specific p s = Ok () t \<and> rq_rep t (nat l) (xs @ ys) \<and> forget_queues t = forget_queues s \<and>
    (\<forall>k. k \<noteq> nat l \<longrightarrow> runqueues t k = runqueues s k) \<and>
    (\<forall>q. q \<notin> set (xs @ p # ys) \<longrightarrow> nextp t q = nextp s q)"
proof -
  from rep have c: "chain (nextp s) (head (runqueues s (nat l))) (xs @ p # ys)"
    and tl: "tail (runqueues s (nat l)) = Some (last (p # ys))"
    by (auto simp: rq_rep_def)
  have dist: "distinct (xs @ p # ys)" by (rule chain_distinct [OF c])
  have cp: "chain (nextp s) (nextp s p) ys" using chain_suffix [OF c] by simp
  have found: "find_prev (nextp s) p None (head (runqueues s (nat l))) =
      Some (Some (if xs = [] then None else Some (last xs)))"
    using find_prev_found [OF c] dist by simp
  show ?thesis
  proof (cases xs rule: rev_cases)
    case Nil
    let ?u = "upd_rq (nat l) (\<lambda>q. q\<lparr>head := queue_next (procs s p)\<rparr>) s"
    let ?t = "upd_proc p (\<lambda>r. r\<lparr>queue_next := None\<rparr>)
       (if queue_next (procs s p) = None then upd_rq (nat l) (\<lambda>q. q\<lparr>tail := None\<rparr>) ?u else ?u)"
    have run: "dequeue_specific p s = Ok () ?t"
      using l ok found Nil by (simp add: dequeue_specific_def nextp_def)
    have "nextp ?t = (nextp s)(p := None)" by (auto simp: nextp_def)
    with cp tl dist Nil have "rq_rep ?t (nat l) (xs @ ys)" by (cases ys) (auto simp: rq_rep_def nextp_def)
    with run show ?thesis by (auto simp: nextp_def)
  next
    case (snoc zs a)
    let ?u = "upd_proc a (\<lambda>r. r\<lparr>queue_next := queue_next (procs s p)\<rparr>) s"
    let ?t = "upd_proc p (\<lambda>r. r\<lparr>queue_next := None\<rparr>)
       (if queue_next (procs s p) = None then upd_rq (nat l) (\<lambda>q. q\<lparr>tail := Some a\<rparr>) ?u else ?u)"
    have ap: "a \<noteq> p" using dist snoc by auto
    have run: "dequeue_specific p s = Ok () ?t"
      using l ok found snoc ap by (simp add: dequeue_specific_def nextp_def)
    have "nextp ?t = (nextp s)(a := nextp s p, p := None)" using ap by (auto simp: nextp_def)
    moreover have "chain ((nextp s)(a := nextp s p, p := None)) (head (runqueues s (nat l))) (zs @ a # ys)"
      by (rule chain_unlink) (use c snoc in simp)
    moreover have "nextp s p = None \<longleftrightarrow> ys = []" using cp by (cases ys) auto
    moreover have "queue_next (procs s p) = nextp s p" by (simp add: nextp_def)
    ultimately have "rq_rep ?t (nat l) (xs @ ys)" using tl snoc unfolding rq_rep_def by (cases "ys = []") auto
    with run snoc show ?thesis by (auto simp: nextp_def)
  qed
qed

section \<open>The queues together\<close>

lemma nat_level: "level_ok l \<Longrightarrow> nat l < MLFQ_LEVELS"
  by (auto simp: level_ok_def)

lemma rq_rep_frame:
  assumes "rq_rep s k ps" and "runqueues t k = runqueues s k" and "\<And>q. q \<in> set ps \<Longrightarrow> nextp t q = nextp s q"
  shows "rq_rep t k ps"
  using assms chain_cong [of ps "nextp t" "nextp s" "head (runqueues s k)"] by (simp add: rq_rep_def)

lemma rqs_rep_update:
  assumes rep: "rqs_rep s qs" and k: "k < MLFQ_LEVELS" and new: "rq_rep t k ps"
    and rq: "\<And>j. j \<noteq> k \<Longrightarrow> runqueues t j = runqueues s j"
    and nx: "\<And>j q. j < MLFQ_LEVELS \<Longrightarrow> j \<noteq> k \<Longrightarrow> q \<in> set (qs j) \<Longrightarrow> nextp t q = nextp s q"
    and dis: "\<And>j. j < MLFQ_LEVELS \<Longrightarrow> j \<noteq> k \<Longrightarrow> set ps \<inter> set (qs j) = {}"
  shows "rqs_rep t (qs(k := ps))"
proof -
  have "rq_rep t j ((qs(k := ps)) j)" if "j < MLFQ_LEVELS" for j
  proof (cases "j = k")
    case True with new show ?thesis by simp
  next
    case False
    have "rq_rep t j (qs j)"
      by (rule rq_rep_frame [of s]) (use rep that False rq nx in \<open>auto simp: rqs_rep_def\<close>)
    with False show ?thesis by simp
  qed
  moreover have "set ((qs(k := ps)) j) \<inter> set ((qs(k := ps)) i) = {}"
    if "j < MLFQ_LEVELS" "i < MLFQ_LEVELS" "j \<noteq> i" for i j
    using rep that dis [of i] dis [of j] by (auto simp: rqs_rep_def)
  ultimately show ?thesis by (simp add: rqs_rep_def)
qed

lemma rqs_repD:
  "rqs_rep s qs \<Longrightarrow> l < MLFQ_LEVELS \<Longrightarrow> rq_rep s l (qs l)"
  "rqs_rep s qs \<Longrightarrow> l < MLFQ_LEVELS \<Longrightarrow> k < MLFQ_LEVELS \<Longrightarrow> l \<noteq> k \<Longrightarrow> set (qs l) \<inter> set (qs k) = {}"
  by (auto simp: rqs_rep_def)

lemma enqueue_rqs:
  assumes rep: "rqs_rep s qs" and ok: "level_ok (queue_level (procs s p))" and fresh: "p \<notin> queued qs"
  defines "k \<equiv> nat (queue_level (procs s p))"
  shows "\<exists>t. enqueue p s = Ok () t \<and> rqs_rep t (qs(k := qs k @ [p])) \<and> forget_queues t = forget_queues s"
proof -
  have k: "k < MLFQ_LEVELS" unfolding k_def by (rule nat_level [OF ok])
  with fresh have pk: "p \<notin> set (qs j)" if "j < MLFQ_LEVELS" for j using that by (auto simp: queued_def)
  from enqueue_rq [of s "queue_level (procs s p)" "qs k" p] rqs_repD(1) [OF rep k] ok pk [OF k]
  obtain t where run: "enqueue p s = Ok () t" and new: "rq_rep t k (qs k @ [p])"
    and fr: "forget_queues t = forget_queues s" and rq: "\<And>j. j \<noteq> k \<Longrightarrow> runqueues t j = runqueues s j"
    and nx: "\<And>q. q \<notin> set (qs k) \<Longrightarrow> q \<noteq> p \<Longrightarrow> nextp t q = nextp s q"
    unfolding k_def by blast
  have "rqs_rep t (qs(k := qs k @ [p]))"
    by (rule rqs_rep_update [OF rep k new rq])
      (use nx pk rqs_repD(2) [OF rep k] in \<open>fastforce+\<close>)
  with run fr show ?thesis by blast
qed

lemma dequeue_rqs:
  assumes rep: "rqs_rep s qs" and ok: "level_ok l" and q: "qs (nat l) = p # ps"
  shows "\<exists>t. dequeue l s = Ok (Some p) t \<and> rqs_rep t (qs(nat l := ps)) \<and> forget_queues t = forget_queues s"
proof -
  note k = nat_level [OF ok]
  from dequeue_rq [of s l p ps] rqs_repD(1) [OF rep k] q ok
  obtain t where run: "dequeue l s = Ok (Some p) t" and new: "rq_rep t (nat l) ps"
    and fr: "forget_queues t = forget_queues s" and rq: "\<And>j. j \<noteq> nat l \<Longrightarrow> runqueues t j = runqueues s j"
    and nx: "\<And>q. q \<noteq> p \<Longrightarrow> nextp t q = nextp s q"
    by auto
  have "rqs_rep t (qs(nat l := ps))"
  proof (rule rqs_rep_update [OF rep k new rq])
    fix j r assume j: "j < MLFQ_LEVELS" "j \<noteq> nat l"
    from rqs_repD(2) [OF rep k j(1)] j q have dis: "set (p # ps) \<inter> set (qs j) = {}" by auto
    show "set ps \<inter> set (qs j) = {}" using dis by auto
    show "nextp t r = nextp s r" if "r \<in> set (qs j)" using nx [of r] dis that by auto
  qed
  with run fr show ?thesis by blast
qed

lemma dequeue_specific_rqs:
  assumes rep: "rqs_rep s qs" and ok: "level_ok (queue_level (procs s p))"
    and q: "qs (nat (queue_level (procs s p))) = xs @ p # ys"
  defines "k \<equiv> nat (queue_level (procs s p))"
  shows "\<exists>t. dequeue_specific p s = Ok () t \<and> rqs_rep t (qs(k := xs @ ys)) \<and> forget_queues t = forget_queues s"
proof -
  have k: "k < MLFQ_LEVELS" unfolding k_def by (rule nat_level [OF ok])
  from dequeue_specific_rq [of s "queue_level (procs s p)" xs p ys] rqs_repD(1) [OF rep k] q ok
  obtain t where run: "dequeue_specific p s = Ok () t" and new: "rq_rep t k (xs @ ys)"
    and fr: "forget_queues t = forget_queues s" and rq: "\<And>j. j \<noteq> k \<Longrightarrow> runqueues t j = runqueues s j"
    and nx: "\<And>q. q \<notin> set (xs @ p # ys) \<Longrightarrow> nextp t q = nextp s q"
    unfolding k_def by auto
  have "rqs_rep t (qs(k := xs @ ys))"
  proof (rule rqs_rep_update [OF rep k new rq])
    fix j r assume j: "j < MLFQ_LEVELS" "j \<noteq> k"
    from rqs_repD(2) [OF rep k j(1)] j q have dis: "set (xs @ p # ys) \<inter> set (qs j) = {}" by (auto simp: k_def)
    show "set (xs @ ys) \<inter> set (qs j) = {}" using dis by auto
    show "nextp t r = nextp s r" if "r \<in> set (qs j)" using nx [of r] dis that by auto
  qed
  with run fr show ?thesis by blast
qed

section \<open>The interface of the run queues\<close>

text \<open>
  What the scheduler relies on: queues indexed by level, that represent lists and are first in
  first out, and operations that change nothing else (\<open>rest\<close>).
\<close>

primrec drain :: "(int \<Rightarrow> ('s, nat option) km) \<Rightarrow> int \<Rightarrow> nat \<Rightarrow> ('s, nat option list) km" where
  "drain deq l 0 = return []"
| "drain deq l (Suc n) = bind (deq l) (\<lambda>x. bind (drain deq l n) (\<lambda>xs. return (x # xs)))"

locale ready_queues =
  fixes repr :: "'s \<Rightarrow> (nat \<Rightarrow> nat list) \<Rightarrow> bool"
    and level :: "'s \<Rightarrow> nat \<Rightarrow> int"
    and rest :: "'s \<Rightarrow> 'r"
    and enq :: "nat \<Rightarrow> ('s, unit) km"
    and deq :: "int \<Rightarrow> ('s, nat option) km"
  assumes enq_spec: "repr s qs \<Longrightarrow> level_ok (level s p) \<Longrightarrow> p \<notin> queued qs \<Longrightarrow>
      \<exists>t. enq p s = Ok () t \<and> repr t (qs(nat (level s p) := qs (nat (level s p)) @ [p])) \<and> rest t = rest s"
    and deq_empty: "repr s qs \<Longrightarrow> level_ok l \<Longrightarrow> qs (nat l) = [] \<Longrightarrow> deq l s = Ok None s"
    and deq_cons: "repr s qs \<Longrightarrow> level_ok l \<Longrightarrow> qs (nat l) = p # ps \<Longrightarrow>
      \<exists>t. deq l s = Ok (Some p) t \<and> repr t (qs(nat l := ps)) \<and> rest t = rest s"
    and level_rest: "rest t = rest s \<Longrightarrow> level t = level s"
begin

lemma enq_all:
  assumes "repr s qs" and "level_ok l" and "\<And>p. p \<in> set ps \<Longrightarrow> level s p = l"
    and "distinct ps" and "set ps \<inter> queued qs = {}"
  shows "\<exists>t. for_each ps enq s = Ok () t \<and> repr t (qs(nat l := qs (nat l) @ ps)) \<and> rest t = rest s"
  using assms
proof (induction ps arbitrary: s qs)
  case Nil
  then show ?case by simp
next
  case (Cons p ps)
  from Cons.prems have "level s p = l" "p \<notin> queued qs" by auto
  with enq_spec [of s qs p] Cons.prems obtain u where
    u: "enq p s = Ok () u" "repr u (qs(nat l := qs (nat l) @ [p]))" "rest u = rest s" by auto
  let ?qs = "qs(nat l := qs (nat l) @ [p])"
  have "queued ?qs \<subseteq> insert p (queued qs)" by (auto simp: queued_def split: if_splits)
  with Cons.prems have dis: "set ps \<inter> queued ?qs = {}" by auto
  from u level_rest [OF u(3)] Cons.prems(3) have lv: "\<And>q. q \<in> set ps \<Longrightarrow> level u q = l" by simp
  from Cons.prems(4) have "distinct ps" by simp
  from Cons.IH [OF u(2) Cons.prems(2) lv this dis, unfolded fun_upd_upd fun_upd_same append_assoc] obtain t where
    t: "for_each ps enq u = Ok () t" "repr t (qs(nat l := qs (nat l) @ [p] @ ps))" "rest t = rest u" by blast
  with u(1,3) have "for_each (p # ps) enq s = Ok () t" "rest t = rest s" by simp_all
  with t(2) [unfolded append_Cons append_Nil] show ?case by blast
qed

lemma drain_fifo:
  assumes "repr s qs" and "level_ok l" and "qs (nat l) = ps @ rs"
  shows "\<exists>t. drain deq l (length ps) s = Ok (map Some ps) t \<and> repr t (qs(nat l := rs)) \<and> rest t = rest s"
  using assms
proof (induction ps arbitrary: s qs)
  case Nil
  then show ?case by (auto simp: fun_upd_idem)
next
  case (Cons p ps)
  from deq_cons [of s qs l p "ps @ rs"] Cons.prems obtain u where
    u: "deq l s = Ok (Some p) u" "repr u (qs(nat l := ps @ rs))" "rest u = rest s" by auto
  from Cons.IH [OF u(2) Cons.prems(2) fun_upd_same, unfolded fun_upd_upd] obtain t where
    t: "drain deq l (length ps) u = Ok (map Some ps) t" "repr t (qs(nat l := rs))" "rest t = rest u" by blast
  with u(1,3) have "drain deq l (length (p # ps)) s = Ok (map Some (p # ps)) t" "rest t = rest s" by simp_all
  with t(2) show ?case by blast
qed

text \<open>What is enqueued on an empty level comes out in the same order.\<close>

lemma enq_drain_roundtrip:
  assumes "repr s qs" and "level_ok l" and "qs (nat l) = []" and "\<And>p. p \<in> set ps \<Longrightarrow> level s p = l"
    and "distinct ps" and "set ps \<inter> queued qs = {}"
  shows "\<exists>t. bind (for_each ps enq) (\<lambda>_. drain deq l (length ps)) s = Ok (map Some ps) t \<and> repr t qs \<and> rest t = rest s"
proof -
  from enq_all [OF assms(1,2,4,5,6)] assms(3) obtain u where
    u: "for_each ps enq s = Ok () u" "repr u (qs(nat l := ps))" "rest u = rest s" by auto
  from drain_fifo [OF u(2) assms(2), of ps "[]"] obtain t where
    "drain deq l (length ps) u = Ok (map Some ps) t" "repr t ((qs(nat l := ps))(nat l := []))" "rest t = rest u" by auto
  moreover have "(qs(nat l := ps))(nat l := []) = qs" using assms(3) by (auto simp: fun_eq_iff)
  ultimately show ?thesis using u by auto
qed

end

interpretation rq: ready_queues rqs_rep "\<lambda>s p. queue_level (procs s p)" forget_queues enqueue dequeue
proof unfold_locales
  show "\<exists>t. enqueue p s = Ok () t \<and>
      rqs_rep t (qs(nat (queue_level (procs s p)) := qs (nat (queue_level (procs s p))) @ [p])) \<and>
      forget_queues t = forget_queues s"
    if "rqs_rep s qs" "level_ok (queue_level (procs s p))" "p \<notin> queued qs" for s :: "'a kern_scheme" and qs p
    using enqueue_rqs that by blast
  show "dequeue l s = Ok None s" if "rqs_rep s qs" "level_ok l" "qs (nat l) = []"
    for s :: "'a kern_scheme" and qs l
    using dequeue_empty rqs_repD(1) [OF that(1) nat_level [OF that(2)]] that by metis
  show "\<exists>t. dequeue l s = Ok (Some p) t \<and> rqs_rep t (qs(nat l := ps)) \<and> forget_queues t = forget_queues s"
    if "rqs_rep s qs" "level_ok l" "qs (nat l) = p # ps" for s :: "'a kern_scheme" and qs l p ps
    using dequeue_rqs that by blast
  show "(\<lambda>p. queue_level (procs t p)) = (\<lambda>p. queue_level (procs s p))"
    if "forget_queues t = forget_queues s" for s t :: "'a kern_scheme"
    using forget_queues_proc(2) [OF that] by blast
qed

section \<open>The queues in use\<close>

text \<open>A state with processes 3 and 5 in queue 1 and process 7 in queue 2.\<close>

definition three_ready :: kern where
  "three_ready = zero_sched\<lparr>
     procs := (\<lambda>_. zero_proc)(
       3 := zero_proc\<lparr>state := RUNNABLE, queue_level := 1, queue_next := Some 5\<rparr>,
       5 := zero_proc\<lparr>state := RUNNABLE, queue_level := 1\<rparr>,
       7 := zero_proc\<lparr>state := RUNNABLE, queue_level := 2\<rparr>),
     runqueues := (\<lambda>_. \<lparr>head = None, tail = None\<rparr>)(
       1 := \<lparr>head = Some 3, tail = Some 5\<rparr>, 2 := \<lparr>head = Some 7, tail = Some 7\<rparr>)\<rparr>"

definition three_queues :: "nat \<Rightarrow> nat list" where
  "three_queues = (\<lambda>_. [])(1 := [3, 5], 2 := [7])"

lemma three_ready_sels [simp]:
  "queue_level (procs three_ready p) = (if p = 3 \<or> p = 5 then 1 else if p = 7 then 2 else 0)"
  "state (procs three_ready p) = (if p = 3 \<or> p = 5 \<or> p = 7 then RUNNABLE else UNUSED)"
  "noff (this_cpu three_ready) = 0" "lock_free l three_ready" "ticks_since_boost three_ready = 0" "irq_wf three_ready"
  by (simp_all add: three_ready_def zero_sched_def zero_proc_def lock_free_def irq_wf_def)

lemma three_ready_rep: "rqs_rep three_ready three_queues"
  by (auto simp: rqs_rep_def rq_rep_def three_ready_def zero_sched_def zero_proc_def three_queues_def nextp_def
      MLFQ_LEVELS_def)

lemma three_queues_sels [simp]:
  "three_queues 0 = []" "three_queues (Suc 0) = [3, 5]" "three_queues 2 = [7]" "three_queues 3 = []"
  by (simp_all add: three_queues_def)

lemma queued_three [simp]: "queued three_queues = {3, 5, 7}"
proof -
  have "{..<4} = {0, 1, 2, 3::nat}" by auto
  then show ?thesis by (auto simp: queued_def three_queues_def MLFQ_LEVELS_def)
qed

text \<open>
  C5. Processes enqueued one after the other on an empty level are handed out by \<^verbatim>\<open>dequeue\<close> in the
  order in which they were enqueued; the other levels, and every field of the kernel state but the
  queue links and heads, are as before.
\<close>

theorem enqueue_dequeue_fifo:
  assumes "rqs_rep s qs" and "level_ok l" and "qs (nat l) = []" and "\<And>p. p \<in> set ps \<Longrightarrow> queue_level (procs s p) = l"
    and "distinct ps" and "set ps \<inter> queued qs = {}"
  shows "\<exists>t. bind (for_each ps enqueue) (\<lambda>_. drain dequeue l (length ps)) s = Ok (map Some ps) t \<and>
    rqs_rep t qs \<and> forget_queues t = forget_queues s"
  by (rule rq.enq_drain_roundtrip) (use assms in auto)

theorem enqueue_dequeue_fifo_witness:
  "\<exists>t. bind (for_each [9, 4, 8] enqueue) (\<lambda>_. drain dequeue 0 (length [9, 4, 8 :: nat])) three_ready =
      Ok (map Some [9, 4, 8]) t \<and>
    rqs_rep t three_queues \<and> forget_queues t = forget_queues three_ready"
  by (rule enqueue_dequeue_fifo [OF three_ready_rep]) (auto simp: level_ok_def MLFQ_LEVELS_def)

text \<open>
  C6. \<^verbatim>\<open>dequeue_specific\<close> terminates on a well-formed queue wherever the process stands in it, and
  removes exactly that process: the other levels and the order of the remaining processes are kept.
\<close>

theorem dequeue_specific_removes:
  assumes "rqs_rep s qs" and "level_ok (queue_level (procs s p))"
    and "qs (nat (queue_level (procs s p))) = xs @ p # ys"
  shows "\<exists>t. dequeue_specific p s = Ok () t \<and>
    rqs_rep t (qs(nat (queue_level (procs s p)) := xs @ ys)) \<and> forget_queues t = forget_queues s"
  by (rule dequeue_specific_rqs [OF assms])

theorem dequeue_specific_removes_witness:
  "\<exists>t. dequeue_specific 5 three_ready = Ok () t \<and> rqs_rep t (three_queues(1 := [3]))"
  using dequeue_specific_removes [OF three_ready_rep, of 5 "[3]" "[]"]
  by (auto simp: level_ok_def MLFQ_LEVELS_def)

text \<open>
  C9. Enqueueing a process that is already in its queue cuts off everything behind it: the queue
  ends with that process, and the ones that followed it are in no queue any more. No lock protects
  the queues against this (\<^verbatim>\<open>mlfq_lock\<close> is initialised and never acquired).
\<close>

theorem enqueue_twice_drops:
  assumes "rq_rep s (nat (queue_level (procs s p))) (xs @ p # ys)" and "level_ok (queue_level (procs s p))"
  shows "\<exists>t. enqueue p s = Ok () t \<and> rq_rep t (nat (queue_level (procs s p))) (xs @ [p])"
proof -
  let ?l = "nat (queue_level (procs s p))" and ?z = "last (p # ys)"
  let ?nx = "(nextp s)(?z := Some p, p := None)"
  from assms(1) have ch: "chain (nextp s) (head (runqueues s ?l)) (xs @ p # ys)"
    and tl: "tail (runqueues s ?l) = Some ?z" by (simp_all add: rq_rep_def)
  let ?t = "upd_proc p (\<lambda>r. r\<lparr>queue_next := None\<rparr>) (upd_rq ?l (\<lambda>q. q\<lparr>tail := Some p\<rparr>)
      (upd_proc ?z (\<lambda>r. r\<lparr>queue_next := Some p\<rparr>) s))"
  have "nextp ?t = ?nx" by (auto simp: nextp_def fun_eq_iff)
  with chain_cut [OF ch refl] have "rq_rep ?t ?l (xs @ [p])" by (simp add: rq_rep_def)
  moreover have "enqueue p s = Ok () ?t" using assms(2) tl by (simp add: enqueue_def)
  ultimately show ?thesis by blast
qed

theorem enqueue_twice_drops_witness:
  "\<exists>t. enqueue 3 three_ready = Ok () t \<and> rq_rep t 1 [3]"
  using enqueue_twice_drops [of three_ready 3 "[]" "[5]"] rqs_repD(1) [OF three_ready_rep, of 1]
  by (simp add: level_ok_def MLFQ_LEVELS_def)

end
