(* ===== verification/Sched.thy ===== *)
theory Sched
  imports RunQueue
begin

text \<open>
  Sleeping, waking and the MLFQ scheduler (kernel/proc.c) with the timer interrupt that drives it
  (\<^verbatim>\<open>clockintr\<close> of kernel/trap.c).

  \<^verbatim>\<open>swtch\<close> is a control transfer: a kernel function that calls it ends there with the outcome
  \<open>Switch\<close>, and what it does after the transfer comes back is a definition of its own, named after
  the function with the suffix \<open>_rest\<close>. \<^verbatim>\<open>scheduler\<close> is given by one turn of its endless loop.
\<close>

section \<open>Giving up the CPU\<close>

definition swtch :: "('z kern_scheme, 'a) km" where
  "swtch = (\<lambda>s. Switch s)"

text \<open>\<open>with_proc f\<close> runs \<open>f\<close> on the current process; dereferencing the null process is undefined.\<close>

definition with_proc :: "(nat \<Rightarrow> ('z kern_scheme, 'a) km) \<Rightarrow> ('z kern_scheme, 'a) km" where
  "with_proc f = bind myproc (\<lambda>po. case po of None \<Rightarrow> fault ''myproc'' | Some p \<Rightarrow> f p)"

definition sched_rest :: "bool \<Rightarrow> ('z kern_scheme, unit) km" where
  "sched_rest ie = modify (upd_cpu (\<lambda>c. c\<lparr>intena := ie\<rparr>))"

definition sched :: "('z kern_scheme, unit) km" where
  "sched = with_proc (\<lambda>p. block [
     panic_if (\<lambda>s. \<not> holding (ProcLock p) s) ''sched p->lock'',
     panic_if (\<lambda>s. noff (this_cpu s) \<noteq> 1) ''sched locks'',
     panic_if (\<lambda>s. state (procs s p) = RUNNING) ''sched RUNNING'',
     panic_if intr_get ''sched interruptible'',
     bind (gets (\<lambda>s. intena (this_cpu s))) (\<lambda>ie. block [swtch, sched_rest ie])])"

definition yield_rest :: "nat \<Rightarrow> bool \<Rightarrow> ('z kern_scheme, unit) km" where
  "yield_rest p ie = block [sched_rest ie, release (ProcLock p)]"

definition yield :: "('z kern_scheme, unit) km" where
  "yield = with_proc (\<lambda>p. block [
     acquire (ProcLock p),
     modify (upd_proc p (\<lambda>r. r\<lparr>state := RUNNABLE\<rparr>)),
     sched,
     release (ProcLock p)])"

definition sleep_rest :: "nat \<Rightarrow> lock_id \<Rightarrow> bool \<Rightarrow> ('z kern_scheme, unit) km" where
  "sleep_rest p lk ie = block [
     sched_rest ie,
     modify (upd_proc p (\<lambda>r. r\<lparr>chan := None\<rparr>)),
     release (ProcLock p),
     acquire lk]"

definition sleep :: "chan \<Rightarrow> lock_id \<Rightarrow> ('z kern_scheme, unit) km" where
  "sleep ch lk = with_proc (\<lambda>p. block [
     acquire (ProcLock p),
     release lk,
     modify (upd_proc p (\<lambda>r. r\<lparr>chan := Some ch\<rparr>)),
     modify (upd_proc p (\<lambda>r. r\<lparr>state := SLEEPING\<rparr>)),
     sched,
     modify (upd_proc p (\<lambda>r. r\<lparr>chan := None\<rparr>)),
     release (ProcLock p),
     acquire lk])"

text \<open>
  \<^verbatim>\<open>sleep\<close> never returns to its caller directly: it ends in \<open>Switch\<close>. \<open>wait_on\<close> is a sleep inside a function
  that has a result; the loop around it goes on when the process is resumed.
\<close>

definition wait_on :: "chan \<Rightarrow> lock_id \<Rightarrow> ('z kern_scheme, 'a) km" where
  "wait_on ch lk = bind (sleep ch lk) (\<lambda>_. spin ''sleep'')"

section \<open>Waking up\<close>

definition wakeup_one :: "chan option \<Rightarrow> nat \<Rightarrow> ('z kern_scheme, unit) km" where
  "wakeup_one ch p = bind myproc (\<lambda>me. if Some p = me then skip else block [
     acquire (ProcLock p),
     ifm (\<lambda>s. state (procs s p) = SLEEPING \<and> chan (procs s p) = ch)
       (block [modify (upd_proc p (\<lambda>r. r\<lparr>state := RUNNABLE\<rparr>)), enqueue p])
       skip,
     release (ProcLock p)])"

definition wakeup :: "chan option \<Rightarrow> ('z kern_scheme, unit) km" where
  "wakeup ch = for_each [0..<NPROC] (wakeup_one ch)"

primrec kkill_loop :: "int \<Rightarrow> nat list \<Rightarrow> ('z kern_scheme, int) km" where
  "kkill_loop pd [] = return (-1)"
| "kkill_loop pd (p # ps) = bind (acquire (ProcLock p)) (\<lambda>_.
     ifm (\<lambda>s. pid (procs s p) = pd)
       (bind (block [
          modify (upd_proc p (\<lambda>r. r\<lparr>p_killed := True\<rparr>)),
          ifm (\<lambda>s. state (procs s p) = SLEEPING)
            (modify (upd_proc p (\<lambda>r. r\<lparr>state := RUNNABLE\<rparr>))) skip,
          release (ProcLock p)]) (\<lambda>_. return 0))
       (bind (release (ProcLock p)) (\<lambda>_. kkill_loop pd ps)))"

definition kkill :: "int \<Rightarrow> ('z kern_scheme, int) km" where
  "kkill pd = kkill_loop pd [0..<NPROC]"

definition setkilled :: "nat \<Rightarrow> ('z kern_scheme, unit) km" where
  "setkilled p = block [
     acquire (ProcLock p),
     modify (upd_proc p (\<lambda>r. r\<lparr>p_killed := True\<rparr>)),
     release (ProcLock p)]"

definition killed :: "nat \<Rightarrow> ('z kern_scheme, bool) km" where
  "killed p = bind (acquire (ProcLock p)) (\<lambda>_. bind (gets (\<lambda>s. p_killed (procs s p))) (\<lambda>k.
     bind (release (ProcLock p)) (\<lambda>_. return k)))"

section \<open>Symbolic execution\<close>

text \<open>The lock operations leave the process table and the scheduler's globals alone.\<close>

lemma upd_cpu_sched [simp]:
  "procs (upd_cpu f s) = procs s" "runqueues (upd_cpu f s) = runqueues s"
  "initproc (upd_cpu f s) = initproc s" "nextpid (upd_cpu f s) = nextpid s"
  "ticks_since_boost (upd_cpu f s) = ticks_since_boost s" "scheduler_stats (upd_cpu f s) = scheduler_stats s"
  "scheduler_cycle_count (upd_cpu f s) = scheduler_cycle_count s" "ticks (upd_cpu f s) = ticks s"
  "nextp (upd_cpu f s) = nextp s"
  by (simp_all add: upd_cpu_def nextp_def)

lemma upd_lock_sched [simp]:
  "procs (upd_lock l f s) = procs s" "runqueues (upd_lock l f s) = runqueues s"
  "initproc (upd_lock l f s) = initproc s" "nextpid (upd_lock l f s) = nextpid s"
  "ticks_since_boost (upd_lock l f s) = ticks_since_boost s" "scheduler_stats (upd_lock l f s) = scheduler_stats s"
  "scheduler_cycle_count (upd_lock l f s) = scheduler_cycle_count s" "ticks (upd_lock l f s) = ticks s"
  "nextp (upd_lock l f s) = nextp s"
  by (simp_all add: upd_lock_def nextp_def)

lemma acq_sched [simp]:
  "procs (acq l s) = procs s" "runqueues (acq l s) = runqueues s"
  "initproc (acq l s) = initproc s" "nextpid (acq l s) = nextpid s"
  "ticks_since_boost (acq l s) = ticks_since_boost s" "scheduler_stats (acq l s) = scheduler_stats s"
  "scheduler_cycle_count (acq l s) = scheduler_cycle_count s" "ticks (acq l s) = ticks s" "nextp (acq l s) = nextp s"
  by (simp_all add: acq_def)

lemma rel_sched [simp]:
  "procs (rel l s) = procs s" "runqueues (rel l s) = runqueues s"
  "initproc (rel l s) = initproc s" "nextpid (rel l s) = nextpid s"
  "ticks_since_boost (rel l s) = ticks_since_boost s" "scheduler_stats (rel l s) = scheduler_stats s"
  "scheduler_cycle_count (rel l s) = scheduler_cycle_count s" "ticks (rel l s) = ticks s" "nextp (rel l s) = nextp s"
  by (simp_all add: rel_def)

lemma settle_sched [simp]:
  "procs (settle s) = procs s" "runqueues (settle s) = runqueues s"
  "initproc (settle s) = initproc s" "nextpid (settle s) = nextpid s"
  "ticks_since_boost (settle s) = ticks_since_boost s" "scheduler_stats (settle s) = scheduler_stats s"
  "scheduler_cycle_count (settle s) = scheduler_cycle_count s" "ticks (settle s) = ticks s" "nextp (settle s) = nextp s"
  by (simp_all add: settle_def)

lemma settle_settle [simp]: "settle (settle s) = settle s"
  by (simp add: settle_def upd_cpu_def)

lemma myproc_eq [simp]: "irq_wf s \<Longrightarrow> myproc s = Ok (c_proc (this_cpu s)) (settle s)"
  by (auto simp: myproc_def push_off_eq pop_off_eq irq_wf_def settle_def upd_cpu_def fun_eq_iff)

lemma with_proc_eq [simp]:
  "irq_wf s \<Longrightarrow> c_proc (this_cpu s) = Some p \<Longrightarrow> with_proc f s = f p (settle s)"
  by (simp add: with_proc_def)

lemma rqs_rep_cong: "nextp t = nextp s \<Longrightarrow> runqueues t = runqueues s \<Longrightarrow> rqs_rep t qs = rqs_rep s qs"
  by (simp add: rqs_rep_def rq_rep_def)

lemma rqs_rep_machine [simp]:
  "rqs_rep (acq l s) qs = rqs_rep s qs" "rqs_rep (rel l s) qs = rqs_rep s qs" "rqs_rep (settle s) qs = rqs_rep s qs"
  "rqs_rep (upd_cpu f s) qs = rqs_rep s qs" "rqs_rep (upd_stats h s) qs = rqs_rep s qs"
  by (rule rqs_rep_cong; simp add: nextp_def)+

lemma sched_ok:
  assumes "c_proc (this_cpu s) = Some p" and "holding (ProcLock p) s" and "noff (this_cpu s) = 1"
    and "state (procs s p) \<noteq> RUNNING" and "\<not> sie (this_cpu s)"
  shows "sched s = Switch s"
proof -
  have "irq_wf s" using assms by (simp add: irq_wf_def)
  with assms show ?thesis by (simp add: sched_def swtch_def intr_get_def irq_wf_def)
qed

lemma sched_locks: 
  assumes "c_proc (this_cpu s) = Some p" and "holding (ProcLock p) s" and "1 < noff (this_cpu s)"
    and "\<not> sie (this_cpu s)"
  shows "sched s = Panic ''sched locks''"
proof -
  have "irq_wf s" using assms by (simp add: irq_wf_def)
  with assms show ?thesis by (simp add: sched_def)
qed

text \<open>A process that runs with no lock held can always yield.\<close>

lemma yield_eq:
  assumes "c_proc (this_cpu s) = Some p" and "noff (this_cpu s) = 0" and "lock_free (ProcLock p) s"
  shows "yield s = Switch (upd_proc p (\<lambda>r. r\<lparr>state := RUNNABLE\<rparr>) (acq (ProcLock p) (settle s)))"
proof -
  have wf: "irq_wf s" using assms by (simp add: irq_wf_def)
  let ?t = "upd_proc p (\<lambda>r. r\<lparr>state := RUNNABLE\<rparr>) (acq (ProcLock p) (settle s))"
  have "sched ?t = Switch ?t"
    by (rule sched_ok [of _ p]) (use assms in \<open>auto simp: holding_def cpuid_def\<close>)
  with assms wf show ?thesis by (simp add: yield_def)
qed

lemma sleep_eq:
  assumes "c_proc (this_cpu s) = Some p" and "holding lk s" and "noff (this_cpu s) = 1" and "\<not> sie (this_cpu s)"
    and "lock_free (ProcLock p) s"
  shows "sleep ch lk s = Switch (upd_proc p (\<lambda>r. r\<lparr>chan := Some ch, state := SLEEPING\<rparr>) (rel lk (acq (ProcLock p) s)))"
proof -
  have wf: "irq_wf s" using assms by (simp add: irq_wf_def)
  have ne: "lk \<noteq> ProcLock p" using assms(2,5) by (auto simp: holding_def lock_free_def)
  let ?u = "rel lk (acq (ProcLock p) s)"
  let ?t = "upd_proc p (\<lambda>r. r\<lparr>chan := Some ch, state := SLEEPING\<rparr>) ?u"
  have "sched ?t = Switch ?t"
    by (rule sched_ok [of _ p]) (use assms ne in \<open>auto simp: holding_def cpuid_def\<close>)
  moreover have "upd_proc p (\<lambda>r. r\<lparr>state := SLEEPING\<rparr>) (upd_proc p (\<lambda>r. r\<lparr>chan := Some ch\<rparr>) ?u) = ?t"
    by (simp add: upd_proc_def)
  moreover have "release lk (acq (ProcLock p) s) = Ok () ?u"
    by (rule release_eq) (use assms in auto)
  ultimately show ?thesis using assms wf by (simp add: sleep_def)
qed

section \<open>Critical sections that touch the queues\<close>

lemma upd_comm [kcomm]:
  "upd_stats g (acq l s) = acq l (upd_stats g s)" "upd_stats g (upd_cpu h s) = upd_cpu h (upd_stats g s)"
  "upd_stats g (settle s) = settle (upd_stats g s)" "upd_proc p f (upd_stats g s) = upd_stats g (upd_proc p f s)"
  "upd_proc p f (acq l s) = acq l (upd_proc p f s)" "upd_proc p f (upd_cpu h s) = upd_cpu h (upd_proc p f s)"
  "upd_proc p f (settle s) = settle (upd_proc p f s)"
  "upd_proc p f' (upd_proc p f s) = upd_proc p (\<lambda>r. f' (f r)) s"
  "upd_cpu h' (upd_cpu h s) = upd_cpu (\<lambda>c. h' (h c)) s"
  by (simp_all add: acq_def upd_cpu_def upd_lock_def upd_stats_def upd_proc_def settle_def cong: if_cong)



lemma irq_wf_upd [simp]:
  "irq_wf (upd_stats g s) = irq_wf s" "irq_wf (upd_proc p f s) = irq_wf s"
  by (simp_all add: irq_wf_def)




lemma lock_free_upd [simp]:
  "lock_free l (upd_stats g s) = lock_free l s" "lock_free l (upd_proc p f s) = lock_free l s"
  by (simp_all add: lock_free_def)

lemma forget_comm:
  "forget_queues (acq l s) = acq l (forget_queues s)" "forget_queues (upd_cpu h s) = upd_cpu h (forget_queues s)"
  "forget_queues (upd_stats g s) = upd_stats g (forget_queues s)"
  by (simp_all add: forget_queues_def acq_def upd_cpu_def upd_lock_def upd_stats_def)

lemma forget_upd_proc:
  assumes "forget_queues t = forget_queues s" and "\<And>r n. f (r\<lparr>queue_next := n\<rparr>) = (f r)\<lparr>queue_next := n\<rparr>"
  shows "forget_queues (upd_proc p f t) = forget_queues (upd_proc p f s)"
proof -
  have "forget_queues (upd_proc p f x) = upd_proc p f (forget_queues x)" for x :: "'a kern_scheme"
    using assms(2) [where n = None] by (simp add: forget_queues_def upd_proc_def fun_eq_iff)
  with assms(1) show ?thesis by simp
qed

lemma forget_machine:
  assumes "forget_queues t = forget_queues s"
  shows "irq_wf t = irq_wf s" "lock_free l t = lock_free l s"
  using forget_queues_sels(1-3) [OF assms] by (simp_all add: irq_wf_def lock_free_def)

lemma rqs_rep_upd_proc: "(\<And>r. queue_next (f r) = queue_next r) \<Longrightarrow> rqs_rep (upd_proc p f s) qs = rqs_rep s qs"
  by (rule rqs_rep_cong) (auto simp: nextp_def)

text \<open>
  A section under a lock whose body, apart from the links, does what turns \<open>s\<close> into \<open>s'\<close>: the whole
  section does the same and gives back the lock and interrupt state.
\<close>

lemma queue_section:
  assumes free: "lock_free l s" and wf: "irq_wf s" and run: "m (acq l s) = Ok () t"
    and fg: "forget_queues t = forget_queues (acq l s')"
    and mach: "tp s' = tp s" "cpus s' = cpus s" "locks s' = locks s"
    and rep: "rqs_rep t qs"
  shows "\<exists>u. block [acquire l, m, release l] s = Ok () u \<and> forget_queues u = forget_queues (settle s') \<and> rqs_rep u qs"
proof -
  let ?u = "t\<lparr>cpus := cpus (settle s), locks := locks s\<rparr>"
  note same = forget_queues_sels(1-3) [OF fg]
  have "block [acquire l, m, release l] s = Ok () ?u"
    by (rule locked_section [where m = m, OF free wf run]) (use same mach in auto)
  moreover have "forget_queues ?u = (forget_queues t)\<lparr>cpus := cpus (settle s), locks := locks s\<rparr>"
    by (simp add: forget_queues_def)
  then have "forget_queues ?u = forget_queues (settle s')"
    unfolding fg using mach by (simp add: forget_queues_def acq_def settle_def upd_cpu_def upd_lock_def)
  moreover have "rqs_rep ?u qs" using rep by (subst rqs_rep_cong [of _ t]) (simp_all add: nextp_def)
  ultimately show ?thesis by blast
qed

text \<open>The same change applied to some processes of the table.\<close>

definition map_procs :: "nat set \<Rightarrow> (proc \<Rightarrow> proc) \<Rightarrow> ('z) kern_scheme \<Rightarrow> ('z) kern_scheme" where
  "map_procs A f s = s\<lparr>procs := (\<lambda>q. if q \<in> A then f (procs s q) else procs s q)\<rparr>"

lemma map_procs_sels [simp]:
  "procs (map_procs A f s) q = (if q \<in> A then f (procs s q) else procs s q)"
  "runqueues (map_procs A f s) = runqueues s" "tp (map_procs A f s) = tp s" "cpus (map_procs A f s) = cpus s"
  "locks (map_procs A f s) = locks s" "ticks_since_boost (map_procs A f s) = ticks_since_boost s"
  "scheduler_stats (map_procs A f s) = scheduler_stats s" "initproc (map_procs A f s) = initproc s"
  "nextpid (map_procs A f s) = nextpid s" "ticks (map_procs A f s) = ticks s"
  "scheduler_cycle_count (map_procs A f s) = scheduler_cycle_count s"
  by (simp_all add: map_procs_def)

lemma map_procs_empty [simp]: "map_procs {} f s = s"
  by (simp add: map_procs_def)

lemma map_procs_insert: "p \<notin> A \<Longrightarrow> map_procs (insert p A) f s = map_procs A f (upd_proc p f s)"
  by (auto simp: map_procs_def upd_proc_def fun_eq_iff)

lemma forget_map_procs:
  assumes "forget_queues t = forget_queues s"
    and "\<And>r v. (f r)\<lparr>queue_next := v\<rparr> = f (r\<lparr>queue_next := v\<rparr>)"
  shows "forget_queues (map_procs A f t) = forget_queues (map_procs A f s)"
proof -
  have "forget_queues (map_procs A f x) = map_procs A f (forget_queues x)" for x :: "'a kern_scheme"
    using assms(2) by (auto simp: forget_queues_def map_procs_def fun_eq_iff)
  with assms(1) show ?thesis by simp
qed

section \<open>wakeup\<close>

definition wakes :: "chan option \<Rightarrow> ('z) kern_scheme \<Rightarrow> nat \<Rightarrow> bool" where
  "wakes ch s p \<longleftrightarrow> c_proc (this_cpu s) \<noteq> Some p \<and> state (procs s p) = SLEEPING \<and> chan (procs s p) = ch"

definition add_queued :: "nat list \<Rightarrow> (nat \<Rightarrow> nat) \<Rightarrow> (nat \<Rightarrow> nat list) \<Rightarrow> nat \<Rightarrow> nat list" where
  "add_queued ps lv qs = (\<lambda>l. qs l @ filter (\<lambda>p. lv p = l) ps)"

lemma add_queued_Nil [simp]: "add_queued [] lv qs = qs"
  by (simp add: add_queued_def)

lemma add_queued_Cons: "add_queued (p # ps) lv qs = add_queued ps lv (qs(lv p := qs (lv p) @ [p]))"
  by (auto simp: add_queued_def fun_eq_iff)

lemma queued_snoc: "queued (qs(l := qs l @ [p])) \<subseteq> insert p (queued qs)"
  by (auto simp: queued_def split: if_splits)

text \<open>Making one process runnable under its lock and appending it to its queue.\<close>

lemma enqueue_section:
  assumes free: "lock_free (ProcLock p) s" and wf: "irq_wf s" and rep: "rqs_rep s qs"
    and f: "\<And>r. queue_next (f r) = queue_next r" and lv: "level_ok (queue_level (f (procs s p)))" and fresh: "p \<notin> queued qs"
  defines "k \<equiv> nat (queue_level (f (procs s p)))"
  shows "\<exists>u. block [acquire (ProcLock p), block [modify (upd_proc p f), enqueue p], release (ProcLock p)] s = Ok () u \<and>
    forget_queues u = forget_queues (settle (upd_proc p f s)) \<and> rqs_rep u (qs(k := qs k @ [p]))"
proof -
  let ?s = "upd_proc p f (acq (ProcLock p) s)"
  have "rqs_rep ?s qs" using rep f by (simp add: rqs_rep_upd_proc)
  from enqueue_rqs [OF this _ fresh] lv obtain t where
    run: "enqueue p ?s = Ok () t" and new: "rqs_rep t (qs(k := qs k @ [p]))" and fg: "forget_queues t = forget_queues ?s"
    unfolding k_def by auto
  show ?thesis
    by (rule queue_section [OF free wf _ _ _ _ _ new, of _ "upd_proc p f s"])
      (use run fg in \<open>simp_all add: kcomm\<close>)
qed

lemma wakeup_one_wakes:
  assumes w: "wakes ch s p" and n: "1 \<le> noff (this_cpu s)" "\<not> sie (this_cpu s)" and free: "lock_free (ProcLock p) s"
    and rep: "rqs_rep s qs" and lv: "level_ok (queue_level (procs s p))" and fresh: "p \<notin> queued qs"
  defines "k \<equiv> nat (queue_level (procs s p))"
  shows "\<exists>u. wakeup_one ch p s = Ok () u \<and>
    forget_queues u = forget_queues (upd_proc p (\<lambda>r. r\<lparr>state := RUNNABLE\<rparr>) s) \<and> rqs_rep u (qs(k := qs k @ [p]))"
proof -
  have wf: "irq_wf s" using n by (simp add: irq_wf_def)
  have st: "settle (upd_proc p (\<lambda>r. r\<lparr>state := RUNNABLE\<rparr>) s) = upd_proc p (\<lambda>r. r\<lparr>state := RUNNABLE\<rparr>) s"
    using n by simp
  from w have "Some p \<noteq> c_proc (this_cpu s)" by (auto simp: wakes_def)
  with w n wf have "wakeup_one ch p s = block [acquire (ProcLock p),
      block [modify (upd_proc p (\<lambda>r. r\<lparr>state := RUNNABLE\<rparr>)), enqueue p], release (ProcLock p)] s"
    using free by (simp add: wakeup_one_def wakes_def)
  with enqueue_section [OF free wf rep, of "\<lambda>r. r\<lparr>state := RUNNABLE\<rparr>"] lv fresh
  show ?thesis unfolding st k_def by simp
qed

lemma wakeup_one_sleeps_on:
  assumes w: "\<not> wakes ch s p" and n: "1 \<le> noff (this_cpu s)" "\<not> sie (this_cpu s)"
    and free: "c_proc (this_cpu s) \<noteq> Some p \<Longrightarrow> lock_free (ProcLock p) s"
  shows "wakeup_one ch p s = Ok () s"
proof (cases "c_proc (this_cpu s) = Some p")
  case True
  with n show ?thesis by (simp add: wakeup_one_def irq_wf_def)
next
  case False
  have wf: "irq_wf s" using n by (simp add: irq_wf_def)
  have "block [acquire (ProcLock p), skip, release (ProcLock p)] s =
      Ok () ((acq (ProcLock p) s)\<lparr>cpus := cpus (settle s), locks := locks s\<rparr>)"
    by (rule locked_section [OF free [OF False] wf]) simp_all
  also have "(acq (ProcLock p) s)\<lparr>cpus := cpus (settle s), locks := locks s\<rparr> = s"
    using n by (simp add: acq_def upd_cpu_def upd_lock_def)
  finally have "block [acquire (ProcLock p), skip, release (ProcLock p)] s = Ok () s" .
  moreover from False have "Some p \<noteq> c_proc (this_cpu s)" by auto
  ultimately show ?thesis using False wf w n free [OF False] by (auto simp: wakeup_one_def wakes_def)
qed

lemma wakeup_loop:
  assumes "rqs_rep s qs" and "1 \<le> noff (this_cpu s)" "\<not> sie (this_cpu s)" and "distinct ps"
    and "\<And>p. p \<in> set ps \<Longrightarrow> c_proc (this_cpu s) \<noteq> Some p \<Longrightarrow> lock_free (ProcLock p) s"
    and "\<And>p. p \<in> set ps \<Longrightarrow> wakes ch s p \<Longrightarrow> level_ok (queue_level (procs s p)) \<and> p \<notin> queued qs"
  shows "\<exists>t. for_each ps (wakeup_one ch) s = Ok () t \<and>
    forget_queues t = forget_queues (map_procs {p \<in> set ps. wakes ch s p} (\<lambda>r. r\<lparr>state := RUNNABLE\<rparr>) s) \<and>
    rqs_rep t (add_queued (filter (wakes ch s) ps) (\<lambda>p. nat (queue_level (procs s p))) qs)"
  using assms
proof (induction ps arbitrary: s qs)
  case Nil
  then show ?case by simp
next
  case (Cons p ps)
  let ?R = "\<lambda>r. r\<lparr>state := RUNNABLE\<rparr>" and ?lv = "\<lambda>s p. nat (queue_level (procs s p))"
  show ?case
  proof (cases "wakes ch s p")
    case False
    have run: "wakeup_one ch p s = Ok () s"
      by (rule wakeup_one_sleeps_on [OF False]) (use Cons.prems in auto)
    have "{q \<in> set (p # ps). wakes ch s q} = {q \<in> set ps. wakes ch s q}" using False by auto
    with run False Cons.IH [OF Cons.prems(1,2,3)] Cons.prems(4,5,6) show ?thesis by simp
  next
    case True
    from wakeup_one_wakes [OF True Cons.prems(2,3) _ Cons.prems(1)] Cons.prems(5,6) True obtain u where
      run: "wakeup_one ch p s = Ok () u" and fg: "forget_queues u = forget_queues (upd_proc p ?R s)"
      and rep: "rqs_rep u (qs(?lv s p := qs (?lv s p) @ [p]))"
      by (auto simp: wakes_def)
    note same = forget_queues_sels(1-3) [OF fg]
    have pr: "state (procs u q) = state (procs s q)" "chan (procs u q) = chan (procs s q)"
      "queue_level (procs u q) = queue_level (procs s q)" if "q \<in> set ps" for q
      using forget_queues_proc(1,2,4) [OF fg, of q] Cons.prems(4) that by auto
    have wk: "wakes ch u q = wakes ch s q" if "q \<in> set ps" for q
      using pr [OF that] same by (simp add: wakes_def)
    have "\<exists>t. for_each ps (wakeup_one ch) u = Ok () t \<and>
      forget_queues t = forget_queues (map_procs {q \<in> set ps. wakes ch u q} ?R u) \<and>
      rqs_rep t (add_queued (filter (wakes ch u) ps) (?lv u) (qs(?lv s p := qs (?lv s p) @ [p])))"
    proof (rule Cons.IH [OF rep])
      show "1 \<le> noff (this_cpu u)" "\<not> sie (this_cpu u)" "distinct ps" using Cons.prems same by auto
      fix q assume q: "q \<in> set ps"
      show "lock_free (ProcLock q) u" if "c_proc (this_cpu u) \<noteq> Some q"
        using Cons.prems(5) [of q] q same that by (simp add: lock_free_def)
      show "level_ok (queue_level (procs u q)) \<and> q \<notin> queued (qs(?lv s p := qs (?lv s p) @ [p]))" if "wakes ch u q"
        using Cons.prems(4) Cons.prems(6) [of q] q that wk [OF q] pr [OF q] queued_snoc [of qs "?lv s p" p] by auto
    qed
    then obtain t where t: "for_each ps (wakeup_one ch) u = Ok () t"
      "forget_queues t = forget_queues (map_procs {q \<in> set ps. wakes ch u q} ?R u)"
      "rqs_rep t (add_queued (filter (wakes ch u) ps) (?lv u) (qs(?lv s p := qs (?lv s p) @ [p])))" by blast
    have A: "{q \<in> set (p # ps). wakes ch s q} = insert p {q \<in> set ps. wakes ch s q}" using True by auto
    have B: "{q \<in> set ps. wakes ch u q} = {q \<in> set ps. wakes ch s q}" using wk by auto
    have "forget_queues t = forget_queues (map_procs {q \<in> set (p # ps). wakes ch s q} ?R s)"
      unfolding t(2) A B using Cons.prems(4)
      by (subst map_procs_insert) (auto intro!: forget_map_procs [OF fg])
    moreover have "filter (wakes ch u) ps = filter (wakes ch s) ps" using wk by (auto intro: filter_cong)
    then have "add_queued (filter (wakes ch s) (p # ps)) (?lv s) qs =
        add_queued (filter (wakes ch u) ps) (?lv u) (qs(?lv s p := qs (?lv s p) @ [p]))"
      using True pr by (auto simp: add_queued_def fun_eq_iff intro!: filter_cong)
    ultimately show ?thesis using run t(1,3) by auto
  qed
qed

section \<open>Running alone\<close>

text \<open>
  \<open>calm H s\<close>: a process runs, the locks outside \<open>H\<close> are free and nobody sleeps. In such a state a critical
  section gives back exactly the lock and interrupt state it found, and \<^verbatim>\<open>wakeup\<close> finds nobody to wake.
\<close>

definition calm :: "lock_id set \<Rightarrow> ('z) kern_scheme \<Rightarrow> bool" where
  "calm H s \<longleftrightarrow> irq_wf s \<and> settle s = s \<and> c_proc (this_cpu s) \<noteq> None \<and>
     (\<forall>l. l \<notin> H \<longrightarrow> lock_free l s) \<and> (\<forall>p < NPROC. state (procs s p) \<noteq> SLEEPING) \<and> (\<forall>p. ProcLock p \<notin> H)"

definition cur :: "('z) kern_scheme \<Rightarrow> nat" where
  "cur s = the (c_proc (this_cpu s))"

lemma calmD:
  assumes "calm H s"
  shows "irq_wf s" "settle s = s" "c_proc (this_cpu s) = Some (cur s)" "l \<notin> H \<Longrightarrow> lock_free l s"
    "p < NPROC \<Longrightarrow> state (procs s p) \<noteq> SLEEPING" "ProcLock p \<notin> H"
  using assms by (auto simp: calm_def cur_def)

lemma settle_id_iff: "settle s = s \<longleftrightarrow> (noff (this_cpu s) = 0 \<longrightarrow> intena (this_cpu s) = sie (this_cpu s))"
proof
  assume "settle s = s"
  then have "intena (this_cpu (settle s)) = intena (this_cpu s)" by simp
  then show "noff (this_cpu s) = 0 \<longrightarrow> intena (this_cpu s) = sie (this_cpu s)" by (auto split: if_splits)
qed (auto simp: settle_def upd_cpu_def fun_upd_idem_iff)

lemma calm_cong:
  assumes "tp t = tp s" "cpus t = cpus s" "locks t = locks s" "\<And>p. state (procs t p) = state (procs s p)"
  shows "calm H t = calm H s" "cur t = cur s"
  using assms by (auto simp: calm_def settle_id_iff irq_wf_def lock_free_def cur_def)

lemma calm_acq:
  assumes "calm H s" and "l \<notin> H" and "\<And>p. l \<noteq> ProcLock p"
  shows "calm (insert l H) (acq l s)"
  using assms by (auto simp: calm_def lock_free_def)

lemma calm_acquire: "calm H s \<Longrightarrow> l \<notin> H \<Longrightarrow> acquire l s = Ok () (acq l s)"
  by (simp add: calmD)

lemma calm_release: "calm H s \<Longrightarrow> l \<notin> H \<Longrightarrow> release l (acq l s) = Ok () s"
  by (simp add: calmD)

lemma calm_myproc: "calm H s \<Longrightarrow> myproc s = Ok (Some (cur s)) s"
  by (simp add: calmD)

lemma calm_with_proc: "calm H s \<Longrightarrow> with_proc f s = f (cur s) s"
  using with_proc_eq [of s "cur s" f] by (simp add: calmD)

lemma acq_nested: "irq_wf s \<Longrightarrow> 1 \<le> noff (this_cpu (acq l s)) \<and> \<not> sie (this_cpu (acq l s))"
  by (auto simp: irq_wf_def)

lemma cur_acq [simp]: "cur (acq l s) = cur s"
  by (simp add: cur_def)

lemma calm_wakeup:
  assumes "calm H s" and "1 \<le> noff (this_cpu s)" and "\<not> sie (this_cpu s)"
  shows "wakeup cn s = Ok () s"
proof -
  have one: "wakeup_one cn p s = Ok () s" if "p < NPROC" for p
    by (rule wakeup_one_sleeps_on) (use assms that in \<open>auto simp: calmD wakes_def\<close>)
  have "for_each ps (wakeup_one cn) s = Ok () s" if "set ps \<subseteq> {..<NPROC}" for ps
    using that by (induction ps) (auto simp: one)
  then show ?thesis by (simp add: wakeup_def lessThan_atLeast0)
qed

lemma calm_killed: "calm H s \<Longrightarrow> killed p s = Ok (p_killed (procs s p)) s"
  by (simp add: killed_def calm_acquire calm_release calmD(6))

section \<open>Exactly the sleepers on the channel\<close>

text \<open>Two processes sleep on the tick channel, one on another, and the interrupted CPU holds a lock.\<close>

definition two_sleep :: kern where
  "two_sleep = zero_sched\<lparr>
     cpus := (\<lambda>_. \<lparr>c_proc = None, noff = 1, intena = True, sie = False\<rparr>),
     procs := (\<lambda>_. zero_proc)(
       3 := zero_proc\<lparr>state := SLEEPING, chan := Some ChanTicks, queue_level := 1\<rparr>,
       4 := zero_proc\<lparr>state := SLEEPING, chan := Some (ChanProc 4)\<rparr>,
       6 := zero_proc\<lparr>state := SLEEPING, chan := Some ChanTicks\<rparr>)\<rparr>"

lemma two_sleep_rep: "rqs_rep two_sleep (\<lambda>_. [])"
  by (simp add: rqs_rep_def rq_rep_def two_sleep_def zero_sched_def)

lemma two_sleep_sels [simp]:
  "state (procs two_sleep p) = (if p = 3 \<or> p = 4 \<or> p = 6 then SLEEPING else UNUSED)"
  "queue_level (procs two_sleep p) = (if p = 3 then 1 else 0)"
  "noff (this_cpu two_sleep) = 1" "\<not> sie (this_cpu two_sleep)" "lock_free l two_sleep"
  "wakes (Some ChanTicks) two_sleep = (\<lambda>p. p = 3 \<or> p = 6)"
  by (auto simp: two_sleep_def zero_sched_def zero_proc_def lock_free_def wakes_def fun_eq_iff)

lemma wakeup_eq:
  assumes "rqs_rep s qs" and "1 \<le> noff (this_cpu s)" and "\<not> sie (this_cpu s)"
    and "\<And>p. p < NPROC \<Longrightarrow> c_proc (this_cpu s) \<noteq> Some p \<Longrightarrow> lock_free (ProcLock p) s"
    and "\<And>p. p < NPROC \<Longrightarrow> wakes cn s p \<Longrightarrow> level_ok (queue_level (procs s p)) \<and> p \<notin> queued qs"
  shows "\<exists>t. wakeup cn s = Ok () t \<and>
    forget_queues t = forget_queues (map_procs {p. p < NPROC \<and> wakes cn s p} (\<lambda>r. r\<lparr>state := RUNNABLE\<rparr>) s) \<and>
    rqs_rep t (add_queued (filter (wakes cn s) [0..<NPROC]) (\<lambda>p. nat (queue_level (procs s p))) qs)"
proof -
  have "{p. p < NPROC \<and> wakes cn s p} = {p \<in> set [0..<NPROC]. wakes cn s p}" by auto
  moreover note wakeup_loop [OF assms(1-3) distinct_upt, of 0 NPROC cn] assms(4,5)
  ultimately show ?thesis by (simp add: wakeup_def)
qed

text \<open>
  C22. \<^verbatim>\<open>wakeup(chan)\<close> always returns, makes RUNNABLE exactly the processes that sleep on the channel
  (never the caller), appends each of them once, in the order of the table, to the queue of its level,
  and changes nothing else in the kernel.
\<close>

theorem wakeup_exact:
  assumes "rqs_rep s qs" and "1 \<le> noff (this_cpu s)" and "\<not> sie (this_cpu s)"
    and "\<And>p. p < NPROC \<Longrightarrow> c_proc (this_cpu s) \<noteq> Some p \<Longrightarrow> lock_free (ProcLock p) s"
    and "\<And>p. p < NPROC \<Longrightarrow> wakes cn s p \<Longrightarrow> level_ok (queue_level (procs s p)) \<and> p \<notin> queued qs"
  shows "\<exists>t. wakeup cn s = Ok () t \<and>
    forget_queues t = forget_queues (map_procs {p. p < NPROC \<and> wakes cn s p} (\<lambda>r. r\<lparr>state := RUNNABLE\<rparr>) s) \<and>
    rqs_rep t (add_queued (filter (wakes cn s) [0..<NPROC]) (\<lambda>p. nat (queue_level (procs s p))) qs)"
  by (rule wakeup_eq [OF assms])

theorem wakeup_exact_witness:
  "\<exists>t. wakeup (Some ChanTicks) two_sleep = Ok () t \<and>
    forget_queues t = forget_queues (map_procs {3, 6} (\<lambda>r. r\<lparr>state := RUNNABLE\<rparr>) two_sleep) \<and>
    rqs_rep t ((\<lambda>_. [])(0 := [6], 1 := [3]))"
proof -
  have A: "{p. p < NPROC \<and> (p = 3 \<or> p = 6)} = {3, 6}" by (auto simp: NPROC_def)
  have B: "filter (\<lambda>p. p = 3 \<or> p = 6) [0..<NPROC] = [3, 6]" by (simp add: NPROC_def upt_rec)
  have C: "add_queued [3, 6] (\<lambda>p. nat (queue_level (procs two_sleep p))) (\<lambda>_. []) = (\<lambda>_. [])(0 := [6], 1 := [3])"
    by (auto simp: add_queued_def fun_eq_iff)
  have "\<exists>t. wakeup (Some ChanTicks) two_sleep = Ok () t \<and>
    forget_queues t = forget_queues (map_procs {p. p < NPROC \<and> wakes (Some ChanTicks) two_sleep p}
      (\<lambda>r. r\<lparr>state := RUNNABLE\<rparr>) two_sleep) \<and>
    rqs_rep t (add_queued (filter (wakes (Some ChanTicks) two_sleep) [0..<NPROC])
      (\<lambda>p. nat (queue_level (procs two_sleep p))) (\<lambda>_. []))"
    by (rule wakeup_exact [OF two_sleep_rep]) (auto simp: level_ok_def MLFQ_LEVELS_def queued_def)
  then show ?thesis by (simp only: two_sleep_sels(6) A B C)
qed

end
