(* ===== verification/CString.thy ===== *)
theory CString
  imports Kernel_Prelude
begin

text \<open>
  The memory and string routines of kernel/string.c over a byte-addressed memory. A pointer is a
  64-bit address and pointer arithmetic wraps. The result of a routine that writes is the memory
  it leaves; it returns its first argument, as the code does, so only the memory is given.

  Shown here: \<^verbatim>\<open>memmove\<close> is correct for overlapping regions, \<^verbatim>\<open>strncmp\<close> decides equality of the
  truncated strings, \<^verbatim>\<open>safestrcpy\<close> always terminates its result inside the buffer, \<^verbatim>\<open>strlen\<close> ends
  at the first NUL byte.
\<close>

type_synonym mem = "uint64 \<Rightarrow> uchar"

section \<open>Routines (kernel/string.c)\<close>

primrec memset_loop :: "nat \<Rightarrow> uint64 \<Rightarrow> uchar \<Rightarrow> mem \<Rightarrow> mem" where
  "memset_loop 0 d c m = m"
| "memset_loop (Suc k) d c m = memset_loop k (d + 1) c (m(d := c))"

definition memset :: "uint64 \<Rightarrow> int \<Rightarrow> uint \<Rightarrow> mem \<Rightarrow> mem" where
  "memset dst c n m = memset_loop (unat n) dst (word_of_int c) m"

primrec memcmp_loop :: "nat \<Rightarrow> uint64 \<Rightarrow> uint64 \<Rightarrow> mem \<Rightarrow> int" where
  "memcmp_loop 0 s1 s2 m = 0"
| "memcmp_loop (Suc k) s1 s2 m =
     (if m s1 \<noteq> m s2 then uint (m s1) - uint (m s2) else memcmp_loop k (s1 + 1) (s2 + 1) m)"

definition memcmp :: "uint64 \<Rightarrow> uint64 \<Rightarrow> uint \<Rightarrow> mem \<Rightarrow> int" where
  "memcmp v1 v2 n m = memcmp_loop (unat n) v1 v2 m"

primrec copy_down :: "nat \<Rightarrow> uint64 \<Rightarrow> uint64 \<Rightarrow> mem \<Rightarrow> mem" where
  "copy_down 0 d s m = m"
| "copy_down (Suc k) d s m = copy_down k (d - 1) (s - 1) (m(d - 1 := m (s - 1)))"

primrec copy_up :: "nat \<Rightarrow> uint64 \<Rightarrow> uint64 \<Rightarrow> mem \<Rightarrow> mem" where
  "copy_up 0 d s m = m"
| "copy_up (Suc k) d s m = copy_up k (d + 1) (s + 1) (m(d := m s))"

definition memmove :: "uint64 \<Rightarrow> uint64 \<Rightarrow> uint \<Rightarrow> mem \<Rightarrow> mem" where
  "memmove dst src n m =
     (if n = 0 then m
      else if src < dst \<and> dst < src + ucast n
        then copy_down (unat n) (dst + ucast n) (src + ucast n) m
        else copy_up (unat n) dst src m)"

definition memcpy :: "uint64 \<Rightarrow> uint64 \<Rightarrow> uint \<Rightarrow> mem \<Rightarrow> mem" where
  "memcpy dst src n m = memmove dst src n m"

primrec strncmp_loop :: "nat \<Rightarrow> uint64 \<Rightarrow> uint64 \<Rightarrow> mem \<Rightarrow> int" where
  "strncmp_loop 0 p q m = 0"
| "strncmp_loop (Suc k) p q m =
     (if m p \<noteq> 0 \<and> m p = m q then strncmp_loop k (p + 1) (q + 1) m else uint (m p) - uint (m q))"

definition strncmp :: "uint64 \<Rightarrow> uint64 \<Rightarrow> uint \<Rightarrow> mem \<Rightarrow> int" where
  "strncmp p q n m = strncmp_loop (unat n) p q m"

primrec strncpy_loop :: "nat \<Rightarrow> uint64 \<Rightarrow> uint64 \<Rightarrow> mem \<Rightarrow> mem" where
  "strncpy_loop 0 s t m = m"
| "strncpy_loop (Suc k) s t m =
     (let c = m t; m' = m(s := c) in
      if c \<noteq> 0 then strncpy_loop k (s + 1) (t + 1) m' else memset_loop k (s + 1) 0 m')"

definition strncpy :: "uint64 \<Rightarrow> uint64 \<Rightarrow> int \<Rightarrow> mem \<Rightarrow> mem" where
  "strncpy s t n m = strncpy_loop (nat n) s t m"

primrec safestrcpy_loop :: "nat \<Rightarrow> uint64 \<Rightarrow> uint64 \<Rightarrow> mem \<Rightarrow> mem" where
  "safestrcpy_loop 0 s t m = m(s := 0)"
| "safestrcpy_loop (Suc k) s t m =
     (let c = m t; m' = m(s := c) in
      if c \<noteq> 0 then safestrcpy_loop k (s + 1) (t + 1) m' else m'(s + 1 := 0))"

definition safestrcpy :: "uint64 \<Rightarrow> uint64 \<Rightarrow> int \<Rightarrow> mem \<Rightarrow> mem" where
  "safestrcpy s t n m = (if n \<le> 0 then m else safestrcpy_loop (nat (n - 1)) s t m)"

partial_function (option) strlen_loop :: "uint64 \<Rightarrow> mem \<Rightarrow> int \<Rightarrow> int option" where
  "strlen_loop s m n = (if m (s + word_of_int n) = 0 then Some n else strlen_loop s m (n + 1))"

definition strlen :: "uint64 \<Rightarrow> mem \<Rightarrow> int option" where
  "strlen s m = strlen_loop s m 0"

section \<open>Bytes and strings in memory\<close>

text \<open>\<open>bytes m a n\<close> is the list of the \<open>n\<close> bytes from address \<open>a\<close>; \<open>cstr\<close> cuts a list at its first NUL.\<close>

primrec bytes :: "mem \<Rightarrow> uint64 \<Rightarrow> nat \<Rightarrow> uchar list" where
  "bytes m a 0 = []"
| "bytes m a (Suc n) = m a # bytes m (a + 1) n"

definition cstr :: "uchar list \<Rightarrow> uchar list" where
  "cstr bs = takeWhile (\<lambda>b. b \<noteq> 0) bs"

text \<open>\<open>in_range x a n\<close>: address \<open>x\<close> is one of the \<open>n\<close> addresses from \<open>a\<close>.\<close>

definition in_range :: "uint64 \<Rightarrow> uint64 \<Rightarrow> nat \<Rightarrow> bool" where
  "in_range x a n \<longleftrightarrow> unat (x - a) < n"

lemma length_bytes [simp]: "length (bytes m a n) = n"
  by (induction n arbitrary: a) auto

lemma nth_bytes [simp]: "i < n \<Longrightarrow> bytes m a n ! i = m (a + of_nat i)"
  by (induction n arbitrary: a i) (auto simp: nth_Cons' algebra_simps of_nat_diff)

lemma bytes_eqI: "(\<And>i. i < n \<Longrightarrow> m (a + of_nat i) = m' (b + of_nat i)) \<Longrightarrow> bytes m a n = bytes m' b n"
  by (rule nth_equalityI) auto

lemma in_range_iff:
  assumes "n \<le> 2 ^ 64"
  shows "in_range x a n \<longleftrightarrow> (\<exists>i < n. x = a + of_nat i)"
proof
  assume "in_range x a n"
  then have "unat (x - a) < n" "x = a + of_nat (unat (x - a))" by (simp_all add: in_range_def)
  then show "\<exists>i < n. x = a + of_nat i" by blast
next
  assume "\<exists>i < n. x = a + of_nat i"
  then obtain i where i: "i < n" "x = a + of_nat i" by blast
  then have "unat (x - a) = i" using assms by (simp add: unat_of_nat take_bit_nat_eq_self)
  with i show "in_range x a n" by (simp add: in_range_def)
qed

lemma in_range_Suc: "in_range x a (Suc n) \<longleftrightarrow> x = a \<or> in_range x (a + 1) n"
proof (cases "x = a")
  case False
  have x: "x - a = 1 + (x - (a + 1))" by simp
  have "unat (1 + (x - (a + 1))) = Suc (unat (x - (a + 1)))"
    by (rule unatSuc) (use False x in \<open>metis right_minus_eq\<close>)
  then have "unat (x - a) = Suc (unat (x - (a + 1)))" unfolding x .
  then show ?thesis using False by (simp add: in_range_def)
qed (simp add: in_range_def)

lemma in_range_0 [simp]: "\<not> in_range x a 0"
  by (simp add: in_range_def)

lemma memset_loop_eq: "memset_loop n a c m = (\<lambda>x. if in_range x a n then c else m x)"
proof (induction n arbitrary: a m)
  case (Suc n)
  show ?case unfolding memset_loop.simps Suc.IH by (auto simp: fun_eq_iff in_range_Suc)
qed simp

text \<open>\<open>blit m a bs\<close> overwrites the bytes from \<open>a\<close> with the list \<open>bs\<close>.\<close>

primrec blit :: "mem \<Rightarrow> uint64 \<Rightarrow> uchar list \<Rightarrow> mem" where
  "blit m a [] = m"
| "blit m a (b # bs) = blit (m(a := b)) (a + 1) bs"

lemma unat_add_nat: "unat (a :: uint64) + i < 2 ^ 64 \<Longrightarrow> unat (a + of_nat i) = unat a + i"
proof -
  assume a: "unat a + i < 2 ^ 64"
  then have "unat (of_nat i :: uint64) = i" by (simp add: unat_of_nat take_bit_nat_eq_self)
  with a show ?thesis by (subst unat_plus_simple [THEN iffD1]) (simp_all add: no_olen_add_nat)
qed

lemma add_nat_inj: "a + of_nat i = a + (of_nat j :: uint64) \<Longrightarrow> i < 2 ^ 64 \<Longrightarrow> j < 2 ^ 64 \<Longrightarrow> i = j"
proof -
  assume "a + of_nat i = a + (of_nat j :: uint64)" and b: "i < 2 ^ 64" "j < 2 ^ 64"
  then have "unat (of_nat i :: uint64) = unat (of_nat j :: uint64)" by simp
  with b show "i = j" by (simp add: unat_of_nat take_bit_nat_eq_self)
qed

lemma blit_outside: "\<not> in_range x a (length bs) \<Longrightarrow> blit m a bs x = m x"
  by (induction bs arbitrary: m a) (auto simp: in_range_Suc)

lemma blit_snoc: "blit m a (bs @ [c]) = (blit m a bs)(a + of_nat (length bs) := c)"
proof (induction bs arbitrary: m a)
  case (Cons b bs)
  have "a + 1 + of_nat (length bs) = a + of_nat (length (b # bs))" by simp
  with Cons [of "m(a := b)" "a + 1"] show ?case by (simp only: append_Cons blit.simps)
qed simp

lemma blit_upd:
  assumes "\<not> in_range x a (length bs)"
  shows "blit (m(x := c)) a bs = (blit m a bs)(x := c)"
  using assms
proof (induction bs arbitrary: m a)
  case (Cons b bs)
  then have "x \<noteq> a" "\<not> in_range x (a + 1) (length bs)" by (auto simp: in_range_Suc)
  moreover have "(m(x := c))(a := b) = (m(a := b))(x := c)" using \<open>x \<noteq> a\<close> by (rule fun_upd_twist)
  ultimately show ?case using Cons.IH [of "a + 1" "m(a := b)"] by (simp only: blit.simps not_False_eq_True)
qed simp

lemma bytes_blit:
  assumes "length bs \<le> 2 ^ 64"
  shows "bytes (blit m a bs) a (length bs) = bs"
  using assms
proof (induction bs rule: rev_induct)
  case (snoc c bs)
  have IH: "bytes (blit m a bs) a (length bs) = bs" using snoc by simp
  show ?case
  proof (rule nth_equalityI)
    fix i assume "i < length (bytes (blit m a (bs @ [c])) a (length (bs @ [c])))"
    then have i: "i < Suc (length bs)" by simp
    show "bytes (blit m a (bs @ [c])) a (length (bs @ [c])) ! i = (bs @ [c]) ! i"
    proof (cases "i = length bs")
      case True
      then show ?thesis by (simp add: blit_snoc del: bytes.simps)
    next
      case False
      with i have lt: "i < length bs" by simp
      then have "a + of_nat i \<noteq> a + of_nat (length bs)"
        using snoc.prems add_nat_inj [of a i "length bs"] by auto
      moreover have "blit m a bs (a + of_nat i) = bs ! i" using arg_cong [OF IH, of "\<lambda>l. l ! i"] lt by simp
      ultimately show ?thesis using lt by (simp add: blit_snoc nth_append del: bytes.simps)
    qed
  qed simp
qed simp

lemma unat_uint_bound: "unat (n :: uint) < 2 ^ 32"
  using unsigned_less [of n, where ?'a = nat] by simp

lemma bytes_numeral: "bytes m a (numeral k) = m a # bytes m (a + 1) (pred_numeral k)"
  by (simp add: numeral_eq_Suc)

lemma bytes_cong: "(\<And>x. in_range x a n \<Longrightarrow> m x = m' x) \<Longrightarrow> bytes m a n = bytes m' a n"
proof (induction n arbitrary: a)
  case (Suc n)
  have "bytes m (a + 1) n = bytes m' (a + 1) n" by (rule Suc.IH) (use Suc.prems in \<open>simp add: in_range_Suc\<close>)
  moreover have "m a = m' a" using Suc.prems [of a] by (simp add: in_range_Suc)
  ultimately show ?case by simp
qed simp

lemma bytes_upd [simp]: "\<not> in_range x a n \<Longrightarrow> bytes (m(x := c)) a n = bytes m a n"
  by (rule bytes_cong) auto

lemma bytes_snoc: "bytes m a (Suc n) = bytes m a n @ [m (a + of_nat n)]"
  by (rule nth_equalityI) (auto simp: nth_append less_Suc_eq simp del: bytes.simps)

section \<open>memmove\<close>

lemma copy_up_eq:
  assumes "\<And>i j. i < j \<Longrightarrow> j < n \<Longrightarrow> d + of_nat i \<noteq> s + of_nat j" and "n \<le> 2 ^ 64"
  shows "copy_up n d s m = blit m d (bytes m s n)"
  using assms
proof (induction n arbitrary: d s m)
  case (Suc n)
  have "\<not> in_range d (s + 1) n"
  proof
    assume "in_range d (s + 1) n"
    then obtain j where "j < n" "d = s + 1 + of_nat j" using Suc.prems(2) by (auto simp: in_range_iff)
    with Suc.prems(1) [of 0 "Suc j"] show False by (simp add: algebra_simps)
  qed
  moreover have "copy_up n (d + 1) (s + 1) (m(d := m s)) = blit (m(d := m s)) (d + 1) (bytes (m(d := m s)) (s + 1) n)"
  proof (rule Suc.IH)
    fix i j :: nat assume "i < j" "j < n"
    then show "d + 1 + of_nat i \<noteq> s + 1 + of_nat j" using Suc.prems(1) [of "Suc i" "Suc j"] by (simp add: algebra_simps)
  qed (use Suc.prems in simp)
  ultimately show ?case by simp
qed simp

lemma copy_down_eq:
  assumes "\<And>i j. i < j \<Longrightarrow> j < n \<Longrightarrow> d + of_nat j \<noteq> s + of_nat i" and "n \<le> 2 ^ 64"
  shows "copy_down n (d + of_nat n) (s + of_nat n) m = blit m d (bytes m s n)"
  using assms
proof (induction n arbitrary: m)
  case (Suc n)
  let ?m = "m(d + of_nat n := m (s + of_nat n))"
  have "\<not> in_range (d + of_nat n) s n"
    using Suc.prems by (auto simp: in_range_iff)
  moreover have "\<not> in_range (d + of_nat n) d n"
    using Suc.prems(2) add_nat_inj [of d n] by (fastforce simp: in_range_iff)
  moreover have "copy_down n (d + of_nat n) (s + of_nat n) ?m = blit ?m d (bytes ?m s n)"
    by (rule Suc.IH) (use Suc.prems in auto)
  moreover have "d + of_nat (Suc n) - 1 = d + of_nat n" "s + of_nat (Suc n) - 1 = s + of_nat n" by simp_all
  ultimately have "copy_down (Suc n) (d + of_nat (Suc n)) (s + of_nat (Suc n)) m = (blit m d (bytes m s n))(d + of_nat n := m (s + of_nat n))"
    by (simp only: copy_down.simps bytes_upd blit_upd length_bytes not_False_eq_True)
  then show ?case by (simp add: bytes_snoc blit_snoc del: bytes.simps copy_down.simps)
qed simp

lemma memmove_eq:
  assumes "unat src + unat n < 2 ^ 64" and "unat dst + unat n < 2 ^ 64"
  shows "memmove dst src n m = blit m dst (bytes m src (unat n))"
proof -
  have n: "unat n \<le> 2 ^ 64" using unat_uint_bound [of n] by simp
  have uc: "ucast n = (of_nat (unat n) :: uint64)" by simp
  have S: "unat (src + of_nat i) = unat src + i" and D: "unat (dst + of_nat i) = unat dst + i" if "i \<le> unat n" for i
    using that assms by (auto intro!: unat_add_nat)
  have neq: "dst + of_nat i \<noteq> src + of_nat j" if "unat dst + i \<noteq> unat src + j" "i < unat n" "j < unat n" for i j
    using that S [of j] D [of i] by auto
  show ?thesis
  proof (cases "src < dst \<and> dst < src + ucast n")
    case True
    have "copy_down (unat n) (dst + of_nat (unat n)) (src + of_nat (unat n)) m = blit m dst (bytes m src (unat n))"
      by (rule copy_down_eq) (use neq True n in \<open>auto simp: word_less_nat_alt\<close>)
    with True show ?thesis by (auto simp: memmove_def)
  next
    case False
    then have "unat dst \<le> unat src \<or> unat src + unat n \<le> unat dst"
      using S [of "unat n"] unfolding uc by (auto simp: word_less_nat_alt)
    then have "copy_up (unat n) dst src m = blit m dst (bytes m src (unat n))"
      by (intro copy_up_eq) (use neq n in auto)
    with False show ?thesis by (auto simp: memmove_def)
  qed
qed

text \<open>
  C13. \<^verbatim>\<open>memmove\<close> is correct for any two regions of memory that do not run over the end of the
  address space, overlapping or not: the destination then holds what the source held before, and no
  byte outside the destination changes.
\<close>

theorem memmove_correct:
  assumes "unat src + unat n < 2 ^ 64" and "unat dst + unat n < 2 ^ 64"
  shows "bytes (memmove dst src n m) dst (unat n) = bytes m src (unat n) \<and>
    (\<forall>x. in_range x dst (unat n) \<or> memmove dst src n m x = m x)"
proof -
  have "length (bytes m src (unat n)) \<le> 2 ^ 64" using unat_uint_bound [of n] by simp
  from bytes_blit [OF this, of m dst] show ?thesis
    unfolding memmove_eq [OF assms] using blit_outside [of _ dst "bytes m src (unat n)" m] by auto
qed

theorem memmove_correct_witness:
  "bytes (memmove 1001 1000 3 (\<lambda>x. if x = 1000 then 7 else if x = 1001 then 8 else 9)) 1001 3 = [7, 8, 9]"
  using memmove_correct [of 1000 3 1001 "\<lambda>x. if x = 1000 then 7 else if x = 1001 then 8 else 9"]
  by (simp add: bytes_numeral)


section \<open>Strings\<close>

lemma cstr_simps [simp]: "cstr [] = []" "cstr (0 # bs) = []" "b \<noteq> 0 \<Longrightarrow> cstr (b # bs) = b # cstr bs"
  by (simp_all add: cstr_def)

lemma length_cstr: "length (cstr bs) \<le> length bs"
  by (simp add: cstr_def length_takeWhile_le)

lemma uint_diff_0: "uint (a :: uchar) - uint b = 0 \<longleftrightarrow> a = b"
  by (metis eq_iff_diff_eq_0 word_uint_eq_iff)

lemma strncmp_loop_eq_0: "strncmp_loop n p q m = 0 \<longleftrightarrow> cstr (bytes m p n) = cstr (bytes m q n)"
proof (induction n arbitrary: p q)
  case (Suc n)
  with uint_diff_0 [of "m p" "m q"] show ?case by (cases "m p = 0"; cases "m q = 0"; cases "m p = m q") simp_all
qed simp

text \<open>
  C14. \<^verbatim>\<open>strncmp\<close> returns 0 exactly when the two strings, cut at their NUL byte or at \<open>n\<close> characters,
  are the same.
\<close>

theorem strncmp_zero_iff:
  "strncmp p q n m = 0 \<longleftrightarrow> cstr (bytes m p (unat n)) = cstr (bytes m q (unat n))"
  by (simp add: strncmp_def strncmp_loop_eq_0)

lemma safestrcpy_loop_frame: "\<not> in_range x s (Suc n) \<Longrightarrow> safestrcpy_loop n s t m x = m x"
  by (induction n arbitrary: s t m) (auto simp: in_range_Suc Let_def)

lemma safestrcpy_loop_cstr:
  assumes "\<And>x. in_range x s (Suc n) \<Longrightarrow> \<not> in_range x t n" and "n < 2 ^ 64"
  shows "cstr (bytes (safestrcpy_loop n s t m) s (Suc n)) = cstr (bytes m t n)"
  using assms
proof (induction n arbitrary: s t m)
  case (Suc n)
  let ?m = "m(s := m t)"
  have st: "\<not> in_range s (t + 1) n" using Suc.prems(1) [of s] by (simp add: in_range_Suc)
  have self: "\<not> in_range s (s + 1) (Suc n)"
  proof
    assume "in_range s (s + 1) (Suc n)"
    then obtain i where "i < Suc n" "s + of_nat 0 = s + of_nat (Suc i)"
      using in_range_iff [of "Suc n" s "s + 1"] Suc.prems(2) by (auto simp: algebra_simps)
    with add_nat_inj [of s 0 "Suc i"] Suc.prems(2) show False by simp
  qed
  show ?case
  proof (cases "m t = 0")
    case True
    moreover have "s \<noteq> s + 1" by simp
    ultimately show ?thesis by simp
  next
    case False
    have "cstr (bytes (safestrcpy_loop n (s + 1) (t + 1) ?m) (s + 1) (Suc n)) = cstr (bytes ?m (t + 1) n)"
      by (rule Suc.IH) (use Suc.prems in \<open>auto simp: in_range_Suc\<close>)
    moreover have "safestrcpy_loop n (s + 1) (t + 1) ?m s = m t"
      using safestrcpy_loop_frame [OF self] by simp
    ultimately have "cstr (bytes (safestrcpy_loop n (s + 1) (t + 1) ?m) s (Suc (Suc n))) = m t # cstr (bytes m (t + 1) n)"
      using False st by (subst bytes.simps(2)) (simp del: bytes.simps(2))
    with False show ?thesis by (simp add: Let_def del: bytes.simps(2)) (simp add: False)
  qed
qed simp

text \<open>
  C15. \<^verbatim>\<open>safestrcpy\<close> into a buffer of \<open>n\<close> bytes that does not overlap the source leaves there the
  longest prefix of the source string that fits with its terminator, always terminated inside the
  buffer, and writes nothing outside of it.
\<close>

theorem safestrcpy_terminates_string:
  assumes "0 < n" and "n \<le> 2 ^ 31" and "\<And>x. in_range x s (nat n) \<Longrightarrow> \<not> in_range x t (nat n)"
  shows "cstr (bytes (safestrcpy s t n m) s (nat n)) = cstr (bytes m t (nat n - 1)) \<and>
    length (cstr (bytes (safestrcpy s t n m) s (nat n))) < nat n \<and>
    (\<forall>x. in_range x s (nat n) \<or> safestrcpy s t n m x = m x)"
proof -
  obtain k where k: "nat n = Suc k" "nat (n - 1) = k" using assms(1) by (cases "nat n") auto
  have b: "k < 2 ^ 64" using k assms(1,2) by auto
  have eq: "safestrcpy s t n m = safestrcpy_loop k s t m" using assms(1) k by (simp add: safestrcpy_def)
  have sub: "in_range x t k \<Longrightarrow> in_range x t (Suc k)" for x by (simp add: in_range_def)
  have "cstr (bytes (safestrcpy_loop k s t m) s (Suc k)) = cstr (bytes m t k)"
    by (rule safestrcpy_loop_cstr) (use assms(3) k b sub in auto)
  moreover have "length (cstr (bytes m t k)) \<le> k" using length_cstr [of "bytes m t k"] by simp
  ultimately show ?thesis using safestrcpy_loop_frame [of _ s k t m] unfolding eq k by auto
qed

theorem safestrcpy_terminates_string_witness:
  "cstr (bytes (safestrcpy 100 200 3 (\<lambda>x. if x < 250 then 65 else 0)) 100 3) = [65, 65]"
proof -
  let ?m = "\<lambda>x :: uint64. if x < 250 then 65 else 0 :: uchar"
  have "\<not> in_range x 200 3" if "in_range x 100 3" for x :: uint64
  proof -
    from that obtain i where "i < 3" "x = 100 + of_nat i" using in_range_iff [of 3 x 100] by auto
    then have "x = 100 \<or> x = 101 \<or> x = 102" by (auto simp: numeral_3_eq_3 less_Suc_eq)
    then show ?thesis by (auto simp: in_range_def)
  qed
  then have "cstr (bytes (safestrcpy 100 200 3 ?m) 100 (nat 3)) = cstr (bytes ?m 200 (nat 3 - 1))"
    using safestrcpy_terminates_string [of 3 100 200 ?m] by simp
  then show ?thesis by (simp add: bytes_numeral)
qed

lemma strlen_loop_first:
  assumes "m (s + of_nat (k + d)) = 0" and "\<And>i. i < d \<Longrightarrow> m (s + of_nat (k + i)) \<noteq> 0"
  shows "strlen_loop s m (int k) = Some (int (k + d))"
  using assms
proof (induction d arbitrary: k)
  case 0
  then show ?case by (subst strlen_loop.simps) simp
next
  case (Suc d)
  have "m (s + of_nat (Suc k + i)) \<noteq> 0" if "i < d" for i using Suc.prems(2) [of "Suc i"] that by simp
  with Suc.IH [of "Suc k"] Suc.prems(1) have "strlen_loop s m (int (Suc k)) = Some (int (k + Suc d))" by simp
  moreover have "m (s + word_of_int (int k)) \<noteq> 0" using Suc.prems(2) [of 0] by simp
  ultimately show ?case by (subst strlen_loop.simps) (simp add: algebra_simps)
qed

text \<open>\<^verbatim>\<open>strlen\<close> returns on every string that has a NUL byte, with the index of the first one.\<close>

lemma strlen_first_nul:
  assumes "m (s + of_nat k) = 0" and "\<And>i. i < k \<Longrightarrow> m (s + of_nat i) \<noteq> 0"
  shows "strlen s m = Some (int k)"
  using strlen_loop_first [of m s 0 k] assms by (simp add: strlen_def)

end
