(* ===== verification/Memory.thy ===== *)
theory Memory
  imports CString
begin

text \<open>
  Words in byte-addressed memory (little-endian, as RISC-V is) and the page arithmetic of
  kernel/riscv.h. Shown here: encoding and decoding of words are inverse, a word read back after a
  store is the word stored, words in different places do not interfere, and the page number, index
  and flag fields of page table entries can be taken apart and put together.
\<close>

section \<open>Little-endian words\<close>

primrec le_bytes :: "nat \<Rightarrow> 'a::len word \<Rightarrow> uchar list" where
  "le_bytes 0 v = []"
| "le_bytes (Suc n) v = ucast v # le_bytes n (drop_bit 8 v)"

primrec le_word :: "uchar list \<Rightarrow> 'a::len word" where
  "le_word [] = 0"
| "le_word (b # bs) = ucast b OR push_bit 8 (le_word bs)"

definition load64 :: "mem \<Rightarrow> uint64 \<Rightarrow> uint64" where
  "load64 m a = le_word (bytes m a 8)"

definition store64 :: "uint64 \<Rightarrow> uint64 \<Rightarrow> mem \<Rightarrow> mem" where
  "store64 a v m = blit m a (le_bytes 8 v)"

definition load32 :: "mem \<Rightarrow> uint64 \<Rightarrow> uint" where
  "load32 m a = le_word (bytes m a 4)"

definition store32 :: "uint64 \<Rightarrow> uint \<Rightarrow> mem \<Rightarrow> mem" where
  "store32 a v m = blit m a (le_bytes 4 v)"

lemma length_le_bytes [simp]: "length (le_bytes n v) = n"
  by (induction n arbitrary: v) auto

lemma le_word_bytes: "le_word (le_bytes n v) = take_bit (8 * n) v"
proof (induction n arbitrary: v)
  case (Suc n)
  have "ucast (ucast v :: uchar) OR push_bit 8 (take_bit (8 * n) (drop_bit 8 v)) = take_bit (8 * Suc n) v"
    by (rule bit_eqI) (auto simp: bit_simps dest: bit_imp_le_length)
  with Suc show ?case by simp
qed simp

lemma le_bytes_word:
  "length bs = n \<Longrightarrow> 8 * n \<le> LENGTH('a) \<Longrightarrow> le_bytes n (le_word bs :: 'a::len word) = bs"
proof (induction bs arbitrary: n)
  case (Cons b bs)
  then obtain k where n: "n = Suc k" and k: "length bs = k" by auto
  let ?w = "le_word bs :: 'a word"
  have hi: "take_bit (8 * k) ?w = ?w"
    using le_word_bytes [where 'a = 'a, of k ?w] Cons.IH [OF k] Cons.prems(2) n by simp
  have "ucast (ucast b OR push_bit 8 ?w :: 'a word) = b"
    using Cons.prems(2) n by (intro bit_eqI) (auto simp: bit_simps)
  moreover have "drop_bit 8 (ucast b OR push_bit 8 ?w :: 'a word) = ?w"
  proof (rule bit_word_eqI)
    fix i assume "i < LENGTH('a)"
    have "bit ?w i \<Longrightarrow> i < 8 * k" using hi by (metis bit_take_bit_iff)
    then show "bit (drop_bit 8 (ucast b OR push_bit 8 ?w :: 'a word)) i = bit ?w i"
      using Cons.prems(2) n by (auto simp: bit_simps dest: bit_imp_le_length)
  qed
  ultimately show ?case using Cons.IH [OF k] Cons.prems(2) n by simp
qed simp

lemma load64_store64 [simp]: "load64 (store64 a v m) a = v"
proof -
  have "bytes (store64 a v m) a 8 = le_bytes 8 v"
    using bytes_blit [of "le_bytes 8 v" m a] by (simp add: store64_def)
  then show ?thesis by (simp add: load64_def le_word_bytes take_bit_word_eq_self)
qed

lemma load32_store32 [simp]: "load32 (store32 a v m) a = v"
proof -
  have "bytes (store32 a v m) a 4 = le_bytes 4 v"
    using bytes_blit [of "le_bytes 4 v" m a] by (simp add: store32_def)
  then show ?thesis by (simp add: load32_def le_word_bytes take_bit_word_eq_self)
qed

lemma store64_outside: "\<not> in_range x a 8 \<Longrightarrow> store64 a v m x = m x"
  by (simp add: store64_def blit_outside)

lemma load64_cong: "(\<And>x. in_range x a 8 \<Longrightarrow> m x = m' x) \<Longrightarrow> load64 m a = load64 m' a"
  unfolding load64_def using bytes_cong [of a 8 m m'] by simp

lemma load64_zero: "(\<And>x. in_range x a 8 \<Longrightarrow> m x = 0) \<Longrightarrow> load64 m a = 0"
proof -
  assume "\<And>x. in_range x a 8 \<Longrightarrow> m x = 0"
  then have "load64 m a = load64 (\<lambda>_. 0) a" by (rule load64_cong)
  moreover have "le_word (bytes (\<lambda>_. 0) b n) = (0 :: uint64)" for b n by (induction n arbitrary: b) auto
  ultimately show ?thesis by (simp add: load64_def)
qed

section \<open>Pages and page table entries (kernel/riscv.h)\<close>

definition PGSIZE :: uint64 where "PGSIZE = 4096"
definition PGSHIFT :: nat where "PGSHIFT = 12"

definition PGROUNDUP :: "uint64 \<Rightarrow> uint64" where
  "PGROUNDUP sz = (sz + PGSIZE - 1) AND NOT (PGSIZE - 1)"

definition PGROUNDDOWN :: "uint64 \<Rightarrow> uint64" where
  "PGROUNDDOWN a = a AND NOT (PGSIZE - 1)"

definition PTE_V :: uint64 where "PTE_V = push_bit 0 1"
definition PTE_R :: uint64 where "PTE_R = push_bit 1 1"
definition PTE_W :: uint64 where "PTE_W = push_bit 2 1"
definition PTE_X :: uint64 where "PTE_X = push_bit 3 1"
definition PTE_U :: uint64 where "PTE_U = push_bit 4 1"

definition PA2PTE :: "uint64 \<Rightarrow> uint64" where
  "PA2PTE pa = push_bit 10 (drop_bit 12 pa)"

definition PTE2PA :: "uint64 \<Rightarrow> uint64" where
  "PTE2PA pte = push_bit 12 (drop_bit 10 pte)"

definition PTE_FLAGS :: "uint64 \<Rightarrow> uint64" where
  "PTE_FLAGS pte = pte AND 0x3FF"

definition PXMASK :: uint64 where "PXMASK = 0x1FF"

definition PXSHIFT :: "nat \<Rightarrow> nat" where
  "PXSHIFT level = PGSHIFT + 9 * level"

definition PX :: "nat \<Rightarrow> uint64 \<Rightarrow> uint64" where
  "PX level va = drop_bit (PXSHIFT level) va AND PXMASK"

definition MAXVA :: uint64 where "MAXVA = push_bit (9 + 9 + 9 + 12 - 1) 1"

lemma page_mask: "PGSIZE - 1 = mask 12"
  by (simp add: PGSIZE_def mask_eq_exp_minus_1)

lemma PGROUNDDOWN_bit: "bit (PGROUNDDOWN a) i \<longleftrightarrow> 12 \<le> i \<and> bit a i"
  by (auto simp: PGROUNDDOWN_def page_mask bit_simps dest: bit_imp_le_length)

definition page_aligned :: "uint64 \<Rightarrow> bool" where
  "page_aligned a \<longleftrightarrow> a mod PGSIZE = 0"

lemma page_aligned_iff: "page_aligned a \<longleftrightarrow> (\<forall>i < 12. \<not> bit a i)"
proof -
  have "a mod PGSIZE = take_bit 12 a" by (simp add: PGSIZE_def take_bit_eq_mod)
  also have "take_bit 12 a = 0 \<longleftrightarrow> (\<forall>i < 12. \<not> bit a i)"
    by (auto simp: bit_eq_iff bit_simps dest: bit_imp_le_length)
  finally show ?thesis by (simp add: page_aligned_def)
qed

lemma PGROUNDDOWN_aligned [simp]: "page_aligned (PGROUNDDOWN a)"
  by (simp add: page_aligned_iff PGROUNDDOWN_bit)

lemma PGROUNDDOWN_eq: "PGROUNDDOWN a = a - a mod PGSIZE"
proof -
  have "PGROUNDDOWN a = push_bit 12 (drop_bit 12 a)"
    by (rule bit_word_eqI) (auto simp: PGROUNDDOWN_bit bit_simps)
  also have "\<dots> = a div 2 ^ 12 * 2 ^ 12" by (simp add: push_bit_eq_mult drop_bit_eq_div)
  finally show ?thesis by (simp add: PGSIZE_def minus_mod_eq_div_mult)
qed

lemma PGROUNDDOWN_id: "page_aligned a \<Longrightarrow> PGROUNDDOWN a = a"
  by (simp add: PGROUNDDOWN_eq page_aligned_def)

lemma PGROUNDUP_eq: "PGROUNDUP a = PGROUNDDOWN (a + PGSIZE - 1)"
  by (simp add: PGROUNDUP_def PGROUNDDOWN_def)

lemma PGROUNDUP_aligned [simp]: "page_aligned (PGROUNDUP a)"
  by (simp add: PGROUNDUP_eq)

text \<open>A page table entry made from a page address and flags gives both back.\<close>

lemma PTE2PA_PA2PTE:
  assumes "page_aligned pa" and "f < 1024"
  shows "PTE2PA (PA2PTE pa OR f) = pa"
proof (rule bit_word_eqI)
  fix i assume i: "i < LENGTH(64)"
  have f: "\<not> bit f j" if "10 \<le> j" for j
  proof -
    have "take_bit 10 f = f" using assms(2) by (simp add: take_bit_eq_mod word_unat_eq_iff unat_mod word_less_nat_alt)
    then show ?thesis using that by (metis bit_take_bit_iff not_le)
  qed
  show "bit (PTE2PA (PA2PTE pa OR f)) i = bit pa i"
    using assms(1) i f [of "i - 2"] by (cases "i < 12") (auto simp: PTE2PA_def PA2PTE_def page_aligned_iff bit_simps)
qed

section \<open>Aligned words and pages do not overlap\<close>

lemma in_range_aligned:
  assumes low: "\<And>i. i < k \<Longrightarrow> \<not> bit a i" and k: "k \<le> 64"
  shows "in_range x a (2 ^ k) \<longleftrightarrow> push_bit k (drop_bit k x) = a"
proof
  have le: "(2 :: nat) ^ k \<le> 2 ^ 64" using k by (rule power_increasing) simp
  assume "in_range x a (2 ^ k)"
  then obtain i where i: "i < 2 ^ k" "x = a + of_nat i" using in_range_iff [OF le] by blast
  have hi: "\<not> bit i n" if "k \<le> n" for n
    using i(1) that by (metis bit_take_bit_iff not_le take_bit_nat_eq_self_iff)
  have "x = a OR of_nat i" unfolding i(2)
  proof (rule disjunctive_add)
    fix n show "\<not> bit a n \<or> \<not> bit (of_nat i :: uint64) n"
      using low [of n] hi [of n] by (cases "n < k") (auto simp: bit_simps)
  qed
  moreover have "k \<le> n" if "bit a n" for n using low that by (meson not_le)
  ultimately show "push_bit k (drop_bit k x) = a"
    using hi by (intro bit_word_eqI) (auto simp: bit_simps)
next
  assume a: "push_bit k (drop_bit k x) = a"
  have "x = a OR take_bit k x" unfolding a [symmetric] by (rule bit_word_eqI) (auto simp: bit_simps)
  moreover have "a + take_bit k x = a OR take_bit k x"
    by (rule disjunctive_add) (auto simp: a [symmetric] bit_simps)
  ultimately have "x - a = take_bit k x" by (metis add_diff_cancel_left')
  moreover have "unat (take_bit k x) < 2 ^ k" by (simp add: unsigned_take_bit_eq)
  ultimately show "in_range x a (2 ^ k)" by (simp add: in_range_def)
qed

lemma in_page_iff: "page_aligned p \<Longrightarrow> in_range x p 4096 \<longleftrightarrow> PGROUNDDOWN x = p"
proof -
  assume "page_aligned p"
  then have "in_range x p (2 ^ 12) \<longleftrightarrow> push_bit 12 (drop_bit 12 x) = p"
    by (intro in_range_aligned) (simp_all add: page_aligned_iff)
  moreover have "push_bit 12 (drop_bit 12 x) = PGROUNDDOWN x"
    by (rule bit_word_eqI) (auto simp: PGROUNDDOWN_bit bit_simps)
  ultimately show ?thesis by simp
qed

definition word_aligned :: "uint64 \<Rightarrow> bool" where
  "word_aligned a \<longleftrightarrow> a mod 8 = 0"

lemma word_aligned_iff: "word_aligned a \<longleftrightarrow> (\<forall>i < 3. \<not> bit a i)"
proof -
  have "a mod 8 = take_bit 3 a" by (simp add: take_bit_eq_mod)
  also have "take_bit 3 a = 0 \<longleftrightarrow> (\<forall>i < 3. \<not> bit a i)"
    by (auto simp: bit_eq_iff bit_simps dest: bit_imp_le_length)
  finally show ?thesis by (simp add: word_aligned_def)
qed

lemma page_word_aligned: "page_aligned p \<Longrightarrow> word_aligned p"
  by (simp add: page_aligned_iff word_aligned_iff)

lemma in_word_iff: "word_aligned a \<Longrightarrow> in_range x a 8 \<longleftrightarrow> push_bit 3 (drop_bit 3 x) = a"
  using in_range_aligned [of 3 a x] by (simp add: word_aligned_iff)

lemma load64_other:
  assumes "word_aligned a" and "word_aligned b" and "a \<noteq> b"
  shows "load64 (store64 a v m) b = load64 m b"
  by (rule load64_cong) (use assms in \<open>auto simp: in_word_iff intro!: store64_outside\<close>)

lemma in_word_page:
  assumes "word_aligned a" and "in_range x a 8"
  shows "PGROUNDDOWN x = PGROUNDDOWN a"
proof -
  have "push_bit 3 (drop_bit 3 x) = a" using assms by (simp add: in_word_iff)
  then show ?thesis by (intro bit_word_eqI) (auto simp: PGROUNDDOWN_bit bit_simps)
qed

text \<open>Filling a page, seen by loads of words.\<close>

lemma memset_page: "page_aligned p \<Longrightarrow> memset p c 4096 m = (\<lambda>x. if PGROUNDDOWN x = p then word_of_int c else m x)"
  by (simp add: memset_def memset_loop_eq in_page_iff)

lemma load64_memset_other:
  assumes "page_aligned p" and "word_aligned a" and "PGROUNDDOWN a \<noteq> p"
  shows "load64 (memset p c 4096 m) a = load64 m a"
  by (rule load64_cong) (use assms in_word_page [of a] in \<open>auto simp: memset_page\<close>)

lemma load64_memset_zero:
  assumes "page_aligned p" and "word_aligned a" and "PGROUNDDOWN a = p"
  shows "load64 (memset p 0 4096 m) a = 0"
  by (rule load64_zero) (use assms in_word_page [of a] in \<open>auto simp: memset_page\<close>)

end
