(* ===== verification/Kalloc.thy ===== *)
theory Kalloc
  imports Sched Memory
begin

text \<open>
  The physical page allocator (kernel/kalloc.c) and the memory layout (kernel/memlayout.h).

  The free list is threaded through the free pages themselves, in the byte memory \<open>pmem\<close>: the first
  word of a free page is the address of the next one. \<open>free_rep\<close> relates it to the list of free
  pages. \<open>end_sym\<close>, \<open>etext\<close> and \<open>trampoline\<close> are the symbols of the linker script.
  The interface \<open>page_allocator\<close> is what the virtual memory code relies on.
\<close>

section \<open>Memory layout (kernel/memlayout.h)\<close>

definition UART0 :: uint64 where "UART0 = 0x10000000"
definition VIRTIO0 :: uint64 where "VIRTIO0 = 0x10001000"
definition PLIC :: uint64 where "PLIC = 0x0c000000"
definition KERNBASE :: uint64 where "KERNBASE = 0x80000000"
definition PHYSTOP :: uint64 where "PHYSTOP = KERNBASE + 128 * 1024 * 1024"
definition TRAMPOLINE :: uint64 where "TRAMPOLINE = MAXVA - PGSIZE"
definition TRAPFRAME :: uint64 where "TRAPFRAME = TRAMPOLINE - PGSIZE"

definition KSTACK :: "nat \<Rightarrow> uint64" where
  "KSTACK p = TRAMPOLINE - (of_nat p + 1) * 2 * PGSIZE"

section \<open>Allocator (kernel/kalloc.c)\<close>

text \<open>Physical memory, \<^verbatim>\<open>kmem.freelist\<close> (0 is the null pointer), the kernel page table and \<^verbatim>\<open>satp\<close>.\<close>

record phys = kern +
  pmem :: mem
  freelist :: uint64
  end_sym :: uint64
  etext :: uint64
  trampoline :: uint64
  kernel_pagetable :: uint64
  satp :: "nat \<Rightarrow> uint64"

definition upd_mem :: "(mem \<Rightarrow> mem) \<Rightarrow> ('z) phys_scheme \<Rightarrow> ('z) phys_scheme" where
  "upd_mem f s = s\<lparr>pmem := f (pmem s)\<rparr>"

definition kfree :: "uint64 \<Rightarrow> ('z phys_scheme, unit) km" where
  "kfree pa = block [
     panic_if (\<lambda>s. pa mod PGSIZE \<noteq> 0 \<or> pa < end_sym s \<or> PHYSTOP \<le> pa) ''kfree'',
     modify (upd_mem (memset pa 1 4096)),
     acquire KmemLock,
     modify (\<lambda>s. upd_mem (store64 pa (freelist s)) s),
     modify (\<lambda>s. s\<lparr>freelist := pa\<rparr>),
     release KmemLock]"

definition kalloc :: "('z phys_scheme, uint64) km" where
  "kalloc = bind (acquire KmemLock) (\<lambda>_. bind (gets freelist) (\<lambda>r.
     bind (block [
       ifm (\<lambda>_. r \<noteq> 0) (modify (\<lambda>s. s\<lparr>freelist := load64 (pmem s) r\<rparr>)) skip,
       release KmemLock,
       ifm (\<lambda>_. r \<noteq> 0) (modify (upd_mem (memset r 5 4096))) skip]) (\<lambda>_. return r)))"

text \<open>
  The loop of \<^verbatim>\<open>freerange\<close>; the first argument bounds the number of turns. The pages between 0 and
  \<open>pa_end\<close> are enough turns for any range that does not wrap around the address space.
\<close>

primrec freerange_loop :: "nat \<Rightarrow> uint64 \<Rightarrow> uint64 \<Rightarrow> ('z phys_scheme, unit) km" where
  "freerange_loop 0 p pa_end = spin ''freerange''"
| "freerange_loop (Suc n) p pa_end =
     (if p + PGSIZE \<le> pa_end then bind (kfree p) (\<lambda>_. freerange_loop n (p + PGSIZE) pa_end) else skip)"

definition freerange :: "uint64 \<Rightarrow> uint64 \<Rightarrow> ('z phys_scheme, unit) km" where
  "freerange pa_start pa_end = freerange_loop (Suc (unat (pa_end div PGSIZE))) (PGROUNDUP pa_start) pa_end"

definition kinit :: "('z phys_scheme, unit) km" where
  "kinit = block [initlock KmemLock ''kmem'', bind (gets end_sym) (\<lambda>e. freerange e PHYSTOP)]"

section \<open>The free list\<close>

definition ptr :: "uint64 \<Rightarrow> uint64 option" where
  "ptr a = (if a = 0 then None else Some a)"

definition page_ok :: "('z) phys_scheme \<Rightarrow> uint64 \<Rightarrow> bool" where
  "page_ok s p \<longleftrightarrow> page_aligned p \<and> end_sym s \<le> p \<and> p < PHYSTOP \<and> p \<noteq> 0"

definition free_rep :: "('z) phys_scheme \<Rightarrow> uint64 list \<Rightarrow> bool" where
  "free_rep s ps \<longleftrightarrow> chain (\<lambda>p. ptr (load64 (pmem s) p)) (ptr (freelist s)) ps \<and> (\<forall>p \<in> set ps. page_ok s p)"

text \<open>Everything but the memory, the free list and the saved interrupt flag of an unlocked CPU.\<close>

definition not_mem :: "('z) phys_scheme \<Rightarrow> ('z) phys_scheme" where
  "not_mem s = (settle s)\<lparr>pmem := (\<lambda>_. 0), freelist := 0\<rparr>"

definition kmem_ready :: "('z) phys_scheme \<Rightarrow> bool" where
  "kmem_ready s \<longleftrightarrow> lock_free KmemLock s \<and> irq_wf s"

lemma ptr_Some: "a \<noteq> 0 \<Longrightarrow> ptr a = Some a"
  by (simp add: ptr_def)

lemma phys_comm [kcomm]:
  "(acq l s)\<lparr>pmem := m\<rparr> = acq l (s\<lparr>pmem := m\<rparr>)" "(acq l s)\<lparr>freelist := r\<rparr> = acq l (s\<lparr>freelist := r\<rparr>)"
  "(settle s)\<lparr>pmem := m\<rparr> = settle (s\<lparr>pmem := m\<rparr>)" "(settle s)\<lparr>freelist := r\<rparr> = settle (s\<lparr>freelist := r\<rparr>)"
  by (simp_all add: acq_def settle_def upd_cpu_def upd_lock_def cong: if_cong)

lemma phys_sels [simp]:
  "pmem (acq l s) = pmem s" "freelist (acq l s) = freelist s" "end_sym (acq l s) = end_sym s"
  "pmem (settle s) = pmem s" "freelist (settle s) = freelist s" "end_sym (settle s) = end_sym s"
  by (simp_all add: acq_def settle_def upd_cpu_def upd_lock_def)

lemma phys_ready [simp]:
  "lock_free l (s\<lparr>pmem := m\<rparr>) = lock_free l s" "lock_free l (s\<lparr>freelist := r\<rparr>) = lock_free l s"
  "irq_wf (s\<lparr>pmem := m\<rparr>) = irq_wf s" "irq_wf (s\<lparr>freelist := r\<rparr>) = irq_wf s"
  by (simp_all add: lock_free_def irq_wf_def)

lemma kalloc_eq:
  assumes "kmem_ready s"
  shows "kalloc s = Ok (freelist s) (if freelist s = 0 then settle s else
    settle (s\<lparr>freelist := load64 (pmem s) (freelist s), pmem := memset (freelist s) 5 4096 (pmem s)\<rparr>))"
  using assms by (simp add: kalloc_def kmem_ready_def upd_mem_def kcomm)

lemma kfree_eq:
  assumes "kmem_ready s" and "page_ok s pa"
  shows "kfree pa s = Ok () (settle (s\<lparr>pmem := store64 pa (freelist s) (memset pa 1 4096 (pmem s)), freelist := pa\<rparr>))"
  using assms by (simp add: kfree_def kmem_ready_def page_ok_def page_aligned_def upd_mem_def kcomm not_less not_le)

lemma page_okD: "page_ok s p \<Longrightarrow> page_aligned p" "page_ok s p \<Longrightarrow> p \<noteq> 0" "page_ok s p \<Longrightarrow> word_aligned p"
  "page_ok s p \<Longrightarrow> PGROUNDDOWN p = p"
  by (simp_all add: page_ok_def page_word_aligned PGROUNDDOWN_id)

lemma free_rep_cong:
  assumes "free_rep s ps" and "freelist t = freelist s" and "end_sym t = end_sym s"
    and "\<And>x. PGROUNDDOWN x \<in> set ps \<Longrightarrow> pmem t x = pmem s x"
  shows "free_rep t ps"
proof -
  have "load64 (pmem t) p = load64 (pmem s) p" if "p \<in> set ps" for p
  proof (rule load64_cong)
    fix x assume "in_range x p 8"
    moreover have "page_ok s p" using assms(1) that by (simp add: free_rep_def)
    ultimately have "PGROUNDDOWN x = p" using in_word_page page_okD by metis
    with assms(4) that show "pmem t x = pmem s x" by simp
  qed
  then have "chain (\<lambda>p. ptr (load64 (pmem t) p)) h ps = chain (\<lambda>p. ptr (load64 (pmem s) p)) h ps" for h
    by (intro chain_cong) simp
  with assms(1-3) show ?thesis by (simp add: free_rep_def page_ok_def)
qed

lemma kalloc_none: "kmem_ready s \<Longrightarrow> free_rep s [] \<Longrightarrow> kalloc s = Ok 0 (settle s)"
  by (simp add: kalloc_eq free_rep_def ptr_def split: if_splits)

lemma kalloc_some:
  assumes "kmem_ready s" and "free_rep s (p # ps)"
  shows "\<exists>t. kalloc s = Ok p t \<and> free_rep t ps \<and> not_mem t = not_mem s \<and>
    (\<forall>x. PGROUNDDOWN x \<noteq> p \<longrightarrow> pmem t x = pmem s x)"
proof -
  let ?u = "s\<lparr>freelist := load64 (pmem s) p\<rparr>"
  let ?t = "settle (s\<lparr>freelist := load64 (pmem s) p, pmem := memset p 5 4096 (pmem s)\<rparr>)"
  from assms(2) have p: "freelist s = p" "page_ok s p" and ch: "chain (\<lambda>p. ptr (load64 (pmem s) p)) (ptr (freelist s)) (p # ps)"
    by (auto simp: free_rep_def ptr_def split: if_splits)
  have np: "p \<notin> set ps" using chain_distinct [OF ch] by simp
  have out: "pmem ?t x = pmem s x" if "PGROUNDDOWN x \<noteq> p" for x
    using that page_okD(1) [OF p(2)] by (simp add: memset_page)
  have "free_rep ?u ps" using assms(2) by (simp add: free_rep_def page_ok_def)
  then have "free_rep ?t ps" by (rule free_rep_cong) (use np in \<open>auto intro!: out [simplified]\<close>)
  moreover have "not_mem ?t = not_mem s" by (simp add: not_mem_def kcomm)
  moreover have "kalloc s = Ok p ?t" using kalloc_eq [OF assms(1)] p(1) page_okD(2) [OF p(2)] by simp
  ultimately show ?thesis using out by blast
qed

lemma kfree_some:
  assumes "kmem_ready s" and "free_rep s ps" and "page_ok s p" and "p \<notin> set ps"
  shows "\<exists>t. kfree p s = Ok () t \<and> free_rep t (p # ps) \<and> not_mem t = not_mem s \<and>
    (\<forall>x. PGROUNDDOWN x \<noteq> p \<longrightarrow> pmem t x = pmem s x)"
proof -
  let ?m = "store64 p (freelist s) (memset p 1 4096 (pmem s))"
  let ?u = "s\<lparr>pmem := ?m\<rparr>" and ?t = "settle (s\<lparr>pmem := ?m, freelist := p\<rparr>)"
  have out: "?m x = pmem s x" if "PGROUNDDOWN x \<noteq> p" for x
  proof -
    have "\<not> in_range x p 8" using that in_word_page [of p x] page_okD [OF assms(3)] by auto
    then show ?thesis using that page_okD(1) [OF assms(3)] by (simp add: store64_outside memset_page)
  qed
  have "free_rep ?u ps" using assms(2) by (rule free_rep_cong) (use assms(4) in \<open>auto intro!: out\<close>)
  then have "free_rep ?t (p # ps)"
    using assms(3) page_okD(2) [OF assms(3)] by (simp add: free_rep_def page_ok_def ptr_Some)
  moreover have "not_mem ?t = not_mem s" by (simp add: not_mem_def kcomm)
  ultimately show ?thesis using kfree_eq [OF assms(1,3)] out by auto
qed

section \<open>The interface of the allocator\<close>

text \<open>
  What the rest of the kernel relies on: the free pages are a list of distinct valid pages; an
  allocation takes one of them and writes only inside it, or gives 0 when there is none; a page that
  is given back is free again. \<open>rest\<close> is the part of the state neither operation touches.
\<close>

locale page_allocator =
  fixes ready :: "'s \<Rightarrow> bool" and pages :: "'s \<Rightarrow> uint64 list \<Rightarrow> bool" and valid :: "'s \<Rightarrow> uint64 \<Rightarrow> bool"
    and memory :: "'s \<Rightarrow> mem" and rest :: "'s \<Rightarrow> 'r"
    and alloc :: "('s, uint64) km" and free :: "uint64 \<Rightarrow> ('s, unit) km"
  assumes alloc_none: "ready s \<Longrightarrow> pages s [] \<Longrightarrow> \<exists>t. alloc s = Ok 0 t \<and> pages t [] \<and> rest t = rest s \<and> memory t = memory s"
    and alloc_some: "ready s \<Longrightarrow> pages s (p # ps) \<Longrightarrow> \<exists>t. alloc s = Ok p t \<and> pages t ps \<and> rest t = rest s \<and>
      (\<forall>x. PGROUNDDOWN x \<noteq> p \<longrightarrow> memory t x = memory s x)"
    and free_some: "ready s \<Longrightarrow> pages s ps \<Longrightarrow> valid s p \<Longrightarrow> p \<notin> set ps \<Longrightarrow>
      \<exists>t. free p s = Ok () t \<and> pages t (p # ps) \<and> rest t = rest s \<and>
        (\<forall>x. PGROUNDDOWN x \<noteq> p \<longrightarrow> memory t x = memory s x)"
    and pages_valid: "pages s ps \<Longrightarrow> distinct ps \<and> (\<forall>p \<in> set ps. valid s p \<and> p \<noteq> 0 \<and> page_aligned p)"
    and ready_rest: "rest t = rest s \<Longrightarrow> ready t = ready s"
    and valid_rest: "rest t = rest s \<Longrightarrow> valid t = valid s"
begin

primrec alloc_many :: "nat \<Rightarrow> ('s, uint64 list) km" where
  "alloc_many 0 = return []"
| "alloc_many (Suc n) = bind alloc (\<lambda>p. bind (alloc_many n) (\<lambda>ps. return (p # ps)))"

text \<open>Any number of allocations: the free pages in their order, then 0, and nothing outside of these pages changes.\<close>

lemma alloc_many_pages:
  assumes "ready s" and "pages s ps"
  shows "\<exists>t. alloc_many n s = Ok (take n ps @ replicate (n - length ps) 0) t \<and> pages t (drop n ps) \<and> rest t = rest s \<and>
    (\<forall>x. PGROUNDDOWN x \<notin> set (take n ps) \<longrightarrow> memory t x = memory s x)"
  using assms
proof (induction n arbitrary: s ps)
  case 0
  then show ?case by simp
next
  case (Suc n)
  have "\<exists>u. alloc s = Ok (case ps of [] \<Rightarrow> 0 | p # _ \<Rightarrow> p) u \<and> pages u (tl ps) \<and> rest u = rest s \<and>
    (\<forall>x. PGROUNDDOWN x \<notin> set (take 1 ps) \<longrightarrow> memory u x = memory s x)"
    using alloc_none [of s] alloc_some [of s] Suc.prems by (cases ps) auto
  then obtain u where u: "alloc s = Ok (case ps of [] \<Rightarrow> 0 | p # _ \<Rightarrow> p) u" "pages u (tl ps)" "rest u = rest s"
    "\<And>x. PGROUNDDOWN x \<notin> set (take 1 ps) \<Longrightarrow> memory u x = memory s x" by blast
  from Suc.IH [OF _ u(2)] ready_rest [OF u(3)] Suc.prems(1) obtain t where
    t: "alloc_many n u = Ok (take n (tl ps) @ replicate (n - length (tl ps)) 0) t" "pages t (drop n (tl ps))" "rest t = rest u"
      "\<And>x. PGROUNDDOWN x \<notin> set (take n (tl ps)) \<Longrightarrow> memory t x = memory u x" by auto
  from u t show ?case by (cases ps) (auto intro!: exI [of _ t])
qed

text \<open>Giving a page back and allocating again returns that page.\<close>

lemma free_alloc:
  assumes "ready s" and "pages s ps" and "valid s p" and "p \<notin> set ps"
  shows "\<exists>t. bind (free p) (\<lambda>_. alloc) s = Ok p t \<and> pages t ps \<and> rest t = rest s \<and>
    (\<forall>x. PGROUNDDOWN x \<noteq> p \<longrightarrow> memory t x = memory s x)"
proof -
  from free_some [OF assms] obtain u where u: "free p s = Ok () u" "pages u (p # ps)" "rest u = rest s"
    "\<And>x. PGROUNDDOWN x \<noteq> p \<Longrightarrow> memory u x = memory s x" by blast
  from alloc_some [OF _ u(2)] ready_rest [OF u(3)] assms(1) obtain t where
    "alloc u = Ok p t" "pages t ps" "rest t = rest u" "\<And>x. PGROUNDDOWN x \<noteq> p \<Longrightarrow> memory t x = memory u x" by auto
  with u show ?thesis by (intro exI [of _ t]) auto
qed

end

interpretation ka: page_allocator kmem_ready free_rep page_ok pmem not_mem kalloc kfree
proof unfold_locales
  fix s t :: "'a phys_scheme" and p ps
  show "\<exists>t. kalloc s = Ok 0 t \<and> free_rep t [] \<and> not_mem t = not_mem s \<and> pmem t = pmem s"
    if "kmem_ready s" "free_rep s []"
    using kalloc_none [OF that] that by (auto simp: free_rep_def not_mem_def)
  show "\<exists>t. kalloc s = Ok p t \<and> free_rep t ps \<and> not_mem t = not_mem s \<and> (\<forall>x. PGROUNDDOWN x \<noteq> p \<longrightarrow> pmem t x = pmem s x)"
    if "kmem_ready s" "free_rep s (p # ps)" using kalloc_some [OF that] .
  show "\<exists>t. kfree p s = Ok () t \<and> free_rep t (p # ps) \<and> not_mem t = not_mem s \<and>
      (\<forall>x. PGROUNDDOWN x \<noteq> p \<longrightarrow> pmem t x = pmem s x)"
    if "kmem_ready s" "free_rep s ps" "page_ok s p" "p \<notin> set ps" using kfree_some [OF that] .
  show "distinct ps \<and> (\<forall>p \<in> set ps. page_ok s p \<and> p \<noteq> 0 \<and> page_aligned p)" if "free_rep s ps"
    using that chain_distinct by (auto simp: free_rep_def page_ok_def)
  assume same: "not_mem t = not_mem s"
  have "irq_wf (settle t) = irq_wf (settle s)" "lock_free KmemLock (settle t) = lock_free KmemLock (settle s)" "end_sym t = end_sym s"
    using arg_cong [OF same, of irq_wf] arg_cong [OF same, of "lock_free KmemLock"] arg_cong [OF same, of end_sym]
    by (simp_all add: not_mem_def)
  then show "kmem_ready t = kmem_ready s" "page_ok t = page_ok s"
    by (simp_all add: kmem_ready_def page_ok_def fun_eq_iff)
qed

section \<open>kinit\<close>

lemma aligned_unat: "page_aligned p \<longleftrightarrow> unat p mod 4096 = 0"
  by (simp add: page_aligned_def PGSIZE_def word_unat_eq_iff unat_mod)

lemma aligned_step:
  assumes "page_aligned p" and "page_aligned q" and "p < q"
  shows "p + PGSIZE \<le> q" and "unat (p + PGSIZE) = unat p + 4096" and "page_aligned (p + PGSIZE)"
proof -
  obtain a b where ab: "unat p = 4096 * a" "unat q = 4096 * b"
    using assms(1,2) by (metis aligned_unat mod_0_imp_dvd dvdE)
  with assms(3) have "a < b" by (simp add: word_less_nat_alt)
  then have le: "unat p + 4096 \<le> unat q" using ab by simp
  moreover have "unat q < 2 ^ 64" using unsigned_less [of q, where ?'a = nat] by simp
  ultimately show s: "unat (p + PGSIZE) = unat p + 4096"
    using unat_add_nat [of p 4096] by (simp add: PGSIZE_def)
  show "p + PGSIZE \<le> q" using le s by (simp add: word_le_nat_alt)
  show "page_aligned (p + PGSIZE)" using s ab by (simp add: aligned_unat)
qed

lemma PHYSTOP_aligned: "page_aligned PHYSTOP"
  by (simp add: page_aligned_def PHYSTOP_def KERNBASE_def PGSIZE_def)

lemma pages_from:
  assumes "page_aligned p" and "p < PHYSTOP"
  shows "{q. page_aligned q \<and> p \<le> q \<and> q < PHYSTOP} =
    insert p {q. page_aligned q \<and> p + PGSIZE \<le> q \<and> q < PHYSTOP}"
proof -
  have "p < p + PGSIZE" using aligned_step(2) [OF assms(1) PHYSTOP_aligned assms(2)] by (simp add: word_less_nat_alt)
  moreover have "p + PGSIZE \<le> q" if "page_aligned q" "p \<le> q" "q \<noteq> p" for q
    using aligned_step(1) [OF assms(1) that(1)] that by (simp add: less_le)
  ultimately show ?thesis using assms by auto
qed

lemma freerange_loop_pages:
  assumes "kmem_ready s" and "free_rep s ps" and "page_aligned p" and "end_sym s \<le> p" and "0 < p" and "p \<le> PHYSTOP"
    and "\<And>q. q \<in> set ps \<Longrightarrow> q < p" and "unat PHYSTOP div 4096 < n + unat p div 4096"
  shows "\<exists>t qs. freerange_loop n p PHYSTOP s = Ok () t \<and> free_rep t qs \<and>
    set qs = set ps \<union> {q. page_aligned q \<and> p \<le> q \<and> q < PHYSTOP}"
  using assms
proof (induction n arbitrary: s p ps)
  case 0
  then have "unat p \<le> unat PHYSTOP" by (simp add: word_le_nat_alt)
  then have "unat p div 4096 \<le> unat PHYSTOP div 4096" by (rule div_le_mono)
  with 0 show ?case by simp
next
  case (Suc n)
  show ?case
  proof (cases "p < PHYSTOP")
    case True
    note st = aligned_step [OF Suc.prems(3) PHYSTOP_aligned True]
    have pok: "page_ok s p" using Suc.prems True by (simp add: page_ok_def)
    from ka.free_some [OF Suc.prems(1,2) pok] Suc.prems(7) obtain u where u: "kfree p s = Ok () u" "free_rep u (p # ps)"
      and same: "not_mem u = not_mem s" by force
    have e: "end_sym u = end_sym s" using arg_cong [OF same, of end_sym] by (simp add: not_mem_def)
    have lt: "p < p + PGSIZE" using st(2) by (simp add: word_less_nat_alt)
    have "\<exists>t qs. freerange_loop n (p + PGSIZE) PHYSTOP u = Ok () t \<and> free_rep t qs \<and>
        set qs = set (p # ps) \<union> {q. page_aligned q \<and> p + PGSIZE \<le> q \<and> q < PHYSTOP}"
    proof (rule Suc.IH [OF _ u(2) st(3)])
      show "kmem_ready u" using ka.ready_rest [OF same] Suc.prems(1) by simp
      show "end_sym u \<le> p + PGSIZE" "0 < p + PGSIZE" using e Suc.prems(4,5) lt by auto
      show "q < p + PGSIZE" if "q \<in> set (p # ps)" for q using that Suc.prems(7) lt by (auto intro: less_trans)
      show "unat PHYSTOP div 4096 < n + unat (p + PGSIZE) div 4096" using Suc.prems(8) st(2) by simp
    qed (rule st(1))
    with u(1) st(1) pages_from [OF Suc.prems(3) True] show ?thesis by fastforce
  next
    case False
    then have p: "p = PHYSTOP" using Suc.prems(6) by simp
    have "\<not> PHYSTOP + PGSIZE \<le> PHYSTOP" by (simp add: PHYSTOP_def KERNBASE_def PGSIZE_def)
    then show ?thesis using Suc.prems(2) p by auto
  qed
qed

lemma unat_PGROUNDDOWN: "unat (PGROUNDDOWN a) = unat a div 4096 * 4096"
proof -
  have "unat (a mod PGSIZE) = unat a mod 4096" by (simp add: PGSIZE_def unat_mod)
  moreover have "a mod PGSIZE \<le> a" by (simp add: word_le_nat_alt unat_mod)
  ultimately have "unat (PGROUNDDOWN a) = unat a - unat a mod 4096" by (simp only: PGROUNDDOWN_eq unat_sub)
  then show ?thesis by (simp add: minus_mod_eq_div_mult)
qed

lemma unat_PGROUNDUP: "unat a + 4095 < 2 ^ 64 \<Longrightarrow> unat (PGROUNDUP a) = (unat a + 4095) div 4096 * 4096"
proof -
  assume a: "unat a + 4095 < 2 ^ 64"
  have "a + PGSIZE - 1 = a + of_nat 4095" by (simp add: PGSIZE_def)
  with unat_add_nat [OF a] show ?thesis by (simp only: PGROUNDUP_eq unat_PGROUNDDOWN)
qed

text \<open>\<^verbatim>\<open>PGROUNDUP\<close> gives the least page address that is not below its argument.\<close>

lemma PGROUNDUP_le_iff:
  assumes "page_aligned q" and "unat a + 4095 < 2 ^ 64"
  shows "PGROUNDUP a \<le> q \<longleftrightarrow> a \<le> q"
proof -
  obtain b where "unat q = 4096 * b" using assms(1) by (metis aligned_unat mod_0_imp_dvd dvdE)
  moreover have "(unat a + 4095) div 4096 < Suc b \<longleftrightarrow> unat a + 4095 < Suc b * 4096"
    by (rule div_less_iff_less_mult) simp
  ultimately show ?thesis using assms(2) by (auto simp: word_le_nat_alt unat_PGROUNDUP)
qed

lemma PGROUNDUP_ge: "unat a + 4095 < 2 ^ 64 \<Longrightarrow> a \<le> PGROUNDUP a"
  by (simp add: word_le_nat_alt unat_PGROUNDUP)

text \<open>
  C10. \<^verbatim>\<open>kinit\<close> returns, and afterwards the free list holds exactly the pages that lie between the end
  of the kernel and \<^verbatim>\<open>PHYSTOP\<close>, each of them once.
\<close>

theorem kinit_frees_all_pages:
  assumes "irq_wf s" and "freelist s = 0" and "0 < end_sym s" and "end_sym s \<le> PHYSTOP"
  shows "\<exists>t ps. kinit s = Ok () t \<and> free_rep t ps \<and> distinct ps \<and> set ps = {p. page_ok s p}"
proof -
  let ?u = "upd_lock KmemLock (\<lambda>k. k\<lparr>lk_name := ''kmem'', locked := False, lk_cpu := None\<rparr>) s"
  let ?p = "PGROUNDUP (end_sym s)"
  have b: "unat (end_sym s) + 4095 < 2 ^ 64"
    using assms(4) by (simp add: word_le_nat_alt PHYSTOP_def KERNBASE_def)
  have u: "kmem_ready ?u" "free_rep ?u []" "end_sym ?u = end_sym s"
    using assms(1,2) by (simp_all add: kmem_ready_def lock_free_def irq_wf_def free_rep_def ptr_def upd_lock_def)
  have "\<exists>t qs. freerange_loop (Suc (unat (PHYSTOP div PGSIZE))) ?p PHYSTOP ?u = Ok () t \<and> free_rep t qs \<and>
      set qs = set [] \<union> {q. page_aligned q \<and> ?p \<le> q \<and> q < PHYSTOP}"
  proof (rule freerange_loop_pages [OF u(1,2)])
    show "end_sym ?u \<le> ?p" "0 < ?p" using PGROUNDUP_ge [OF b] assms(3) u(3) by auto
    show "?p \<le> PHYSTOP" using PGROUNDUP_le_iff [OF PHYSTOP_aligned b] assms(4) by simp
    show "unat PHYSTOP div 4096 < Suc (unat (PHYSTOP div PGSIZE)) + unat ?p div 4096"
      by (simp add: PGSIZE_def unat_div)
  qed simp_all
  then obtain t qs where "freerange (end_sym s) PHYSTOP ?u = Ok () t" and rep: "free_rep t qs"
    and set: "set qs = {q. page_aligned q \<and> ?p \<le> q \<and> q < PHYSTOP}" unfolding freerange_def by auto
  then have "kinit s = Ok () t" by (simp add: kinit_def initlock_def u(3))
  moreover have "set qs = {p. page_ok s p}"
  proof -
    have "page_aligned q \<and> ?p \<le> q \<and> q < PHYSTOP \<longleftrightarrow> page_ok s q" for q
      using PGROUNDUP_le_iff [OF _ b, of q] assms(3) by (cases "q = 0") (auto simp: page_ok_def)
    with set show ?thesis by blast
  qed
  ultimately show ?thesis using rep ka.pages_valid [OF rep] by blast
qed

text \<open>A machine with six free pages, for the examples below.\<close>

definition small_machine :: phys where
  "small_machine = kern.extend zero_sched
     (phys.fields (\<lambda>_. 0) 0 (PHYSTOP - 6 * PGSIZE) (KERNBASE + PGSIZE) KERNBASE 0 (\<lambda>_. 0))"

lemma small_machine_sels [simp]:
  "irq_wf small_machine" "lock_free l small_machine" "freelist small_machine = 0"
  "end_sym small_machine = PHYSTOP - 6 * PGSIZE" "c_proc (this_cpu small_machine) = None"
  by (simp_all add: small_machine_def zero_sched_def kern.defs phys.defs irq_wf_def lock_free_def)

theorem kinit_frees_all_pages_witness:
  "\<exists>t ps. kinit small_machine = Ok () t \<and> free_rep t ps \<and> distinct ps \<and> set ps = {p. page_ok small_machine p}"
  by (rule kinit_frees_all_pages) (simp_all add: PHYSTOP_def KERNBASE_def PGSIZE_def)

text \<open>A state with the two top pages free.\<close>

definition two_free :: phys where
  "two_free = small_machine\<lparr>freelist := PHYSTOP - 2 * PGSIZE,
     pmem := store64 (PHYSTOP - 2 * PGSIZE) (PHYSTOP - PGSIZE) (\<lambda>_. 0)\<rparr>"

lemma two_free_rep: "free_rep two_free [PHYSTOP - 2 * PGSIZE, PHYSTOP - PGSIZE]"
proof -
  have "load64 (store64 (PHYSTOP - 2 * PGSIZE) (PHYSTOP - PGSIZE) (\<lambda>_. 0)) (PHYSTOP - PGSIZE) = load64 (\<lambda>_. 0) (PHYSTOP - PGSIZE)"
    by (rule load64_other) (simp_all add: word_aligned_def PHYSTOP_def KERNBASE_def PGSIZE_def)
  moreover have "load64 (\<lambda>_. 0) (PHYSTOP - PGSIZE) = 0" by (rule load64_zero) simp
  ultimately show ?thesis
    by (simp add: free_rep_def two_free_def ptr_def page_ok_def page_aligned_def PHYSTOP_def KERNBASE_def PGSIZE_def)
qed

lemma two_free_ready: "kmem_ready two_free"
  by (simp add: kmem_ready_def two_free_def)

text \<open>A program that calls \<^verbatim>\<open>kalloc\<close> \<open>n\<close> times.\<close>

primrec kallocs :: "nat \<Rightarrow> ('z phys_scheme, uint64 list) km" where
  "kallocs 0 = return []"
| "kallocs (Suc n) = bind kalloc (\<lambda>p. bind (kallocs n) (\<lambda>ps. return (p # ps)))"

lemma kallocs_many: "kallocs n = ka.alloc_many n"
  by (induction n) simp_all

text \<open>
  C11. However often \<^verbatim>\<open>kalloc\<close> is called, the calls return the pages of the free list one after the
  other, which are valid, pairwise different and not 0, and from the first call that finds the list
  empty on they return 0. The pages that were not handed out are still free, the allocator is ready
  for further calls, and no byte outside the pages returned has changed.
\<close>

theorem kalloc_distinct_pages:
  assumes "kmem_ready s" and "free_rep s ps"
  shows "distinct ps \<and> (\<forall>p \<in> set ps. page_ok s p \<and> p \<noteq> 0) \<and>
    (\<exists>t. kallocs n s = Ok (take n ps @ replicate (n - length ps) 0) t \<and> free_rep t (drop n ps) \<and> kmem_ready t \<and>
      (\<forall>x. PGROUNDDOWN x \<in> set (take n ps) \<or> pmem t x = pmem s x))"
  using ka.alloc_many_pages [OF assms, of n] ka.pages_valid [OF assms(2)] ka.ready_rest assms(1)
  unfolding kallocs_many by blast

theorem kalloc_distinct_pages_witness:
  "\<exists>t. kallocs 3 two_free = Ok [PHYSTOP - 2 * PGSIZE, PHYSTOP - PGSIZE, 0] t \<and> free_rep t [] \<and> kmem_ready t"
  using kalloc_distinct_pages [OF two_free_ready two_free_rep, of 3] by (auto simp: numeral_3_eq_3 simp del: kallocs.simps)

text \<open>
  C12. \<^verbatim>\<open>kfree\<close> of a page that is in use puts it back: the next \<^verbatim>\<open>kalloc\<close> returns it, the set of free
  pages is what it was, and no other memory has changed; with no page free \<^verbatim>\<open>kalloc\<close> returns 0.
\<close>

theorem kfree_kalloc_roundtrip:
  assumes "kmem_ready s" and "free_rep s ps" and "page_ok s p" and "p \<notin> set ps"
  shows "\<exists>t. bind (kfree p) (\<lambda>_. kalloc) s = Ok p t \<and> free_rep t ps \<and>
    (\<forall>x. PGROUNDDOWN x = p \<or> pmem t x = pmem s x) \<and> (ps = [] \<longrightarrow> (\<exists>u. kalloc s = Ok 0 u))"
  using ka.free_alloc [OF assms] ka.alloc_none [OF assms(1)] assms(2) by blast

theorem kfree_kalloc_roundtrip_witness:
  "\<exists>t. bind (kfree (PHYSTOP - PGSIZE)) (\<lambda>_. kalloc) small_machine = Ok (PHYSTOP - PGSIZE) t \<and> free_rep t []"
proof -
  have "kmem_ready small_machine" "free_rep small_machine []" "page_ok small_machine (PHYSTOP - PGSIZE)"
    by (simp_all add: kmem_ready_def free_rep_def ptr_def page_ok_def page_aligned_def PHYSTOP_def KERNBASE_def PGSIZE_def)
  with kfree_kalloc_roundtrip [of small_machine "[]" "PHYSTOP - PGSIZE"] show ?thesis by auto
qed

end
