(* ===== verification/Vm.thy ===== *)
theory Vm
  imports Kalloc "HOL-Library.Sublist"
begin

text \<open>
  Page tables and user memory (kernel/vm.c).

  A page table is a tree of pages in the byte memory, as in the code: an entry is the 64-bit word at
  the table's address plus eight times the index. \<^verbatim>\<open>walk\<close> returns the address of an entry, 0 for the
  null pointer. The kernel side of \<^verbatim>\<open>copyout\<close> and \<^verbatim>\<open>copyin\<close> is given by the bytes at the kernel address:
  the bytes to copy, and the bytes that were copied.
  Loops whose number of turns depends on their arguments carry a bound on it, and end in \<open>Spin\<close> if it
  is not enough.
\<close>

section \<open>Walking and mapping\<close>

definition load_pte :: "uint64 \<Rightarrow> ('z phys_scheme, uint64) km" where
  "load_pte pte = gets (\<lambda>s. load64 (pmem s) pte)"

definition store_pte :: "uint64 \<Rightarrow> uint64 \<Rightarrow> ('z phys_scheme, unit) km" where
  "store_pte pte e = modify (upd_mem (store64 pte e))"

primrec walk_loop :: "nat \<Rightarrow> uint64 \<Rightarrow> uint64 \<Rightarrow> bool \<Rightarrow> ('z phys_scheme, uint64) km" where
  "walk_loop 0 pt va alloc = return (pt + 8 * PX 0 va)"
| "walk_loop (Suc level) pt va alloc = bind (load_pte (pt + 8 * PX (Suc level) va)) (\<lambda>pte.
     if pte AND PTE_V \<noteq> 0 then walk_loop level (PTE2PA pte) va alloc
     else if \<not> alloc then return 0
     else bind kalloc (\<lambda>new. if new = 0 then return 0
       else bind (modify (upd_mem (memset new 0 4096))) (\<lambda>_.
         bind (store_pte (pt + 8 * PX (Suc level) va) (PA2PTE new OR PTE_V)) (\<lambda>_.
           walk_loop level new va alloc))))"

definition walk :: "uint64 \<Rightarrow> uint64 \<Rightarrow> bool \<Rightarrow> ('z phys_scheme, uint64) km" where
  "walk pt va alloc = bind (panic_if (\<lambda>_. MAXVA \<le> va) ''walk'') (\<lambda>_. walk_loop 2 pt va alloc)"

definition walkaddr :: "uint64 \<Rightarrow> uint64 \<Rightarrow> ('z phys_scheme, uint64) km" where
  "walkaddr pt va = (if MAXVA \<le> va then return 0 else bind (walk pt va False) (\<lambda>pte.
     if pte = 0 then return 0 else bind (load_pte pte) (\<lambda>e.
       if e AND PTE_V = 0 then return 0
       else if e AND PTE_U = 0 then return 0
       else return (PTE2PA e))))"

primrec mappages_loop :: "nat \<Rightarrow> uint64 \<Rightarrow> uint64 \<Rightarrow> uint64 \<Rightarrow> uint64 \<Rightarrow> uint64 \<Rightarrow> ('z phys_scheme, int) km" where
  "mappages_loop 0 pt a lasta pa perm = spin ''mappages''"
| "mappages_loop (Suc n) pt a lasta pa perm = bind (walk pt a True) (\<lambda>pte.
     if pte = 0 then return (-1) else bind (load_pte pte) (\<lambda>e.
       if e AND PTE_V \<noteq> 0 then panic ''mappages: remap''
       else bind (store_pte pte (PA2PTE pa OR perm OR PTE_V)) (\<lambda>_.
         if a = lasta then return 0
         else mappages_loop n pt (a + PGSIZE) lasta (pa + PGSIZE) perm)))"

definition mappages :: "uint64 \<Rightarrow> uint64 \<Rightarrow> uint64 \<Rightarrow> uint64 \<Rightarrow> uint64 \<Rightarrow> ('z phys_scheme, int) km" where
  "mappages pt va len pa perm =
     bind (block [
       panic_if (\<lambda>_. va mod PGSIZE \<noteq> 0) ''mappages: va not aligned'',
       panic_if (\<lambda>_. len mod PGSIZE \<noteq> 0) ''mappages: size not aligned'',
       panic_if (\<lambda>_. len = 0) ''mappages: size'']) (\<lambda>_.
     mappages_loop (unat (len div PGSIZE)) pt va (va + len - PGSIZE) pa perm)"

definition ismapped :: "uint64 \<Rightarrow> uint64 \<Rightarrow> ('z phys_scheme, bool) km" where
  "ismapped pt va = bind (walk pt va False) (\<lambda>pte. if pte = 0 then return False
     else bind (load_pte pte) (\<lambda>e. return (e AND PTE_V \<noteq> 0)))"

section \<open>The kernel page table\<close>

definition kvmmap :: "uint64 \<Rightarrow> uint64 \<Rightarrow> uint64 \<Rightarrow> uint64 \<Rightarrow> uint64 \<Rightarrow> ('z phys_scheme, unit) km" where
  "kvmmap pt va pa len perm = bind (mappages pt va len pa perm) (\<lambda>r.
     if r \<noteq> 0 then panic ''kvmmap'' else skip)"

text \<open>\<^verbatim>\<open>proc_mapstacks\<close> (kernel/proc.c): a kernel stack page for every process.\<close>

definition proc_mapstacks :: "uint64 \<Rightarrow> ('z phys_scheme, unit) km" where
  "proc_mapstacks pt = for_each [0..<NPROC] (\<lambda>p. bind kalloc (\<lambda>pa.
     if pa = 0 then panic ''kalloc'' else kvmmap pt (KSTACK p) pa PGSIZE (PTE_R OR PTE_W)))"

definition kvmmake :: "('z phys_scheme, uint64) km" where
  "kvmmake = bind kalloc (\<lambda>pt. bind (block [
     modify (upd_mem (memset pt 0 4096)),
     kvmmap pt UART0 UART0 PGSIZE (PTE_R OR PTE_W),
     kvmmap pt VIRTIO0 VIRTIO0 PGSIZE (PTE_R OR PTE_W),
     kvmmap pt PLIC PLIC 0x4000000 (PTE_R OR PTE_W),
     bind (gets etext) (\<lambda>e. kvmmap pt KERNBASE KERNBASE (e - KERNBASE) (PTE_R OR PTE_X)),
     bind (gets etext) (\<lambda>e. kvmmap pt e e (PHYSTOP - e) (PTE_R OR PTE_W)),
     bind (gets trampoline) (\<lambda>t. kvmmap pt TRAMPOLINE t PGSIZE (PTE_R OR PTE_X)),
     proc_mapstacks pt]) (\<lambda>_. return pt))"

definition kvminit :: "('z phys_scheme, unit) km" where
  "kvminit = bind kvmmake (\<lambda>pt. modify (\<lambda>s. s\<lparr>kernel_pagetable := pt\<rparr>))"

definition SATP_SV39 :: uint64 where "SATP_SV39 = push_bit 60 8"

definition MAKE_SATP :: "uint64 \<Rightarrow> uint64" where
  "MAKE_SATP pt = SATP_SV39 OR drop_bit 12 pt"

text \<open>The fences around the write of \<^verbatim>\<open>satp\<close> have no effect on a memory without a translation cache.\<close>

definition kvminithart :: "('z phys_scheme, unit) km" where
  "kvminithart = modify (\<lambda>s. s\<lparr>satp := (satp s)(tp s := MAKE_SATP (kernel_pagetable s))\<rparr>)"

section \<open>User memory\<close>

definition uvmcreate :: "('z phys_scheme, uint64) km" where
  "uvmcreate = bind kalloc (\<lambda>pt. if pt = 0 then return 0
     else bind (modify (upd_mem (memset pt 0 4096))) (\<lambda>_. return pt))"

primrec uvmunmap_loop :: "nat \<Rightarrow> uint64 \<Rightarrow> uint64 \<Rightarrow> uint64 \<Rightarrow> bool \<Rightarrow> ('z phys_scheme, unit) km" where
  "uvmunmap_loop 0 pt a stop do_free = spin ''uvmunmap''"
| "uvmunmap_loop (Suc n) pt a stop do_free =
     (if a < stop then bind (walk pt a False) (\<lambda>pte.
        bind (if pte = 0 then skip else bind (load_pte pte) (\<lambda>e.
          if e AND PTE_V = 0 then skip
          else block [if do_free then kfree (PTE2PA e) else skip, store_pte pte 0]))
        (\<lambda>_. uvmunmap_loop n pt (a + PGSIZE) stop do_free))
      else skip)"

definition uvmunmap :: "uint64 \<Rightarrow> uint64 \<Rightarrow> uint64 \<Rightarrow> bool \<Rightarrow> ('z phys_scheme, unit) km" where
  "uvmunmap pt va npages do_free = block [
     panic_if (\<lambda>_. va mod PGSIZE \<noteq> 0) ''uvmunmap: not aligned'',
     uvmunmap_loop (Suc (unat npages)) pt va (va + npages * PGSIZE) do_free]"

definition uvmdealloc :: "uint64 \<Rightarrow> uint64 \<Rightarrow> uint64 \<Rightarrow> ('z phys_scheme, uint64) km" where
  "uvmdealloc pt oldsz newsz = (if oldsz \<le> newsz then return oldsz else
     bind (if PGROUNDUP newsz < PGROUNDUP oldsz
           then let npages = ucast ((PGROUNDUP oldsz - PGROUNDUP newsz) div PGSIZE) :: 32 word
             in uvmunmap pt (PGROUNDUP newsz) (scast npages) True
           else skip) (\<lambda>_. return newsz))"

primrec uvmalloc_loop :: "nat \<Rightarrow> uint64 \<Rightarrow> uint64 \<Rightarrow> uint64 \<Rightarrow> uint64 \<Rightarrow> uint64 \<Rightarrow> ('z phys_scheme, uint64) km" where
  "uvmalloc_loop 0 pt a oldsz newsz xperm = spin ''uvmalloc''"
| "uvmalloc_loop (Suc n) pt a oldsz newsz xperm =
     (if a < newsz then bind kalloc (\<lambda>mem.
        if mem = 0 then bind (uvmdealloc pt a oldsz) (\<lambda>_. return 0)
        else bind (modify (upd_mem (memset mem 0 4096))) (\<lambda>_.
          bind (mappages pt a PGSIZE mem (PTE_R OR PTE_U OR xperm)) (\<lambda>r.
            if r \<noteq> 0 then bind (kfree mem) (\<lambda>_. bind (uvmdealloc pt a oldsz) (\<lambda>_. return 0))
            else uvmalloc_loop n pt (a + PGSIZE) oldsz newsz xperm)))
      else return newsz)"

definition uvmalloc :: "uint64 \<Rightarrow> uint64 \<Rightarrow> uint64 \<Rightarrow> uint64 \<Rightarrow> ('z phys_scheme, uint64) km" where
  "uvmalloc pt oldsz newsz xperm = (if newsz < oldsz then return oldsz
     else uvmalloc_loop (unat (newsz div PGSIZE) + 2) pt (PGROUNDUP oldsz) (PGROUNDUP oldsz) newsz xperm)"

text \<open>
  The recursion of \<^verbatim>\<open>freewalk\<close> goes down one level per call. The bound is the number of physical pages,
  more than any chain of different pages.
\<close>

primrec freewalk_at :: "nat \<Rightarrow> uint64 \<Rightarrow> ('z phys_scheme, unit) km" where
  "freewalk_at 0 pt = spin ''freewalk''"
| "freewalk_at (Suc n) pt = bind (for_each [0..<512] (\<lambda>i.
     bind (load_pte (pt + 8 * of_nat i)) (\<lambda>pte.
       if pte AND PTE_V \<noteq> 0 \<and> pte AND (PTE_R OR PTE_W OR PTE_X) = 0
       then bind (freewalk_at n (PTE2PA pte)) (\<lambda>_. store_pte (pt + 8 * of_nat i) 0)
       else if pte AND PTE_V \<noteq> 0 then panic ''freewalk: leaf''
       else skip))) (\<lambda>_. kfree pt)"

definition freewalk :: "uint64 \<Rightarrow> ('z phys_scheme, unit) km" where
  "freewalk pt = freewalk_at (unat (PHYSTOP div PGSIZE)) pt"

definition uvmfree :: "uint64 \<Rightarrow> uint64 \<Rightarrow> ('z phys_scheme, unit) km" where
  "uvmfree pt len = block [
     if 0 < len then uvmunmap pt 0 (PGROUNDUP len div PGSIZE) True else skip,
     freewalk pt]"

primrec uvmcopy_loop :: "nat \<Rightarrow> uint64 \<Rightarrow> uint64 \<Rightarrow> uint64 \<Rightarrow> uint64 \<Rightarrow> ('z phys_scheme, int) km" where
  "uvmcopy_loop 0 old new i len = spin ''uvmcopy''"
| "uvmcopy_loop (Suc n) old new i len =
     (if i < len then bind (walk old i False) (\<lambda>pte.
        if pte = 0 then uvmcopy_loop n old new (i + PGSIZE) len
        else bind (load_pte pte) (\<lambda>e.
          if e AND PTE_V = 0 then uvmcopy_loop n old new (i + PGSIZE) len
          else bind kalloc (\<lambda>mem.
            if mem = 0 then bind (uvmunmap new 0 (i div PGSIZE) True) (\<lambda>_. return (-1))
            else bind (modify (upd_mem (memmove mem (PTE2PA e) 4096))) (\<lambda>_.
              bind (mappages new i PGSIZE mem (PTE_FLAGS e)) (\<lambda>r.
                if r \<noteq> 0
                then bind (kfree mem) (\<lambda>_. bind (uvmunmap new 0 (i div PGSIZE) True) (\<lambda>_. return (-1)))
                else uvmcopy_loop n old new (i + PGSIZE) len)))))
      else return 0)"

definition uvmcopy :: "uint64 \<Rightarrow> uint64 \<Rightarrow> uint64 \<Rightarrow> ('z phys_scheme, int) km" where
  "uvmcopy old new len = uvmcopy_loop (unat (len div PGSIZE) + 2) old new 0 len"

definition uvmclear :: "uint64 \<Rightarrow> uint64 \<Rightarrow> ('z phys_scheme, unit) km" where
  "uvmclear pt va = bind (walk pt va False) (\<lambda>pte. if pte = 0 then panic ''uvmclear''
     else bind (load_pte pte) (\<lambda>e. store_pte pte (e AND NOT PTE_U)))"

section \<open>Copying between kernel and user\<close>

definition vmfault :: "uint64 \<Rightarrow> uint64 \<Rightarrow> ('z phys_scheme, uint64) km" where
  "vmfault pt va = with_proc (\<lambda>p. bind (gets (\<lambda>s. sz (procs s p))) (\<lambda>len.
     if len \<le> va then return 0
     else bind (ismapped pt (PGROUNDDOWN va)) (\<lambda>mapped. if mapped then return 0
       else bind kalloc (\<lambda>mem. if mem = 0 then return 0
         else bind (modify (upd_mem (memset mem 0 4096))) (\<lambda>_.
           bind (gets (\<lambda>s. pagetable (procs s p))) (\<lambda>ppt.
           bind (mappages ppt (PGROUNDDOWN va) PGSIZE mem (PTE_W OR PTE_U OR PTE_R)) (\<lambda>r.
             if r \<noteq> 0 then bind (kfree mem) (\<lambda>_. return 0) else return mem)))))))"

definition page_of :: "uint64 \<Rightarrow> uint64 \<Rightarrow> ('z phys_scheme, uint64) km" where
  "page_of pt va0 = bind (walkaddr pt va0) (\<lambda>pa0. if pa0 = 0 then vmfault pt va0 else return pa0)"

text \<open>The length of the part of \<open>len\<close> bytes at \<open>va\<close> that lies in its first page.\<close>

definition in_page_len :: "uint64 \<Rightarrow> uint64 \<Rightarrow> uint64" where
  "in_page_len va len = (let n = PGSIZE - (va - PGROUNDDOWN va) in if len < n then len else n)"

primrec copyout_loop :: "nat \<Rightarrow> uint64 \<Rightarrow> uint64 \<Rightarrow> uchar list \<Rightarrow> ('z phys_scheme, int) km" where
  "copyout_loop 0 pt dstva src = spin ''copyout''"
| "copyout_loop (Suc k) pt dstva src =
     (if src = [] then return 0
      else let va0 = PGROUNDDOWN dstva in
        if MAXVA \<le> va0 then return (-1)
        else bind (page_of pt va0) (\<lambda>pa0. if pa0 = 0 then return (-1)
          else bind (walk pt va0 False) (\<lambda>pte. bind (fault_if (\<lambda>_. pte = 0) ''copyout'') (\<lambda>_.
            bind (load_pte pte) (\<lambda>e. if e AND PTE_W = 0 then return (-1)
              else let n = unat (in_page_len dstva (of_nat (length src))) in
                bind (modify (upd_mem (\<lambda>m. blit m (pa0 + (dstva - va0)) (take n src)))) (\<lambda>_.
                  copyout_loop k pt (va0 + PGSIZE) (drop n src)))))))"

definition copyout :: "uint64 \<Rightarrow> uint64 \<Rightarrow> uchar list \<Rightarrow> ('z phys_scheme, int) km" where
  "copyout pt dstva src = copyout_loop (Suc (length src)) pt dstva src"

primrec copyin_loop :: "nat \<Rightarrow> uint64 \<Rightarrow> uint64 \<Rightarrow> uint64 \<Rightarrow> ('z phys_scheme, int \<times> uchar list) km" where
  "copyin_loop 0 pt srcva len = spin ''copyin''"
| "copyin_loop (Suc k) pt srcva len =
     (if len = 0 then return (0, [])
      else let va0 = PGROUNDDOWN srcva in
        bind (page_of pt va0) (\<lambda>pa0. if pa0 = 0 then return (-1, [])
          else let n = in_page_len srcva len in
            bind (gets (\<lambda>s. bytes (pmem s) (pa0 + (srcva - va0)) (unat n))) (\<lambda>bs.
              bind (copyin_loop k pt (va0 + PGSIZE) (len - n)) (\<lambda>(r, rest). return (r, bs @ rest)))))"

definition copyin :: "uint64 \<Rightarrow> uint64 \<Rightarrow> uint64 \<Rightarrow> ('z phys_scheme, int \<times> uchar list) km" where
  "copyin pt srcva len = copyin_loop (Suc (unat len)) pt srcva len"

text \<open>The inner loop of \<^verbatim>\<open>copyinstr\<close>: the bytes up to and with a NUL, and whether there was one.\<close>

fun take_str :: "uchar list \<Rightarrow> uchar list \<times> bool" where
  "take_str [] = ([], False)"
| "take_str (b # bs) = (if b = 0 then ([0], True) else let (r, got) = take_str bs in (b # r, got))"

primrec copyinstr_loop :: "nat \<Rightarrow> uint64 \<Rightarrow> uint64 \<Rightarrow> uint64 \<Rightarrow> ('z phys_scheme, int \<times> uchar list) km" where
  "copyinstr_loop 0 pt srcva mx = spin ''copyinstr''"
| "copyinstr_loop (Suc k) pt srcva mx =
     (if mx = 0 then return (-1, [])
      else let va0 = PGROUNDDOWN srcva in
        bind (walkaddr pt va0) (\<lambda>pa0. if pa0 = 0 then return (-1, [])
          else let n = in_page_len srcva mx in
            bind (gets (\<lambda>s. take_str (bytes (pmem s) (pa0 + (srcva - va0)) (unat n)))) (\<lambda>(bs, got).
              if got then return (0, bs)
              else bind (copyinstr_loop k pt (va0 + PGSIZE) (mx - n)) (\<lambda>(r, rest). return (r, bs @ rest)))))"

definition copyinstr :: "uint64 \<Rightarrow> uint64 \<Rightarrow> uint64 \<Rightarrow> ('z phys_scheme, int \<times> uchar list) km" where
  "copyinstr pt srcva mx = copyinstr_loop (Suc (unat mx)) pt srcva mx"

text \<open>
  \<^verbatim>\<open>either_copyout\<close> and \<^verbatim>\<open>either_copyin\<close> (kernel/proc.c). The flag and the address they are given are one
  value here: a user address, a physical address, or a variable of the caller in the kernel. A kernel
  variable is not in the byte memory; its new contents are the bytes copied, and as a source it is given
  by its bytes.
\<close>

datatype dst_place = DstUser uint64 | DstPhys uint64 | DstLocal

datatype src_place = SrcUser uint64 | SrcLocal "uchar list"

primrec dst_add :: "dst_place \<Rightarrow> uint64 \<Rightarrow> dst_place" where
  "dst_add (DstUser a) n = DstUser (a + n)"
| "dst_add (DstPhys a) n = DstPhys (a + n)"
| "dst_add DstLocal n = DstLocal"

primrec src_add :: "src_place \<Rightarrow> uint64 \<Rightarrow> src_place" where
  "src_add (SrcUser a) n = SrcUser (a + n)"
| "src_add (SrcLocal bs) n = SrcLocal (drop (unat n) bs)"

definition either_copyout :: "dst_place \<Rightarrow> uchar list \<Rightarrow> ('z phys_scheme, int) km" where
  "either_copyout dst src = with_proc (\<lambda>p. case dst of
       DstUser a \<Rightarrow> bind (gets (\<lambda>s. pagetable (procs s p))) (\<lambda>pt. copyout pt a src)
     | DstPhys a \<Rightarrow> bind (modify (upd_mem (\<lambda>m. blit m a src))) (\<lambda>_. return 0)
     | DstLocal \<Rightarrow> return 0)"

definition either_copyin :: "src_place \<Rightarrow> uint64 \<Rightarrow> ('z phys_scheme, int \<times> uchar list) km" where
  "either_copyin src len = with_proc (\<lambda>p. case src of
       SrcUser a \<Rightarrow> bind (gets (\<lambda>s. pagetable (procs s p))) (\<lambda>pt. copyin pt a len)
     | SrcLocal bs \<Rightarrow> bind (fault_if (\<lambda>_. length bs < unat len) ''either_copyin'') (\<lambda>_.
         return (0, take (unat len) bs)))"

section \<open>Page tables as trees\<close>

text \<open>
  A path is the list of the indices taken from the root, the deepest first. \<open>table_at m pt \<rho>\<close> is the page
  table page at the end of a path, \<open>leaf m pt va\<close> the last-level entry for an address (0 where there is
  no last-level table). \<open>pt_wf\<close>: the table pages form a tree of proper pages.
\<close>

definition slot :: "uint64 \<Rightarrow> nat \<Rightarrow> uint64" where
  "slot p i = p + 8 * of_nat i"

definition px :: "nat \<Rightarrow> uint64 \<Rightarrow> nat" where
  "px l va = unat (PX l va)"

primrec table_at :: "mem \<Rightarrow> uint64 \<Rightarrow> nat list \<Rightarrow> uint64 option" where
  "table_at m pt [] = Some pt"
| "table_at m pt (i # \<rho>) = (case table_at m pt \<rho> of None \<Rightarrow> None
     | Some p \<Rightarrow> let e = load64 m (slot p i) in if e AND PTE_V \<noteq> 0 then Some (PTE2PA e) else None)"

definition valid_path :: "nat list \<Rightarrow> bool" where
  "valid_path \<rho> \<longleftrightarrow> length \<rho> \<le> 2 \<and> (\<forall>i \<in> set \<rho>. i < 512)"

definition tables :: "mem \<Rightarrow> uint64 \<Rightarrow> uint64 set" where
  "tables m pt = {p. \<exists>\<rho>. valid_path \<rho> \<and> table_at m pt \<rho> = Some p}"

definition leaf :: "mem \<Rightarrow> uint64 \<Rightarrow> uint64 \<Rightarrow> uint64" where
  "leaf m pt va = (case table_at m pt [px 1 va, px 2 va] of None \<Rightarrow> 0 | Some p \<Rightarrow> load64 m (slot p (px 0 va)))"

definition pt_wf :: "mem \<Rightarrow> uint64 \<Rightarrow> bool" where
  "pt_wf m pt \<longleftrightarrow> (\<forall>p \<in> tables m pt. page_aligned p \<and> p \<noteq> 0) \<and>
     (\<forall>\<rho> \<sigma> p. valid_path \<rho> \<longrightarrow> valid_path \<sigma> \<longrightarrow> table_at m pt \<rho> = Some p \<longrightarrow> table_at m pt \<sigma> = Some p \<longrightarrow> \<rho> = \<sigma>)"

lemmas table_at_Cons = table_at.simps(2)
declare table_at.simps(2) [simp del]

lemma px_less [simp]: "px l va < 512"
proof -
  have "PX l va = take_bit 9 (drop_bit (PXSHIFT l) va)"
    by (simp add: PX_def PXMASK_def take_bit_eq_mask mask_eq_exp_minus_1)
  then show ?thesis using take_bit_nat_less_exp [of 9 "unat (drop_bit (PXSHIFT l) va)"]
    by (simp add: px_def unsigned_take_bit_eq)
qed

lemma unat_eight: "i < 512 \<Longrightarrow> unat (8 * of_nat i :: uint64) = 8 * i"
  using unat_of_nat [of "8 * i", where 'a = 64] by (simp add: take_bit_nat_eq_self)

lemma PX_px: "pt + 8 * PX l va = slot pt (px l va)"
  by (simp add: slot_def px_def)

lemma slot_page:
  assumes "page_aligned p" and "i < 512"
  shows "PGROUNDDOWN (slot p i) = p" and "word_aligned (slot p i)"
proof -
  note i = unat_eight [OF assms(2)]
  have "in_range (slot p i) p 4096" using i assms(2) by (simp add: in_range_def slot_def)
  then show pg: "PGROUNDDOWN (slot p i) = p" using assms(1) by (simp add: in_page_iff)
  have "p mod 8 = 0" using page_word_aligned [OF assms(1)] by (simp add: word_aligned_def)
  moreover have "unat (slot p i) = unat p + 8 * i"
  proof -
    obtain k where "unat p = 4096 * k" using assms(1) by (metis aligned_unat mod_0_imp_dvd dvdE)
    moreover have "unat p < 2 ^ 64" using unsigned_less [of p, where ?'a = nat] by simp
    ultimately have "unat p + 8 * i < 2 ^ 64" using assms(2) by simp
    with unat_add_nat [of p "8 * i"] show ?thesis by (simp add: slot_def)
  qed
  ultimately show "word_aligned (slot p i)"
    by (simp add: word_aligned_def word_unat_eq_iff unat_mod)
qed

lemma slot_inject:
  assumes "page_aligned p" and "page_aligned q" and "i < 512" and "j < 512" and "slot p i = slot q j"
  shows "p = q \<and> i = j"
proof
  show pq: "p = q" using slot_page(1) assms by metis
  have "8 * of_nat i = (8 * of_nat j :: uint64)" using assms(5) pq by (simp add: slot_def)
  then have "unat (8 * of_nat i :: uint64) = unat (8 * of_nat j :: uint64)" by simp
  then show "i = j" using assms(3,4) by (simp only: unat_eight)
qed

lemma tablesI: "valid_path \<rho> \<Longrightarrow> table_at m pt \<rho> = Some p \<Longrightarrow> p \<in> tables m pt"
  by (auto simp: tables_def)

lemma pt_wfD:
  assumes "pt_wf m pt"
  shows "p \<in> tables m pt \<Longrightarrow> page_aligned p" and "p \<in> tables m pt \<Longrightarrow> p \<noteq> 0"
    and "valid_path \<rho> \<Longrightarrow> valid_path \<sigma> \<Longrightarrow> table_at m pt \<rho> = Some p \<Longrightarrow> table_at m pt \<sigma> = Some p \<Longrightarrow> \<rho> = \<sigma>"
  using assms unfolding pt_wf_def by blast+

lemma valid_path_Cons: "valid_path (i # \<rho>) \<longleftrightarrow> i < 512 \<and> length \<rho> \<le> 1 \<and> valid_path \<rho>"
  by (auto simp: valid_path_def)

lemma valid_path_px [simp]: "valid_path [px a va, px b vb]" "valid_path [px a va]" "valid_path []"
  by (simp_all add: valid_path_def)

text \<open>The tree depends on the contents of its table pages only.\<close>

lemma table_at_cong:
  assumes wf: "pt_wf m pt" and same: "\<And>x. PGROUNDDOWN x \<in> tables m pt \<Longrightarrow> m' x = m x" and \<rho>: "valid_path \<rho>"
  shows "table_at m' pt \<rho> = table_at m pt \<rho>"
  using \<rho>
proof (induction \<rho>)
  case (Cons i \<rho>)
  then have v: "valid_path \<rho>" "i < 512" by (simp_all add: valid_path_Cons)
  show ?case
  proof (cases "table_at m pt \<rho>")
    case (Some p)
    with v have p: "p \<in> tables m pt" by (blast intro: tablesI)
    note al = slot_page [OF pt_wfD(1) [OF wf p] v(2)]
    have "load64 m' (slot p i) = load64 m (slot p i)"
      by (rule load64_cong) (use same p al in_word_page [OF al(2)] in auto)
    with Some Cons.IH [OF v(1)] show ?thesis by (simp add: table_at_Cons)
  qed (use Cons.IH [OF v(1)] in \<open>simp add: table_at_Cons\<close>)
qed simp

lemma pt_cong:
  assumes wf: "pt_wf m pt" and same: "\<And>x. PGROUNDDOWN x \<in> tables m pt \<Longrightarrow> m' x = m x"
  shows "tables m' pt = tables m pt" and "pt_wf m' pt" and "leaf m' pt va = leaf m pt va"
proof -
  note eq = table_at_cong [OF wf same]
  show tb: "tables m' pt = tables m pt" unfolding tables_def using eq by auto
  show "pt_wf m' pt" using wf unfolding pt_wf_def tb using eq by simp
  show "leaf m' pt va = leaf m pt va"
  proof (cases "table_at m pt [px 1 va, px 2 va]")
    case (Some p)
    then have p: "p \<in> tables m pt" by (rule tablesI [rotated]) simp
    note al = slot_page [OF pt_wfD(1) [OF wf p] px_less, of 0 va]
    have "load64 m' (slot p (px 0 va)) = load64 m (slot p (px 0 va))"
      by (rule load64_cong) (use same p al in_word_page [OF al(2)] in auto)
    with Some eq [of "[px 1 va, px 2 va]"] show ?thesis by (simp add: leaf_def)
  qed (use eq [of "[px 1 va, px 2 va]"] in \<open>simp add: leaf_def\<close>)
qed

lemma table_at_store:
  assumes wf: "pt_wf m pt" and \<pi>: "valid_path \<pi>" "table_at m pt \<pi> = Some p" and i: "i < 512"
    and \<rho>: "valid_path \<rho>" "\<not> suffix (i # \<pi>) \<rho>"
  shows "table_at (store64 (slot p i) e m) pt \<rho> = table_at m pt \<rho>"
  using \<rho>
proof (induction \<rho>)
  case (Cons j \<rho>)
  then have v: "valid_path \<rho>" "j < 512" and ns: "\<not> suffix (i # \<pi>) \<rho>" "j # \<rho> \<noteq> i # \<pi>"
    by (auto simp: valid_path_Cons suffix_Cons)
  show ?case
  proof (cases "table_at m pt \<rho>")
    case (Some q)
    have pq: "p \<in> tables m pt" "q \<in> tables m pt" using \<pi> v(1) Some by (auto intro: tablesI)
    note al = pt_wfD(1) [OF wf pq(1)] pt_wfD(1) [OF wf pq(2)]
    have "slot p i \<noteq> slot q j"
      using slot_inject [OF al i v(2)] pt_wfD(3) [OF wf \<pi>(1) v(1) \<pi>(2)] Some ns(2) by auto
    then have "load64 (store64 (slot p i) e m) (slot q j) = load64 m (slot q j)"
      using slot_page(2) al i v(2) by (intro load64_other) auto
    with Some Cons.IH [OF v(1) ns(1)] show ?thesis by (simp add: table_at_Cons)
  qed (use Cons.IH [OF v(1) ns(1)] in \<open>simp add: table_at_Cons\<close>)
qed simp

text \<open>Writing a last-level entry changes that entry and nothing else of the tree.\<close>

lemma leaf_store:
  assumes wf: "pt_wf m pt" and \<pi>: "table_at m pt [px 1 va, px 2 va] = Some p"
    and m'_def: "m' = store64 (slot p (px 0 va)) e m"
  shows "pt_wf m' pt" and "tables m' pt = tables m pt"
    and "leaf m' pt vb = (if \<forall>l < 3. px l vb = px l va then e else leaf m pt vb)"
proof -
  have eq: "table_at m' pt \<rho> = table_at m pt \<rho>" if "valid_path \<rho>" for \<rho>
    unfolding m'_def
  proof (rule table_at_store [OF wf _ \<pi>])
    show "\<not> suffix (px 0 va # [px 1 va, px 2 va]) \<rho>"
      using that by (auto simp: valid_path_def suffix_def)
  qed (simp_all add: that)
  show tb: "tables m' pt = tables m pt" unfolding tables_def using eq by auto
  show "pt_wf m' pt" using wf unfolding pt_wf_def tb using eq by simp
  have p: "p \<in> tables m pt" using \<pi> by (rule tablesI [rotated]) simp
  have l3: "(\<forall>l < 3. P l) \<longleftrightarrow> P 0 \<and> P 1 \<and> P (2 :: nat)" for P by (auto simp: numeral_3_eq_3 numeral_2_eq_2 less_Suc_eq)
  show "leaf m' pt vb = (if \<forall>l < 3. px l vb = px l va then e else leaf m pt vb)"
  proof (cases "table_at m pt [px 1 vb, px 2 vb]")
    case None
    then show ?thesis using \<pi> eq [of "[px 1 vb, px 2 vb]"] unfolding l3 by (auto simp: leaf_def)
  next
    case (Some q)
    then have q: "q \<in> tables m pt" by (rule tablesI [rotated]) simp
    note al = pt_wfD(1) [OF wf p] pt_wfD(1) [OF wf q]
    have same: "slot p (px 0 va) = slot q (px 0 vb) \<longleftrightarrow> (\<forall>l < 3. px l vb = px l va)"
    proof
      assume "slot p (px 0 va) = slot q (px 0 vb)"
      then have "p = q" "px 0 va = px 0 vb" using slot_inject [OF al px_less px_less] by blast+
      with pt_wfD(3) [OF wf _ _ \<pi>, of "[px 1 vb, px 2 vb]"] Some show "\<forall>l < 3. px l vb = px l va" unfolding l3 by simp
    next
      assume "\<forall>l < 3. px l vb = px l va"
      with Some \<pi> show "slot p (px 0 va) = slot q (px 0 vb)" unfolding l3 by simp
    qed
    have "leaf m' pt vb = load64 m' (slot q (px 0 vb))" "leaf m pt vb = load64 m (slot q (px 0 vb))"
      using Some eq [of "[px 1 vb, px 2 vb]"] by (simp_all add: leaf_def)
    moreover have "load64 m' (slot q (px 0 vb)) = load64 m (slot q (px 0 vb))" if "slot p (px 0 va) \<noteq> slot q (px 0 vb)"
      unfolding m'_def using that slot_page(2) al by (intro load64_other) auto
    ultimately show ?thesis unfolding same [symmetric] by (auto simp: m'_def)
  qed
qed

text \<open>Hanging a fresh zeroed page under an invalid entry adds an empty table.\<close>

lemma table_at_grow:
  assumes wf: "pt_wf m pt" and \<pi>: "valid_path (i # \<pi>)" "table_at m pt \<pi> = Some p"
    and inv: "load64 m (slot p i) AND PTE_V = 0"
    and new: "page_aligned n" "n \<noteq> 0" "n \<notin> tables m pt" and \<rho>: "valid_path \<rho>"
    and m'_def: "m' = store64 (slot p i) (PA2PTE n OR PTE_V) (memset n 0 4096 m)"
  shows "table_at m' pt \<rho> = (if \<rho> = i # \<pi> then Some n else table_at m pt \<rho>)"
proof -
  let ?m1 = "memset n 0 4096 m"
  from \<pi>(1) have v: "valid_path \<pi>" "i < 512" by (simp_all add: valid_path_Cons)
  have p: "p \<in> tables m pt" using v(1) \<pi>(2) by (rule tablesI)
  note al = pt_wfD(1) [OF wf p]
  have same: "?m1 x = m x" if "PGROUNDDOWN x \<in> tables m pt" for x using that new by (auto simp: memset_page)
  note one = pt_cong [OF wf same] and t1 = table_at_cong [OF wf same]
  have pi1: "table_at ?m1 pt \<pi> = Some p" using t1 v(1) \<pi>(2) by simp
  have other: "table_at m' pt \<sigma> = table_at m pt \<sigma>" if "valid_path \<sigma>" "\<not> suffix (i # \<pi>) \<sigma>" for \<sigma>
    using table_at_store [OF one(2) v(1) pi1 v(2) that] t1 that(1) by (simp add: m'_def)
  have nself: "\<not> suffix (i # \<pi>) \<pi>" by (auto simp: suffix_def)
  have new_tab: "table_at m' pt (i # \<pi>) = Some n"
  proof -
    have "(PA2PTE n OR PTE_V) AND PTE_V \<noteq> 0" by (simp add: PTE_V_def bit.conj_disj_distrib2)
    with other [OF v(1) nself] \<pi>(2) PTE2PA_PA2PTE [OF new(1), of PTE_V] show ?thesis
      by (simp add: table_at_Cons m'_def PTE_V_def)
  qed
  have kids: "load64 m' (slot n j) = 0" if "j < 512" for j
  proof -
    have "slot p i \<noteq> slot n j" using slot_inject [OF al new(1) v(2) that] p new(3) by auto
    then show ?thesis unfolding m'_def
      using load64_other [OF slot_page(2) [OF al v(2)] slot_page(2) [OF new(1) that]]
        load64_memset_zero [OF new(1) slot_page(2,1) [OF new(1) that]] by simp
  qed
  show ?thesis
  proof (cases "suffix (i # \<pi>) \<rho>")
    case False
    then show ?thesis using other [OF \<rho> False] by (auto simp: suffix_def)
  next
    case True
    show ?thesis
    proof (cases "\<rho> = i # \<pi>")
      case False
      with True obtain j where j: "\<rho> = j # i # \<pi>" "j < 512"
        using \<rho> by (auto simp: suffix_def valid_path_def Suc_le_length_iff append_eq_Cons_conv length_Suc_conv le_Suc_eq numeral_2_eq_2)
      have "table_at m pt (i # \<pi>) = None" using \<pi>(2) inv by (simp add: table_at_Cons)
      then show ?thesis using j new_tab kids False by (simp add: table_at_Cons [of _ _ j])
    qed (use new_tab in simp)
  qed
qed

lemma pt_grow:
  assumes wf: "pt_wf m pt" and \<pi>: "valid_path (i # \<pi>)" "table_at m pt \<pi> = Some p"
    and inv: "load64 m (slot p i) AND PTE_V = 0"
    and new: "page_aligned n" "n \<noteq> 0" "n \<notin> tables m pt"
    and m'_def: "m' = store64 (slot p i) (PA2PTE n OR PTE_V) (memset n 0 4096 m)"
  shows "tables m' pt = insert n (tables m pt)" and "pt_wf m' pt" and "leaf m' pt va = leaf m pt va"
    and "table_at m' pt (i # \<pi>) = Some n" and "PGROUNDDOWN x \<notin> tables m' pt \<Longrightarrow> m' x = m x"
proof -
  note grow = table_at_grow [OF wf \<pi> inv new _ m'_def]
  from \<pi>(1) have v: "valid_path \<pi>" "i < 512" "length \<pi> \<le> 1" by (simp_all add: valid_path_Cons)
  have p: "p \<in> tables m pt" using v(1) \<pi>(2) by (rule tablesI)
  note al = pt_wfD(1) [OF wf p]
  have none: "table_at m pt (i # \<pi>) = None" using \<pi>(2) inv by (simp add: table_at_Cons)
  show top: "table_at m' pt (i # \<pi>) = Some n" using grow [OF \<pi>(1)] by simp
  show tb: "tables m' pt = insert n (tables m pt)"
  proof
    show "tables m' pt \<subseteq> insert n (tables m pt)"
      using grow by (auto simp: tables_def split: if_splits)
    have "q \<in> tables m' pt" if "q \<in> tables m pt" for q
    proof -
      from that obtain \<rho> where \<rho>: "valid_path \<rho>" "table_at m pt \<rho> = Some q" by (auto simp: tables_def)
      with none have "\<rho> \<noteq> i # \<pi>" by auto
      with \<rho> grow [OF \<rho>(1)] show ?thesis by (auto intro: tablesI)
    qed
    then show "insert n (tables m pt) \<subseteq> tables m' pt" using top \<pi>(1) by (auto intro: tablesI)
  qed
  show "pt_wf m' pt" unfolding pt_wf_def
  proof (intro conjI ballI allI impI)
    show "page_aligned q" "q \<noteq> 0" if "q \<in> tables m' pt" for q using that pt_wfD(1,2) [OF wf] new(1,2) unfolding tb by auto
    show "\<rho> = \<sigma>" if "valid_path \<rho>" "valid_path \<sigma>" "table_at m' pt \<rho> = Some q" "table_at m' pt \<sigma> = Some q" for \<rho> \<sigma> q
      using that grow [OF that(1)] grow [OF that(2)] pt_wfD(3) [OF wf that(1,2)] new(3) tablesI
      by (auto split: if_splits)
  qed
  show out: "m' x = m x" if "PGROUNDDOWN x \<notin> tables m' pt" for x
  proof -
    have "\<not> in_range x (slot p i) 8" using that in_word_page [OF slot_page(2) [OF al v(2)]] slot_page(1) [OF al v(2)] p
      unfolding tb by auto
    then show ?thesis using that [unfolded tb] new(1) by (simp add: m'_def store64_outside memset_page)
  qed
  have old: "load64 m' (slot q j) = load64 m (slot q j)" if q: "q \<in> tables m pt" "q \<noteq> p" "j < 512" for q j
  proof -
    note aq = pt_wfD(1) [OF wf q(1)]
    have "slot p i \<noteq> slot q j" "q \<noteq> n" using slot_inject [OF al aq v(2) q(3)] q new(3) by auto
    then show ?thesis unfolding m'_def
      using load64_other [OF slot_page(2) [OF al v(2)] slot_page(2) [OF aq q(3)]]
        load64_memset_other [OF new(1) slot_page(2) [OF aq q(3)]] slot_page(1) [OF aq q(3)] by simp
  qed
  show "leaf m' pt va = leaf m pt va"
  proof (cases "[px 1 va, px 2 va] = i # \<pi>")
    case True
    have "slot p i \<noteq> slot n (px 0 va)" using slot_inject [OF al new(1) v(2) px_less] p new(3) by auto
    then have "load64 m' (slot n (px 0 va)) = 0" unfolding m'_def
      using load64_other [OF slot_page(2) [OF al v(2)] slot_page(2) [OF new(1) px_less]]
        load64_memset_zero [OF new(1) slot_page(2,1) [OF new(1) px_less]] by simp
    then show ?thesis unfolding leaf_def True using top none by simp
  next
    case False
    have eq: "table_at m' pt [px 1 va, px 2 va] = table_at m pt [px 1 va, px 2 va]"
      using grow [OF valid_path_px(1)] False by (simp only: if_False)
    show ?thesis
    proof (cases "table_at m pt [px 1 va, px 2 va]")
      case None
      then show ?thesis using eq by (simp add: leaf_def)
    next
      case (Some q)
      have "q \<in> tables m pt" using Some by (rule tablesI [rotated]) simp
      moreover have "q \<noteq> p" using pt_wfD(3) [OF wf _ v(1) Some] \<pi>(2) v(3) by auto
      ultimately show ?thesis using eq Some old by (simp add: leaf_def)
    qed
  qed
qed

text \<open>A page table next to a free list that does not contain its pages.\<close>

definition pt_ok :: "('z) phys_scheme \<Rightarrow> uint64 \<Rightarrow> uint64 list \<Rightarrow> bool" where
  "pt_ok s pt fs \<longleftrightarrow> kmem_ready s \<and> free_rep s fs \<and> pt_wf (pmem s) pt \<and> tables (pmem s) pt \<inter> set fs = {}"

text \<open>
  Nothing but table pages was written, and the tree may have grown by pages from the front of the
  free list. \<open>grown\<close>: and no mapping has changed.
\<close>

definition pt_frame :: "uint64 \<Rightarrow> ('z) phys_scheme \<Rightarrow> uint64 list \<Rightarrow> ('z) phys_scheme \<Rightarrow> uint64 list \<Rightarrow> bool" where
  "pt_frame pt s fs t fs' \<longleftrightarrow> not_mem t = not_mem s \<and>
     (\<exists>ns. fs = ns @ fs' \<and> tables (pmem t) pt = tables (pmem s) pt \<union> set ns) \<and>
     (\<forall>x. PGROUNDDOWN x \<notin> tables (pmem t) pt \<longrightarrow> pmem t x = pmem s x)"

definition grown :: "uint64 \<Rightarrow> ('z) phys_scheme \<Rightarrow> uint64 list \<Rightarrow> ('z) phys_scheme \<Rightarrow> uint64 list \<Rightarrow> bool" where
  "grown pt s fs t fs' \<longleftrightarrow> pt_frame pt s fs t fs' \<and> (\<forall>va. leaf (pmem t) pt va = leaf (pmem s) pt va)"

lemma pt_frame_trans: "pt_frame pt s fs t gs \<Longrightarrow> pt_frame pt t gs u hs \<Longrightarrow> pt_frame pt s fs u hs"
  unfolding pt_frame_def by (auto simp: append_assoc)

lemma grown_refl: "grown pt s fs s fs"
  by (simp add: grown_def pt_frame_def)

lemma grown_trans: "grown pt s fs t gs \<Longrightarrow> grown pt t gs u hs \<Longrightarrow> grown pt s fs u hs"
  unfolding grown_def by (auto dest: pt_frame_trans)

lemma upd_mem_sels [simp]:
  "pmem (upd_mem f s) = f (pmem s)" "freelist (upd_mem f s) = freelist s" "end_sym (upd_mem f s) = end_sym s"
  "not_mem (upd_mem f s) = not_mem s" "kmem_ready (upd_mem f s) = kmem_ready s"
proof -
  show "not_mem (upd_mem f s) = not_mem s" by (simp add: not_mem_def upd_mem_def kcomm)
qed (simp_all add: upd_mem_def kmem_ready_def)

lemma walk_step:
  assumes ok: "pt_ok s pt fs" and v: "valid_path (px (Suc l) va # \<pi>)" and p: "table_at (pmem s) pt \<pi> = Some p"
  shows "(\<exists>t q fs'. walk_loop (Suc l) p va True s = walk_loop l q va True t \<and> pt_ok t pt fs' \<and>
      table_at (pmem t) pt (px (Suc l) va # \<pi>) = Some q \<and> grown pt s fs t fs') \<or>
    (fs = [] \<and> (\<exists>t. walk_loop (Suc l) p va True s = Ok 0 t \<and> pt_ok t pt fs \<and> grown pt s fs t fs))"
proof -
  let ?i = "px (Suc l) va" let ?e = "load64 (pmem s) (slot p ?i)"
  have wf: "pt_wf (pmem s) pt" and rdy: "kmem_ready s" and fr: "free_rep s fs" and dis: "tables (pmem s) pt \<inter> set fs = {}"
    using ok by (simp_all add: pt_ok_def)
  consider (valid) "?e AND PTE_V \<noteq> 0" | (none) "?e AND PTE_V = 0" "fs = []" | (new) n ns where "?e AND PTE_V = 0" "fs = n # ns"
    by (cases fs) auto
  then show ?thesis
  proof cases
    case valid
    then have "walk_loop (Suc l) p va True s = walk_loop l (PTE2PA ?e) va True s"
      by (simp add: load_pte_def PX_px)
    moreover have "table_at (pmem s) pt (?i # \<pi>) = Some (PTE2PA ?e)" using valid p by (simp add: table_at_Cons)
    ultimately show ?thesis using ok grown_refl by blast
  next
    case none
    with ka.alloc_none [OF rdy] fr obtain t where t: "kalloc s = Ok 0 t" "free_rep t []" "not_mem t = not_mem s" "pmem t = pmem s" by auto
    have "walk_loop (Suc l) p va True s = Ok 0 t" using none t(1) by (simp add: load_pte_def PX_px)
    moreover have "pt_ok t pt fs" using ok none t ka.ready_rest [OF t(3)] by (simp add: pt_ok_def)
    moreover have "grown pt s fs t fs" using t by (simp add: grown_def pt_frame_def)
    ultimately show ?thesis using none by blast
  next
    case (new n ns)
    with ka.alloc_some [OF rdy] fr obtain u where u: "kalloc s = Ok n u" "free_rep u ns" "not_mem u = not_mem s"
      "\<And>x. PGROUNDDOWN x \<noteq> n \<Longrightarrow> pmem u x = pmem s x" by blast
    have n: "page_aligned n" "n \<noteq> 0" "n \<notin> set ns" "n \<notin> tables (pmem s) pt"
      using ka.pages_valid [OF fr] new dis by auto
    have same: "pmem u x = pmem s x" if "PGROUNDDOWN x \<in> tables (pmem s) pt" for x using that u(4) n(4) by metis
    note uc = pt_cong [OF wf same] table_at_cong [OF wf same]
    let ?m = "store64 (slot p ?i) (PA2PTE n OR PTE_V) (memset n 0 4096 (pmem u))"
    let ?t = "upd_mem (store64 (slot p ?i) (PA2PTE n OR PTE_V)) (upd_mem (memset n 0 4096) u)"
    have v\<pi>: "valid_path \<pi>" using v by (simp add: valid_path_Cons)
    have pin: "p \<in> tables (pmem s) pt" using v\<pi> p by (rule tablesI)
    have e: "load64 (pmem u) (slot p ?i) = ?e"
      using slot_page [OF pt_wfD(1) [OF wf pin] px_less] in_word_page pin by (intro load64_cong same) metis
    have g: "tables ?m pt = insert n (tables (pmem s) pt)" "pt_wf ?m pt" "\<And>va. leaf ?m pt va = leaf (pmem s) pt va"
      "table_at ?m pt (?i # \<pi>) = Some n" "\<And>x. PGROUNDDOWN x \<notin> tables ?m pt \<Longrightarrow> ?m x = pmem u x"
      using pt_grow [OF uc(2) v, of p n ?m] uc v\<pi> p new(1) n e by auto
    have "walk_loop (Suc l) p va True s = walk_loop l n va True ?t"
      using new(1) u(1) n(2) by (simp add: load_pte_def store_pte_def PX_px)
    moreover have "free_rep ?t ns" using u(2)
    proof (rule free_rep_cong)
      fix x assume "PGROUNDDOWN x \<in> set ns"
      then have "PGROUNDDOWN x \<notin> tables ?m pt" using dis n(3) new(2) unfolding g(1) by auto
      then show "pmem ?t x = pmem u x" using g(5) by simp
    qed simp_all
    then have "pt_ok ?t pt ns" using rdy ka.ready_rest [OF u(3)] g(1,2) dis n(3) new(2) by (auto simp: pt_ok_def)
    moreover have "grown pt s fs ?t ns" unfolding grown_def pt_frame_def
    proof (intro conjI allI impI)
      show "pmem ?t x = pmem s x" if "PGROUNDDOWN x \<notin> tables (pmem ?t) pt" for x
        using that g(5) u(4) by (simp add: g(1))
      show "\<exists>ks. fs = ks @ ns \<and> tables (pmem ?t) pt = tables (pmem s) pt \<union> set ks"
        using new(2) g(1) by (intro exI [of _ "[n]"]) simp
    qed (use u(3) g(3) in simp_all)
    ultimately show ?thesis using g(4) by (intro disjI1 exI [of _ ?t] exI [of _ n] exI [of _ ns]) simp
  qed
qed

lemma slot_nonzero: "page_aligned p \<Longrightarrow> p \<noteq> 0 \<Longrightarrow> i < 512 \<Longrightarrow> slot p i \<noteq> 0"
proof
  assume "page_aligned p" "i < 512" "slot p i = 0" "p \<noteq> 0"
  then have "PGROUNDDOWN 0 = p" using slot_page(1) by metis
  with \<open>p \<noteq> 0\<close> show False by (simp add: PGROUNDDOWN_def)
qed

lemma walk_alloc:
  assumes ok: "pt_ok s pt fs" and va: "va < MAXVA"
  shows "\<exists>r t fs'. walk pt va True s = Ok r t \<and> pt_ok t pt fs' \<and> grown pt s fs t fs' \<and>
    (r = 0 \<and> fs' = [] \<or> (\<exists>p. table_at (pmem t) pt [px 1 va, px 2 va] = Some p \<and> r = slot p (px 0 va) \<and> r \<noteq> 0))"
proof -
  have w: "walk pt va True s = walk_loop (Suc (Suc 0)) pt va True s"
    using va by (simp add: walk_def not_le numeral_2_eq_2)
  have v: "valid_path [px (Suc (Suc 0)) va]" "valid_path [px (Suc 0) va, px (Suc (Suc 0)) va]" by simp_all
  from walk_step [OF ok v(1)] consider
      (a) t q gs where "walk pt va True s = walk_loop (Suc 0) q va True t" "pt_ok t pt gs"
        "table_at (pmem t) pt [px (Suc (Suc 0)) va] = Some q" "grown pt s fs t gs"
    | (b) t where "fs = []" "walk pt va True s = Ok 0 t" "pt_ok t pt fs" "grown pt s fs t fs"
    unfolding w by (fastforce simp del: walk_loop.simps)
  then show ?thesis
  proof cases
    case b
    then show ?thesis by blast
  next
    case a
    from walk_step [OF a(2) v(2) a(3)] consider
        (c) u p hs where "walk pt va True s = walk_loop 0 p va True u" "pt_ok u pt hs"
          "table_at (pmem u) pt [px (Suc 0) va, px (Suc (Suc 0)) va] = Some p" "grown pt t gs u hs"
      | (d) u where "gs = []" "walk pt va True s = Ok 0 u" "pt_ok u pt gs" "grown pt t gs u gs"
      unfolding a(1) by blast
    then show ?thesis
    proof cases
      case c
      have pin: "p \<in> tables (pmem u) pt" using v(2) c(3) by (rule tablesI)
      have "pt_wf (pmem u) pt" using c(2) by (simp add: pt_ok_def)
      then have "slot p (px 0 va) \<noteq> 0" using pin by (intro slot_nonzero) (auto dest: pt_wfD(1,2))
      moreover have "walk pt va True s = Ok (slot p (px 0 va)) u" using c(1) by (simp add: PX_px)
      ultimately show ?thesis using c grown_trans [OF a(4) c(4)]
        by (intro exI [of _ "slot p (px 0 va)"] exI [of _ u] exI [of _ hs]) (simp add: numeral_2_eq_2)
    next
      case d
      then show ?thesis using grown_trans [OF a(4) d(4)] by blast
    qed
  qed
qed

lemma walk_look:
  assumes "va < MAXVA"
  shows "walk pt va False s =
    Ok (case table_at (pmem s) pt [px 1 va, px 2 va] of None \<Rightarrow> 0 | Some p \<Rightarrow> slot p (px 0 va)) s"
proof -
  have "walk pt va False s = walk_loop (Suc (Suc 0)) pt va False s"
    using assms by (simp add: walk_def not_le numeral_2_eq_2)
  then show ?thesis by (simp add: load_pte_def PX_px table_at_Cons numeral_2_eq_2 Let_def)
qed

text \<open>Two addresses with the same three indices are in the same page.\<close>

lemma same_page_iff:
  assumes "va < MAXVA" and "vb < MAXVA"
  shows "(\<forall>l < 3. px l vb = px l va) \<longleftrightarrow> PGROUNDDOWN vb = PGROUNDDOWN va"
proof -
  have px: "px l vb = px l va \<longleftrightarrow> (\<forall>i < 9. bit vb (12 + 9 * l + i) = bit va (12 + 9 * l + i))" for l
  proof -
    have "px l vb = px l va \<longleftrightarrow> PX l vb = PX l va" by (simp add: px_def word_unat_eq_iff)
    also have "\<dots> \<longleftrightarrow> take_bit 9 (drop_bit (PXSHIFT l) vb) = take_bit 9 (drop_bit (PXSHIFT l) va)"
      by (simp add: PX_def PXMASK_def take_bit_eq_mask mask_eq_exp_minus_1)
    also have "\<dots> \<longleftrightarrow> (\<forall>i < 64. i < 9 \<longrightarrow> bit vb (12 + 9 * l + i) = bit va (12 + 9 * l + i))"
      by (auto simp: bit_eq_iff bit_simps PXSHIFT_def PGSHIFT_def dest: bit_imp_le_length)
    also have "\<dots> \<longleftrightarrow> (\<forall>i < 9. bit vb (12 + 9 * l + i) = bit va (12 + 9 * l + i))"
    proof (rule iffI)
      assume H: "\<forall>i < 64. i < 9 \<longrightarrow> bit vb (12 + 9 * l + i) = bit va (12 + 9 * l + i)"
      show "\<forall>i < 9. bit vb (12 + 9 * l + i) = bit va (12 + 9 * l + i)"
      proof (intro allI impI)
        fix i :: nat assume i: "i < 9"
        then have "i < 64" by simp
        with H i show "bit vb (12 + 9 * l + i) = bit va (12 + 9 * l + i)" by blast
      qed
    qed blast
    finally show ?thesis .
  qed
  have hi: "\<not> bit v i" if "v < MAXVA" "38 \<le> i" for v :: uint64 and i
  proof -
    have "take_bit 38 v = v" using that(1) by (simp add: MAXVA_def take_bit_eq_mod word_unat_eq_iff unat_mod word_less_nat_alt)
    then show ?thesis using that(2) by (metis bit_take_bit_iff not_le)
  qed
  show ?thesis
  proof
    assume l3: "\<forall>l < 3. px l vb = px l va"
    show "PGROUNDDOWN vb = PGROUNDDOWN va"
    proof (rule bit_word_eqI)
      fix i assume "i < LENGTH(64)"
      show "bit (PGROUNDDOWN vb) i = bit (PGROUNDDOWN va) i"
      proof (cases "12 \<le> i \<and> i < 39")
        case True
        define l where "l = (i - 12) div 9"
        have "l < 3" "i = 12 + 9 * l + (i - 12) mod 9" using True by (auto simp: l_def)
        with l3 px [of l] have "bit vb i = bit va i" by (metis mod_less_divisor zero_less_numeral)
        then show ?thesis by (simp add: PGROUNDDOWN_bit)
      next
        case False
        then show ?thesis using hi [OF assms(1), of i] hi [OF assms(2), of i] by (auto simp: PGROUNDDOWN_bit)
      qed
    qed
  next
    assume "PGROUNDDOWN vb = PGROUNDDOWN va"
    then have "bit vb i = bit va i" if "12 \<le> i" for i using that by (metis PGROUNDDOWN_bit)
    then show "\<forall>l < 3. px l vb = px l va" unfolding px by simp
  qed
qed

lemma mappages_page:
  assumes ok: "pt_ok s pt fs" and a: "a < MAXVA" and free: "leaf (pmem s) pt a AND PTE_V = 0"
    and step_def: "step = bind (walk pt a True) (\<lambda>pte. if pte = 0 then return (-1) else bind (load_pte pte) (\<lambda>e.
       if e AND PTE_V \<noteq> 0 then panic ''mappages: remap'' else bind (store_pte pte E) (\<lambda>_. K))) s"
  shows "(\<exists>t. step = Ok (-1) t \<and> pt_ok t pt [] \<and> pt_frame pt s fs t []) \<or>
    (\<exists>t fs'. step = K t \<and> pt_ok t pt fs' \<and> pt_frame pt s fs t fs' \<and>
      (\<forall>vb < MAXVA. leaf (pmem t) pt vb = (if PGROUNDDOWN vb = PGROUNDDOWN a then E else leaf (pmem s) pt vb)))"
proof -
  from walk_alloc [OF ok a] obtain r u gs where w: "walk pt a True s = Ok r u" and u: "pt_ok u pt gs" "grown pt s fs u gs"
    and r: "r = 0 \<and> gs = [] \<or> (\<exists>p. table_at (pmem u) pt [px 1 a, px 2 a] = Some p \<and> r = slot p (px 0 a) \<and> r \<noteq> 0)"
    by blast
  have fr: "pt_frame pt s fs u gs" and lf: "\<And>va. leaf (pmem u) pt va = leaf (pmem s) pt va" using u(2) by (simp_all add: grown_def)
  from r show ?thesis
  proof
    assume "r = 0 \<and> gs = []"
    with w u(1) fr show ?thesis by (auto simp: step_def)
  next
    assume "\<exists>p. table_at (pmem u) pt [px 1 a, px 2 a] = Some p \<and> r = slot p (px 0 a) \<and> r \<noteq> 0"
    then obtain p where p: "table_at (pmem u) pt [px 1 a, px 2 a] = Some p" "r = slot p (px 0 a)" "r \<noteq> 0" by blast
    have wf: "pt_wf (pmem u) pt" using u(1) by (simp add: pt_ok_def)
    let ?t = "upd_mem (store64 r E) u"
    have st: "pt_wf (pmem ?t) pt" "tables (pmem ?t) pt = tables (pmem u) pt"
      "leaf (pmem ?t) pt vb = (if \<forall>l < 3. px l vb = px l a then E else leaf (pmem u) pt vb)" for vb
      using leaf_store [OF wf p(1), of "pmem ?t" E] p(2) by simp_all
    have pin: "p \<in> tables (pmem u) pt" using p(1) by (rule tablesI [rotated]) simp
    note al = slot_page [OF pt_wfD(1) [OF wf pin] px_less, of 0 a]
    have out: "store64 r E (pmem u) x = pmem u x" if "PGROUNDDOWN x \<notin> tables (pmem u) pt" for x
      using that in_word_page [OF al(2)] al(1) pin unfolding p(2) by (intro store64_outside) auto
    have "load64 (pmem u) r = leaf (pmem u) pt a" using p(1,2) by (simp add: leaf_def)
    then have "load64 (pmem u) r AND PTE_V = 0" using free by (simp only: lf)
    then have "step = K ?t" using w p(3) by (simp add: step_def load_pte_def store_pte_def)
    moreover have "free_rep ?t gs"
    proof (rule free_rep_cong)
      show "free_rep u gs" using u(1) by (simp add: pt_ok_def)
      show "pmem ?t x = pmem u x" if "PGROUNDDOWN x \<in> set gs" for x
      proof -
        have "PGROUNDDOWN x \<notin> tables (pmem u) pt" using that u(1) unfolding pt_ok_def by blast
        then show ?thesis using out by simp
      qed
    qed simp_all
    then have "pt_ok ?t pt gs" using u(1) st(1,2) by (simp add: pt_ok_def)
    moreover have "pt_frame pt u gs ?t gs" using st(2) out by (simp add: pt_frame_def)
    then have "pt_frame pt s fs ?t gs" by (rule pt_frame_trans [OF fr])
    moreover have "\<forall>vb < MAXVA. leaf (pmem ?t) pt vb = (if PGROUNDDOWN vb = PGROUNDDOWN a then E else leaf (pmem s) pt vb)"
    proof (intro allI impI)
      fix vb assume "vb < MAXVA"
      then show "leaf (pmem ?t) pt vb = (if PGROUNDDOWN vb = PGROUNDDOWN a then E else leaf (pmem s) pt vb)"
        using same_page_iff [OF a, of vb] by (simp only: st(3) lf)
    qed
    ultimately show ?thesis by blast
  qed
qed

lemma div_interval: "(v :: nat) div 4096 = k \<longleftrightarrow> 4096 * k \<le> v \<and> v < 4096 * k + 4096"
proof
  assume k: "v div 4096 = k"
  have "v = 4096 * (v div 4096) + v mod 4096" "v mod 4096 < 4096" by simp_all
  with k show "4096 * k \<le> v \<and> v < 4096 * k + 4096" by linarith
next
  assume "4096 * k \<le> v \<and> v < 4096 * k + 4096"
  then show "v div 4096 = k" by (intro div_nat_eqI) auto
qed

lemma page_interval: "page_aligned a \<Longrightarrow> unat a + 4096 \<le> 2 ^ 64 \<Longrightarrow>
    PGROUNDDOWN vb = a \<longleftrightarrow> unat a \<le> unat vb \<and> unat vb < unat a + 4096"
proof -
  assume a: "page_aligned a" "unat a + 4096 \<le> 2 ^ 64"
  obtain k where k: "unat a = 4096 * k" using a(1) by (metis aligned_unat mod_0_imp_dvd dvdE)
  have "PGROUNDDOWN vb = a \<longleftrightarrow> unat vb div 4096 * 4096 = 4096 * k"
    by (simp add: word_unat_eq_iff unat_PGROUNDDOWN k)
  also have "\<dots> \<longleftrightarrow> unat vb div 4096 = k" by auto
  also have "\<dots> \<longleftrightarrow> unat a \<le> unat vb \<and> unat vb < unat a + 4096"
    unfolding k by (rule div_interval)
  finally show ?thesis .
qed


lemma mappages_loop_step:
  assumes ok: "pt_ok s pt fs" and a: "a < MAXVA" and free: "leaf (pmem s) pt a AND PTE_V = 0"
  shows "(\<exists>t. mappages_loop (Suc n) pt a lasta pa perm s = Ok (-1) t \<and> pt_ok t pt [] \<and> pt_frame pt s fs t []) \<or>
    (\<exists>t fs'. mappages_loop (Suc n) pt a lasta pa perm s =
        (if a = lasta then return 0 else mappages_loop n pt (a + PGSIZE) lasta (pa + PGSIZE) perm) t \<and>
      pt_ok t pt fs' \<and> pt_frame pt s fs t fs' \<and> (\<forall>vb < MAXVA. leaf (pmem t) pt vb =
        (if PGROUNDDOWN vb = PGROUNDDOWN a then PA2PTE pa OR perm OR PTE_V else leaf (pmem s) pt vb)))"
  unfolding mappages_loop.simps(2) by (rule mappages_page [OF assms refl])

text \<open>The \<open>n\<close> pages from \<open>a\<close> are mapped to the pages from \<open>pa\<close>, and no other mapping differs.\<close>

definition maps_range :: "uint64 \<Rightarrow> mem \<Rightarrow> mem \<Rightarrow> uint64 \<Rightarrow> nat \<Rightarrow> uint64 \<Rightarrow> uint64 \<Rightarrow> bool" where
  "maps_range pt m m' a n pa perm \<longleftrightarrow> (\<forall>vb < MAXVA. leaf m' pt vb =
     (if unat a \<le> unat vb \<and> unat vb < unat a + n * 4096
      then PA2PTE (pa + (PGROUNDDOWN vb - a)) OR perm OR PTE_V else leaf m pt vb))"

lemma maps_range_one:
  assumes "page_aligned a" and "unat a + 4096 \<le> 2 ^ 64"
    and "\<forall>vb < MAXVA. leaf m' pt vb = (if PGROUNDDOWN vb = PGROUNDDOWN a then PA2PTE pa OR perm OR PTE_V else leaf m pt vb)"
  shows "maps_range pt m m' a 1 pa perm"
  unfolding maps_range_def
proof (intro allI impI)
  fix vb :: uint64 assume "vb < MAXVA"
  with assms(3) PGROUNDDOWN_id [OF assms(1)]
  have lf: "leaf m' pt vb = (if PGROUNDDOWN vb = a then PA2PTE pa OR perm OR PTE_V else leaf m pt vb)" by simp
  show "leaf m' pt vb = (if unat a \<le> unat vb \<and> unat vb < unat a + 1 * 4096
      then PA2PTE (pa + (PGROUNDDOWN vb - a)) OR perm OR PTE_V else leaf m pt vb)"
    unfolding lf mult_1 page_interval [OF assms(1,2), of vb, symmetric] by simp
qed

lemma maps_range_Suc:
  assumes one: "maps_range pt m u a 1 pa perm" and more: "maps_range pt u m' (a + PGSIZE) n (pa + PGSIZE) perm"
    and a: "unat (a + PGSIZE) = unat a + 4096"
  shows "maps_range pt m m' a (Suc n) pa perm"
  unfolding maps_range_def
proof (intro allI impI)
  fix vb :: uint64 assume vb: "vb < MAXVA"
  have shift: "pa + PGSIZE + (PGROUNDDOWN vb - (a + PGSIZE)) = pa + (PGROUNDDOWN vb - a)" by simp
  show "leaf m' pt vb = (if unat a \<le> unat vb \<and> unat vb < unat a + Suc n * 4096
      then PA2PTE (pa + (PGROUNDDOWN vb - a)) OR perm OR PTE_V else leaf m pt vb)"
    using one more vb unfolding maps_range_def a shift by auto
qed

lemma mappages_loop_ok:
  assumes "pt_ok s pt fs" and "page_aligned a" and "unat a + Suc n * 4096 \<le> 2 ^ 38"
    and "\<And>vb. unat a \<le> unat vb \<Longrightarrow> unat vb < unat a + Suc n * 4096 \<Longrightarrow> leaf (pmem s) pt vb AND PTE_V = 0"
  shows "\<exists>r t fs'. mappages_loop (Suc n) pt a (a + of_nat n * PGSIZE) pa perm s = Ok r t \<and> pt_ok t pt fs' \<and>
    pt_frame pt s fs t fs' \<and> (r = -1 \<and> fs' = [] \<or> r = 0 \<and> maps_range pt (pmem s) (pmem t) a (Suc n) pa perm)"
  using assms
proof (induction n arbitrary: s fs a pa)
  case (0 s fs a pa)
  have a: "a < MAXVA" using 0(3) by (simp add: MAXVA_def word_less_nat_alt)
  from mappages_loop_step [OF 0(1) a, of 0 "a + of_nat 0 * PGSIZE" pa perm] 0(4) [of a] show ?case
    using maps_range_one [OF 0(2), of _ pt pa perm "pmem s"] 0(3) by (auto simp del: mappages_loop.simps)
next
  case (Suc n)
  have a: "a < MAXVA" using Suc.prems(3) by (simp add: MAXVA_def word_less_nat_alt)
  have ua: "unat (a + PGSIZE) = unat a + 4096" using unat_add_nat [of a 4096] Suc.prems(3) by (simp add: PGSIZE_def)
  have al: "page_aligned (a + PGSIZE)" using Suc.prems(2) ua by (simp add: aligned_unat)
  let ?last = "a + of_nat (Suc n) * PGSIZE"
  have last: "?last = a + PGSIZE + of_nat n * PGSIZE" by (simp add: algebra_simps)
  have "unat ?last = unat a + Suc n * 4096"
    using unat_add_nat [of a "Suc n * 4096"] Suc.prems(3) by (simp add: PGSIZE_def)
  then have ne: "a \<noteq> ?last" by auto
  from mappages_loop_step [OF Suc.prems(1) a, of "Suc n" ?last pa perm] Suc.prems(4) [of a] ne consider
    (full) t where "mappages_loop (Suc (Suc n)) pt a ?last pa perm s = Ok (-1) t" "pt_ok t pt []" "pt_frame pt s fs t []"
  | (more) u gs where "mappages_loop (Suc (Suc n)) pt a ?last pa perm s = mappages_loop (Suc n) pt (a + PGSIZE) ?last (pa + PGSIZE) perm u"
      "pt_ok u pt gs" "pt_frame pt s fs u gs" "\<forall>vb < MAXVA. leaf (pmem u) pt vb =
        (if PGROUNDDOWN vb = PGROUNDDOWN a then PA2PTE pa OR perm OR PTE_V else leaf (pmem s) pt vb)"
    by (auto simp del: mappages_loop.simps)
  then show ?case
  proof cases
    case full
    then show ?thesis by blast
  next
    case more
    have one: "maps_range pt (pmem s) (pmem u) a 1 pa perm"
      by (rule maps_range_one [OF Suc.prems(2) _ more(4)]) (use Suc.prems(3) in simp)
    have "\<exists>r t fs'. mappages_loop (Suc n) pt (a + PGSIZE) (a + PGSIZE + of_nat n * PGSIZE) (pa + PGSIZE) perm u = Ok r t \<and>
      pt_ok t pt fs' \<and> pt_frame pt u gs t fs' \<and>
      (r = -1 \<and> fs' = [] \<or> r = 0 \<and> maps_range pt (pmem u) (pmem t) (a + PGSIZE) (Suc n) (pa + PGSIZE) perm)"
    proof (rule Suc.IH [OF more(2) al])
      show "unat (a + PGSIZE) + Suc n * 4096 \<le> 2 ^ 38" using Suc.prems(3) ua by simp
      fix vb :: uint64 assume vb: "unat (a + PGSIZE) \<le> unat vb" "unat vb < unat (a + PGSIZE) + Suc n * 4096"
      then have "vb < MAXVA" using Suc.prems(3) ua by (simp add: MAXVA_def word_less_nat_alt)
      then have "leaf (pmem u) pt vb = leaf (pmem s) pt vb" using one vb(1) ua by (auto simp: maps_range_def)
      then show "leaf (pmem u) pt vb AND PTE_V = 0" using Suc.prems(4) [of vb] vb ua by simp
    qed
    then show ?thesis unfolding more(1) unfolding last
      using pt_frame_trans [OF more(3)] maps_range_Suc [OF one _ ua] by blast
  qed
qed


text \<open>
  C35. \<^verbatim>\<open>mappages\<close> on a well-formed page table and a range of unmapped pages below \<^verbatim>\<open>MAXVA\<close> always
  returns 0 or -1. After 0 every page of the range is mapped to its physical page with the given
  permissions and every other address translates as before; after -1 the free list is empty. In both
  cases the page table is well formed, its new pages came from the free list, and no byte outside
  the pages of the page table has changed.
\<close>

theorem mappages_correct:
  assumes "pt_ok s pt fs" and "page_aligned va" and "0 < n" and "unat va + n * 4096 \<le> 2 ^ 38"
    and "\<And>vb. unat va \<le> unat vb \<Longrightarrow> unat vb < unat va + n * 4096 \<Longrightarrow> leaf (pmem s) pt vb AND PTE_V = 0"
  shows "\<exists>r t fs'. mappages pt va (of_nat n * PGSIZE) pa perm s = Ok r t \<and> pt_ok t pt fs' \<and> pt_frame pt s fs t fs' \<and>
    (r = -1 \<and> fs' = [] \<or> r = 0 \<and> (\<forall>vb < MAXVA. leaf (pmem t) pt vb =
      (if unat va \<le> unat vb \<and> unat vb < unat va + n * 4096
       then PA2PTE (pa + (PGROUNDDOWN vb - va)) OR perm OR PTE_V else leaf (pmem s) pt vb)))"
proof -
  obtain k where n: "n = Suc k" using assms(3) by (cases n) auto
  let ?size = "of_nat n * PGSIZE :: uint64"
  have us: "unat ?size = n * 4096"
    using assms(4) unat_of_nat [of "n * 4096", where 'a = 64] by (simp add: PGSIZE_def take_bit_nat_eq_self)
  have div: "unat (?size div PGSIZE) = Suc k" using us n by (simp add: unat_div PGSIZE_def)
  have L: "va + ?size - PGSIZE = va + of_nat k * PGSIZE" using n by (simp add: algebra_simps)
  have "?size \<noteq> 0" using us n by (metis mult_is_0 nat.distinct(1) unat_0 zero_neq_numeral)
  moreover have "?size mod PGSIZE = 0" using us by (simp add: word_unat_eq_iff unat_mod PGSIZE_def)
  moreover have "va mod PGSIZE = 0" using assms(2) by (simp add: page_aligned_def)
  ultimately have "mappages pt va ?size pa perm s = mappages_loop (Suc k) pt va (va + of_nat k * PGSIZE) pa perm s"
    unfolding mappages_def L div by (simp del: mappages_loop.simps)
  with mappages_loop_ok [OF assms(1,2), of k pa perm] assms(4,5) n show ?thesis
    unfolding maps_range_def by simp
qed

section \<open>User memory\<close>

text \<open>
  The physical address a user address stands for, and that a user address is mapped for user access
  (and writable).
\<close>

definition phys_addr :: "mem \<Rightarrow> uint64 \<Rightarrow> uint64 \<Rightarrow> uint64" where
  "phys_addr m pt va = PTE2PA (leaf m pt va) + (va - PGROUNDDOWN va)"

definition user_mapped :: "mem \<Rightarrow> uint64 \<Rightarrow> uint64 \<Rightarrow> bool" where
  "user_mapped m pt va \<longleftrightarrow> va < MAXVA \<and> leaf m pt va AND PTE_V \<noteq> 0 \<and> leaf m pt va AND PTE_U \<noteq> 0 \<and> PTE2PA (leaf m pt va) \<noteq> 0"

definition user_writable :: "mem \<Rightarrow> uint64 \<Rightarrow> uint64 \<Rightarrow> bool" where
  "user_writable m pt va \<longleftrightarrow> user_mapped m pt va \<and> leaf m pt va AND PTE_W \<noteq> 0"

lemma px_PGROUNDDOWN [simp]: "px l (PGROUNDDOWN va) = px l va"
proof -
  have "PX l (PGROUNDDOWN va) = PX l va"
    by (rule bit_word_eqI) (auto simp: PX_def PXMASK_def PXSHIFT_def PGSHIFT_def bit_simps PGROUNDDOWN_bit)
  then show ?thesis by (simp add: px_def)
qed

lemma leaf_PGROUNDDOWN [simp]: "leaf m pt (PGROUNDDOWN va) = leaf m pt va"
  by (simp add: leaf_def split: option.split)

lemma PGROUNDDOWN_le: "PGROUNDDOWN va \<le> va"
  by (simp add: word_le_nat_alt unat_PGROUNDDOWN)

lemma leaf_table:
  assumes "leaf m pt va AND PTE_V \<noteq> 0"
  obtains p where "table_at m pt [px 1 va, px 2 va] = Some p" "leaf m pt va = load64 m (slot p (px 0 va))"
proof -
  have "leaf m pt va \<noteq> 0" using assms by auto
  then show ?thesis using that by (cases "table_at m pt [px 1 va, px 2 va]") (auto simp: leaf_def)
qed

lemma walk_mapped:
  assumes "pt_wf (pmem s) pt" and "va < MAXVA" and "leaf (pmem s) pt va AND PTE_V \<noteq> 0"
  shows "\<exists>a. a \<noteq> 0 \<and> walk pt va False s = Ok a s \<and> load64 (pmem s) a = leaf (pmem s) pt va"
proof -
  from leaf_table [OF assms(3)] obtain p where p: "table_at (pmem s) pt [px 1 va, px 2 va] = Some p"
    "leaf (pmem s) pt va = load64 (pmem s) (slot p (px 0 va))" by blast
  have "p \<in> tables (pmem s) pt" using p(1) by (rule tablesI [rotated]) simp
  then have "slot p (px 0 va) \<noteq> 0" using assms(1) by (intro slot_nonzero) (auto dest: pt_wfD(1,2))
  with p walk_look [OF assms(2), of pt s] show ?thesis by (intro exI [of _ "slot p (px 0 va)"]) simp
qed

lemma walkaddr_mapped:
  assumes "pt_wf (pmem s) pt" and "user_mapped (pmem s) pt va"
  shows "walkaddr pt va s = Ok (PTE2PA (leaf (pmem s) pt va)) s"
proof -
  from assms(2) walk_mapped [OF assms(1), of va] obtain a where
    "a \<noteq> 0" "walk pt va False s = Ok a s" "load64 (pmem s) a = leaf (pmem s) pt va" by (auto simp: user_mapped_def)
  with assms(2) show ?thesis by (simp add: walkaddr_def user_mapped_def not_le load_pte_def)
qed

lemma user_mapped_page: "user_mapped m pt va \<Longrightarrow> user_mapped m pt (PGROUNDDOWN va)"
  using PGROUNDDOWN_le [of va] by (auto simp: user_mapped_def intro: le_less_trans)

lemma page_of_mapped:
  assumes "pt_wf (pmem s) pt" and "user_mapped (pmem s) pt va"
  shows "page_of pt (PGROUNDDOWN va) s = Ok (PTE2PA (leaf (pmem s) pt va)) s"
  using walkaddr_mapped [OF assms(1) user_mapped_page [OF assms(2)]] assms(2)
  by (simp add: page_of_def user_mapped_def)

text \<open>The part of a range in its first page.\<close>

lemma page_offset: "unat (va - PGROUNDDOWN va) = unat va mod 4096"
  using unat_sub [OF PGROUNDDOWN_le [of va]] by (simp add: unat_PGROUNDDOWN minus_div_mult_eq_mod)

lemma in_page_len_nat: "unat (in_page_len va len) = min (unat len) (4096 - unat va mod 4096)"
proof -
  have o: "unat (va - PGROUNDDOWN va) < 4096" by (simp add: page_offset)
  then have "va - PGROUNDDOWN va \<le> PGSIZE" by (simp add: word_le_nat_alt PGSIZE_def)
  then have "unat (PGSIZE - (va - PGROUNDDOWN va)) = 4096 - unat va mod 4096"
    by (simp add: unat_sub page_offset PGSIZE_def)
  then show ?thesis by (simp add: in_page_len_def Let_def word_less_nat_alt min_def not_less)
qed

lemma same_page_add:
  assumes "i < 4096 - unat va mod 4096" and "unat va + i < 2 ^ 64"
  shows "PGROUNDDOWN (va + of_nat i) = PGROUNDDOWN va"
    and "va + of_nat i - PGROUNDDOWN (va + of_nat i) = va - PGROUNDDOWN va + of_nat i"
proof -
  have "unat va = unat va div 4096 * 4096 + unat va mod 4096" by simp
  then have "(unat va + i) div 4096 = unat va div 4096" unfolding div_interval using assms(1) by linarith
  then show p: "PGROUNDDOWN (va + of_nat i) = PGROUNDDOWN va"
    using unat_add_nat [OF assms(2)] by (simp add: word_unat_eq_iff unat_PGROUNDDOWN)
  show "va + of_nat i - PGROUNDDOWN (va + of_nat i) = va - PGROUNDDOWN va + of_nat i" unfolding p by simp
qed

lemma phys_addr_add:
  assumes "i < 4096 - unat va mod 4096" and "unat va + i < 2 ^ 64"
  shows "phys_addr m pt (va + of_nat i) = phys_addr m pt va + of_nat i"
proof -
  have "leaf m pt (va + of_nat i) = leaf m pt va"
    using same_page_add(1) [OF assms] leaf_PGROUNDDOWN by metis
  then show ?thesis using same_page_add(2) [OF assms] by (simp add: phys_addr_def)
qed

lemma next_page:
  assumes "unat va < 2 ^ 38"
  shows "PGROUNDDOWN va + PGSIZE = va + of_nat (4096 - unat va mod 4096)"
proof -
  have a: "PGROUNDDOWN va + of_nat (unat va mod 4096) = va" unfolding page_offset [symmetric] by simp
  have "PGROUNDDOWN va + (of_nat (unat va mod 4096) + of_nat (4096 - unat va mod 4096)) =
      va + of_nat (4096 - unat va mod 4096)" by (simp only: add.assoc [symmetric] a)
  moreover have "of_nat (unat va mod 4096) + of_nat (4096 - unat va mod 4096) = (PGSIZE :: uint64)"
    by (simp add: PGSIZE_def flip: of_nat_add)
  ultimately show ?thesis by simp
qed


lemma bytes_phys:
  assumes "n \<le> 4096 - unat va mod 4096" and "unat va + n \<le> 2 ^ 38"
  shows "bytes m (phys_addr m' pt va) n = map (\<lambda>i. m (phys_addr m' pt (va + of_nat i))) [0..<n]"
proof (rule nth_equalityI)
  fix i assume "i < length (bytes m (phys_addr m' pt va) n)"
  then have i: "i < n" by simp
  then show "bytes m (phys_addr m' pt va) n ! i = map (\<lambda>i. m (phys_addr m' pt (va + of_nat i))) [0..<n] ! i"
    using phys_addr_add [of i va m' pt] assms by simp
qed simp

text \<open>Going on in the next page.\<close>

lemma advance_page:
  assumes len: "unat va + len \<le> 2 ^ 38" and n: "n = min len (4096 - unat va mod 4096)" and "n < len"
  shows "PGROUNDDOWN va + PGSIZE = va + of_nat n" and "unat (va + of_nat n) = unat va + n"
    and "unat (va + of_nat n) + (len - n) \<le> 2 ^ 38"
proof -
  have n': "n = 4096 - unat va mod 4096" using n assms(3) by auto
  show "PGROUNDDOWN va + PGSIZE = va + of_nat n" unfolding n' by (rule next_page) (use assms in auto)
  show u: "unat (va + of_nat n) = unat va + n" by (rule unat_add_nat) (use assms in auto)
  show "unat (va + of_nat n) + (len - n) \<le> 2 ^ 38" unfolding u using assms by auto
qed

lemma map_upt_split: "n \<le> k \<Longrightarrow> map f [0..<n] @ map (\<lambda>i. f (n + i)) [0..<k - n] = map f [0..<k]"
  by (rule nth_equalityI) (auto simp: nth_append)

lemma copyin_loop_ok:
  assumes "pt_wf (pmem s) pt" and "unat va + unat len \<le> 2 ^ 38" and "unat len < k"
    and "\<And>i. i < unat len \<Longrightarrow> user_mapped (pmem s) pt (va + of_nat i)"
  shows "copyin_loop k pt va len s = Ok (0, map (\<lambda>i. pmem s (phys_addr (pmem s) pt (va + of_nat i))) [0..<unat len]) s"
  using assms
proof (induction k arbitrary: va len)
  case (Suc k)
  show ?case
  proof (cases "len = 0")
    case False
    let ?n = "in_page_len va len"
    note n = in_page_len_nat [of va len]
    have pos: "0 < unat len" using False by (simp add: unat_gt_0)
    have n0: "0 < unat ?n" using pos n by simp
    have nle: "unat ?n \<le> unat len" using n by simp
    have rest: "unat (len - ?n) = unat len - unat ?n" using nle by (simp add: unat_sub word_le_nat_alt)
    have um: "user_mapped (pmem s) pt va" using Suc.prems(4) [of 0] pos by simp
    have pa: "PTE2PA (leaf (pmem s) pt va) + (va - PGROUNDDOWN va) = phys_addr (pmem s) pt va" by (simp add: phys_addr_def)
    let ?f = "\<lambda>va i. pmem s (phys_addr (pmem s) pt (va + of_nat i))"
    have first: "bytes (pmem s) (phys_addr (pmem s) pt va) (unat ?n) = map (?f va) [0..<unat ?n]"
      by (rule bytes_phys) (use n nle Suc.prems(2) in auto)
    have more: "copyin_loop k pt (PGROUNDDOWN va + PGSIZE) (len - ?n) s =
        Ok (0, map (?f (va + of_nat (unat ?n))) [0..<unat len - unat ?n]) s"
    proof (cases "unat ?n < unat len")
      case True
      note adv = advance_page [OF Suc.prems(2) n True]
      show ?thesis unfolding adv(1) rest [symmetric]
      proof (rule Suc.IH [OF Suc.prems(1)])
        show "unat (va + of_nat (unat ?n)) + unat (len - ?n) \<le> 2 ^ 38" using adv(3) rest by simp
        show "unat (len - ?n) < k" using rest n0 Suc.prems(3) pos by simp
        fix i assume "i < unat (len - ?n)"
        then have "i + unat ?n < unat len" using rest by simp
        with Suc.prems(4) [of "unat ?n + i"] show "user_mapped (pmem s) pt (va + of_nat (unat ?n) + of_nat i)"
          by (simp add: ac_simps)
      qed
    next
      case False
      then have "len - ?n = 0" using nle by (metis diff_self word_unat_eq_iff le_antisym not_le)
      moreover obtain j where "k = Suc j" using Suc.prems(3) pos by (cases k) auto
      ultimately show ?thesis using nle False by simp
    qed
    have "map (?f va) [0..<unat ?n] @ map (?f (va + of_nat (unat ?n))) [0..<unat len - unat ?n] = map (?f va) [0..<unat len]"
      using map_upt_split [OF nle, of "?f va"] by (simp add: add.assoc)
    with False um first more show ?thesis
      using page_of_mapped [OF Suc.prems(1) um] by (simp add: Let_def pa user_mapped_def)
  qed simp
qed simp


text \<open>\<open>wrote m m' f bs\<close>: the bytes \<open>bs\<close> have been put at the addresses \<open>f 0, f 1, \<dots>\<close> and nowhere else.\<close>

definition wrote :: "mem \<Rightarrow> mem \<Rightarrow> (nat \<Rightarrow> uint64) \<Rightarrow> uchar list \<Rightarrow> bool" where
  "wrote m m' f bs \<longleftrightarrow> (\<forall>i < length bs. m' (f i) = bs ! i) \<and> (\<forall>x. x \<notin> f ` {..<length bs} \<longrightarrow> m' x = m x)"

lemma wrote_append:
  assumes "wrote m u f bs" and "wrote u m' (\<lambda>i. f (length bs + i)) cs" and "inj_on f {..<length (bs @ cs)}"
  shows "wrote m m' f (bs @ cs)"
  unfolding wrote_def
proof (intro conjI allI impI)
  fix i assume i: "i < length (bs @ cs)"
  show "m' (f i) = (bs @ cs) ! i"
  proof (cases "i < length bs")
    case True
    have "f i \<noteq> f (length bs + j)" if "j < length cs" for j
      using inj_onD [OF assms(3), of i "length bs + j"] i True that by auto
    then have "f i \<notin> (\<lambda>j. f (length bs + j)) ` {..<length cs}" by blast
    then have "m' (f i) = u (f i)" using assms(2) unfolding wrote_def by blast
    then show ?thesis using assms(1) True by (simp add: wrote_def nth_append)
  next
    case False
    then have k: "i - length bs < length cs" "length bs + (i - length bs) = i" using i by simp_all
    then have "m' (f (length bs + (i - length bs))) = cs ! (i - length bs)" using assms(2) unfolding wrote_def by blast
    then show ?thesis using False k(2) by (simp add: nth_append)
  qed
next
  fix x assume "x \<notin> f ` {..<length (bs @ cs)}"
  then have x: "x \<noteq> f i" if "i < length bs + length cs" for i using that by auto
  have "x \<notin> (\<lambda>i. f (length bs + i)) ` {..<length cs}"
  proof
    assume "x \<in> (\<lambda>i. f (length bs + i)) ` {..<length cs}"
    then obtain i where "i < length cs" "x = f (length bs + i)" by blast
    with x [of "length bs + i"] show False by simp
  qed
  then have "m' x = u x" using assms(2) unfolding wrote_def by blast
  also have "x \<notin> f ` {..<length bs}"
  proof
    assume "x \<in> f ` {..<length bs}"
    then obtain i where "i < length bs" "x = f i" by blast
    with x [of i] show False by simp
  qed
  then have "u x = m x" using assms(1) unfolding wrote_def by blast
  finally show "m' x = m x" .
qed

lemma blit_wrote:
  assumes "length bs \<le> 2 ^ 64"
  shows "wrote m (blit m a bs) (\<lambda>i. a + of_nat i) bs"
  unfolding wrote_def
proof (intro conjI allI impI)
  show "blit m a bs (a + of_nat i) = bs ! i" if "i < length bs" for i
    using arg_cong [OF bytes_blit [OF assms, of m a], of "\<lambda>l. l ! i"] that by simp
  show "blit m a bs x = m x" if "x \<notin> (\<lambda>i. a + of_nat i) ` {..<length bs}" for x
    using that in_range_iff [OF assms, of x a] by (intro blit_outside) auto
qed

lemma wrote_cong: "(\<And>i. i < length bs \<Longrightarrow> f i = g i) \<Longrightarrow> wrote m m' f bs = wrote m m' g bs"
proof -
  assume eq: "\<And>i. i < length bs \<Longrightarrow> f i = g i"
  then have "f ` {..<length bs} = g ` {..<length bs}" by (intro image_cong) auto
  with eq show ?thesis by (simp add: wrote_def)
qed

definition user_target :: "mem \<Rightarrow> uint64 \<Rightarrow> uint64 \<Rightarrow> nat \<Rightarrow> bool" where
  "user_target m pt va len \<longleftrightarrow> unat va + len \<le> 2 ^ 38 \<and>
     (\<forall>i < len. user_writable m pt (va + of_nat i) \<and> PGROUNDDOWN (phys_addr m pt (va + of_nat i)) \<notin> tables m pt) \<and>
     inj_on (\<lambda>i. phys_addr m pt (va + of_nat i)) {..<len}"

text \<open>Writing to user pages leaves the translation alone.\<close>

lemma wrote_pt:
  assumes "pt_wf m pt" and "wrote m m' f bs" and "\<And>i. i < length bs \<Longrightarrow> PGROUNDDOWN (f i) \<notin> tables m pt"
  shows "pt_wf m' pt" and "tables m' pt = tables m pt" and "leaf m' pt = leaf m pt" and "phys_addr m' pt = phys_addr m pt"
    and "user_mapped m' pt = user_mapped m pt" and "user_writable m' pt = user_writable m pt"
proof -
  have "m' x = m x" if "PGROUNDDOWN x \<in> tables m pt" for x
  proof -
    have "x \<notin> f ` {..<length bs}" using assms(3) that by auto
    then show ?thesis using assms(2) unfolding wrote_def by blast
  qed
  then have c: "tables m' pt = tables m pt" "pt_wf m' pt" "\<And>va. leaf m' pt va = leaf m pt va"
    using pt_cong [OF assms(1)] by blast+
  show "pt_wf m' pt" by (rule c(2))
  show "tables m' pt = tables m pt" by (rule c(1))
  show l: "leaf m' pt = leaf m pt" using c(3) by blast
  show "phys_addr m' pt = phys_addr m pt" "user_mapped m' pt = user_mapped m pt" "user_writable m' pt = user_writable m pt"
    by (simp_all add: fun_eq_iff phys_addr_def user_mapped_def user_writable_def l)
qed

lemma user_target_split:
  assumes t: "user_target m pt va len" and "n < len" and n: "n = min len (4096 - unat va mod 4096)"
  shows "user_target m pt (va + of_nat n) (len - n)"
proof -
  have len: "unat va + len \<le> 2 ^ 38" using t by (simp add: user_target_def)
  note adv = advance_page [OF len n assms(2)]
  have e: "va + of_nat n + of_nat i = va + of_nat (n + i)" for i by (simp add: add.assoc)
  have "inj_on (\<lambda>i. phys_addr m pt (va + of_nat (n + i))) {..<len - n}"
  proof (rule inj_onI)
    fix i j assume ij: "i \<in> {..<len - n}" "j \<in> {..<len - n}" "phys_addr m pt (va + of_nat (n + i)) = phys_addr m pt (va + of_nat (n + j))"
    have "inj_on (\<lambda>i. phys_addr m pt (va + of_nat i)) {..<len}" using t by (simp add: user_target_def)
    from inj_onD [OF this ij(3)] ij show "i = j" by auto
  qed
  moreover have "user_writable m pt (va + of_nat (n + i)) \<and> PGROUNDDOWN (phys_addr m pt (va + of_nat (n + i))) \<notin> tables m pt" if "i < len - n" for i
  proof -
    have "n + i < len" using that by simp
    with t show ?thesis unfolding user_target_def by blast
  qed
  ultimately show ?thesis using adv(3) unfolding user_target_def e by blast
qed

lemma user_target_cong:
  assumes "tables m' pt = tables m pt" and "phys_addr m' pt = phys_addr m pt" and "user_writable m' pt = user_writable m pt"
  shows "user_target m' pt va len = user_target m pt va len"
  by (simp add: user_target_def assms)

lemma copyout_loop_ok:
  assumes "pt_wf (pmem s) pt" and "user_target (pmem s) pt va (length bs)" and "length bs < k"
  shows "\<exists>m'. copyout_loop k pt va bs s = Ok 0 (s\<lparr>pmem := m'\<rparr>) \<and> wrote (pmem s) m' (\<lambda>i. phys_addr (pmem s) pt (va + of_nat i)) bs"
  using assms
proof (induction k arbitrary: va bs s)
  case (Suc k)
  show ?case
  proof (cases "bs = []")
    case True
    then show ?thesis by (intro exI [of _ "pmem s"]) (simp add: wrote_def)
  next
    case False
    let ?m = "pmem s" and ?len = "length bs"
    let ?n = "unat (in_page_len va (of_nat ?len))"
    have t: "unat va + ?len \<le> 2 ^ 38" using Suc.prems(2) by (simp add: user_target_def)
    have ul: "unat (of_nat ?len :: uint64) = ?len" using t by (simp add: unat_of_nat)
    have n: "?n = min ?len (4096 - unat va mod 4096)" unfolding in_page_len_nat ul ..
    have pos: "0 < ?len" using False by simp
    have n0: "0 < ?n" unfolding n using pos by simp
    have nle: "?n \<le> ?len" unfolding n by simp
    have tg: "user_writable ?m pt (va + of_nat i)" "PGROUNDDOWN (phys_addr ?m pt (va + of_nat i)) \<notin> tables ?m pt" if "i < ?len" for i
      using Suc.prems(2) that by (auto simp: user_target_def)
    have w0: "user_writable ?m pt va" using tg(1) [of 0] pos by simp
    then have um: "user_mapped ?m pt va" by (simp add: user_writable_def)
    have ump: "user_mapped ?m pt (PGROUNDDOWN va)" by (rule user_mapped_page [OF um])
    then have lt0: "PGROUNDDOWN va < MAXVA" by (simp add: user_mapped_def)
    from walk_mapped [OF Suc.prems(1) lt0] ump obtain a where
      a: "a \<noteq> 0" "walk pt (PGROUNDDOWN va) False s = Ok a s" "load64 ?m a = leaf ?m pt va" by (auto simp: user_mapped_def)
    have pa: "PTE2PA (leaf ?m pt va) + (va - PGROUNDDOWN va) = phys_addr ?m pt va" by (simp add: phys_addr_def)
    let ?m1 = "blit ?m (phys_addr ?m pt va) (take ?n bs)"
    let ?f = "\<lambda>i. phys_addr ?m pt (va + of_nat i)"
    have lt: "length (take ?n bs) = ?n" using nle by simp
    have f: "phys_addr ?m pt va + of_nat i = ?f i" if "i < ?n" for i
      by (rule phys_addr_add [symmetric]) (use that n t in auto)
    have "wrote ?m ?m1 (\<lambda>i. phys_addr ?m pt va + of_nat i) (take ?n bs)" by (rule blit_wrote) (use lt nle t in simp)
    then have w1: "wrote ?m ?m1 ?f (take ?n bs)" using wrote_cong [of "take ?n bs" "\<lambda>i. phys_addr ?m pt va + of_nat i" ?f] f lt by simp
    have "PGROUNDDOWN (?f i) \<notin> tables ?m pt" if "i < length (take ?n bs)" for i using tg(2) that nle by simp
    note pt1 = wrote_pt [OF Suc.prems(1) w1 this]
    let ?s1 = "s\<lparr>pmem := ?m1\<rparr>"
    have step: "copyout_loop (Suc k) pt va bs s = copyout_loop k pt (PGROUNDDOWN va + PGSIZE) (drop ?n bs) ?s1"
      using False ump a page_of_mapped [OF Suc.prems(1) um] w0 um pa lt0
      by (auto simp: Let_def user_mapped_def user_writable_def load_pte_def upd_mem_def dest: leD)
    show ?thesis
    proof (cases "?n < ?len")
      case True
      note adv = advance_page [OF t n True]
      have tg1: "user_target (pmem ?s1) pt (va + of_nat ?n) (length (drop ?n bs))"
        using user_target_split [OF Suc.prems(2) True n] user_target_cong [OF pt1(2,4,6)] by simp
      have "length (drop ?n bs) < k" unfolding length_drop using n0 Suc.prems(3) pos by linarith
      from Suc.IH [OF _ tg1 this] pt1(1) obtain m' where
        m': "copyout_loop k pt (va + of_nat ?n) (drop ?n bs) ?s1 = Ok 0 (?s1\<lparr>pmem := m'\<rparr>)"
        "wrote ?m1 m' (\<lambda>i. phys_addr ?m1 pt (va + of_nat ?n + of_nat i)) (drop ?n bs)" by auto
      have e: "phys_addr ?m1 pt (va + of_nat ?n + of_nat i) = ?f (length (take ?n bs) + i)" for i
        unfolding lt using fun_cong [OF pt1(4)] by (simp add: add.assoc)
      have "inj_on ?f {..<length (take ?n bs @ drop ?n bs)}" using Suc.prems(2) by (simp add: user_target_def)
      from wrote_append [OF w1 _ this] m'(2) have "wrote ?m m' ?f bs" unfolding e by simp
      with step m'(1) adv(1) show ?thesis by (intro exI [of _ m']) simp
    next
      case False
      then have "drop ?n bs = []" "take ?n bs = bs" using nle by simp_all
      moreover obtain j where "k = Suc j" using Suc.prems(3) pos by (cases k) auto
      ultimately show ?thesis using step w1 by (intro exI [of _ ?m1]) simp
    qed
  qed
qed simp

lemma copyout_ok:
  assumes "pt_wf (pmem s) pt" and "user_target (pmem s) pt va (length bs)"
  shows "\<exists>m'. copyout pt va bs s = Ok 0 (s\<lparr>pmem := m'\<rparr>) \<and> wrote (pmem s) m' (\<lambda>i. phys_addr (pmem s) pt (va + of_nat i)) bs"
  unfolding copyout_def by (rule copyout_loop_ok [OF assms]) simp

lemma copyin_after_copyout:
  assumes wf: "pt_wf (pmem s) pt" and t: "user_target (pmem s) pt va (length bs)"
    and w: "wrote (pmem s) m' (\<lambda>i. phys_addr (pmem s) pt (va + of_nat i)) bs"
  shows "copyin pt va (of_nat (length bs)) (s\<lparr>pmem := m'\<rparr>) = Ok (0, bs) (s\<lparr>pmem := m'\<rparr>)"
proof -
  let ?s = "s\<lparr>pmem := m'\<rparr>"
  have tg: "user_writable (pmem s) pt (va + of_nat i)" "PGROUNDDOWN (phys_addr (pmem s) pt (va + of_nat i)) \<notin> tables (pmem s) pt"
    if "i < length bs" for i using t that by (auto simp: user_target_def)
  note c = wrote_pt [OF wf w tg(2)]
  have len: "unat va + length bs \<le> 2 ^ 38" using t by (simp add: user_target_def)
  then have ul: "unat (of_nat (length bs) :: uint64) = length bs" by (simp add: unat_of_nat)
  have "copyin pt va (of_nat (length bs)) ?s =
      Ok (0, map (\<lambda>i. pmem ?s (phys_addr (pmem ?s) pt (va + of_nat i))) [0..<unat (of_nat (length bs) :: uint64)]) ?s"
    unfolding copyin_def
  proof (rule copyin_loop_ok)
    show "pt_wf (pmem ?s) pt" using c(1) by simp
    show "unat va + unat (of_nat (length bs) :: uint64) \<le> 2 ^ 38" using len ul by simp
    show "user_mapped (pmem ?s) pt (va + of_nat i)" if "i < unat (of_nat (length bs) :: uint64)" for i
      using tg(1) [of i] that ul c(5) by (simp add: user_writable_def)
  qed simp
  also have "map (\<lambda>i. pmem ?s (phys_addr (pmem ?s) pt (va + of_nat i))) [0..<unat (of_nat (length bs) :: uint64)] = bs"
    by (rule nth_equalityI) (use w in \<open>simp_all add: ul c(4) wrote_def\<close>)
  finally show ?thesis .
qed

section \<open>A page table with one page\<close>

lemma zero_table:
  assumes "\<And>i. i < 512 \<Longrightarrow> load64 m (slot p i) = 0" and "page_aligned p" and "p \<noteq> 0"
  shows "tables m p = {p}" and "pt_wf m p" and "leaf m p va = 0"
proof -
  have "table_at m p (i # \<rho>) = None" if "valid_path (i # \<rho>)" for i \<rho>
    using that
  proof (induction \<rho> arbitrary: i)
    case Nil
    then show ?case using assms(1) by (simp add: table_at_Cons valid_path_Cons)
  next
    case (Cons j \<rho>)
    then have "table_at m p (j # \<rho>) = None" by (simp add: valid_path_Cons)
    then show ?case by (simp add: table_at_Cons [of m p i])
  qed
  then have t: "table_at m p \<rho> = (if \<rho> = [] then Some p else None)" if "valid_path \<rho>" for \<rho> using that by (cases \<rho>) auto
  show tb: "tables m p = {p}"
  proof (rule set_eqI)
    fix x show "x \<in> tables m p \<longleftrightarrow> x \<in> {p}"
      unfolding tables_def using t [of "[]"] t by (auto split: if_splits intro!: exI [of _ "[]"])
  qed
  have "\<rho> = []" if "valid_path \<rho>" "table_at m p \<rho> = Some q" for \<rho> q using t [OF that(1)] that(2) by (simp split: if_splits)
  then show "pt_wf m p" unfolding pt_wf_def tb using assms(2,3) by blast
  show "leaf m p va = 0" using t [of "[px 1 va, px 2 va]"] by (simp add: leaf_def)
qed

text \<open>Page 0 of a process, in the physical page \<open>user_page\<close>, with the three table pages above it.\<close>

definition root_page :: uint64 where "root_page = KERNBASE"
definition mid_page :: uint64 where "mid_page = KERNBASE + PGSIZE"
definition low_page :: uint64 where "low_page = KERNBASE + 2 * PGSIZE"
definition user_page :: uint64 where "user_page = KERNBASE + 3 * PGSIZE"

definition user_pte :: uint64 where "user_pte = PA2PTE user_page OR (PTE_W OR PTE_U OR PTE_R OR PTE_V)"

definition one_page_mem :: mem where
  "one_page_mem = store64 (slot low_page 0) user_pte
     (store64 (slot mid_page 0) (PA2PTE low_page OR PTE_V) (memset low_page 0 4096
     (store64 (slot root_page 0) (PA2PTE mid_page OR PTE_V) (memset mid_page 0 4096 (\<lambda>_. 0)))))"

lemmas page_defs = root_page_def mid_page_def low_page_def user_page_def KERNBASE_def PGSIZE_def

lemma load64_nil [simp]: "load64 (\<lambda>_. 0) a = 0"
  by (rule load64_zero) simp

lemma px_0 [simp]: "px l 0 = 0"
  by (simp add: px_def PX_def)

lemma one_page_table:
  "pt_wf one_page_mem root_page" "tables one_page_mem root_page = {root_page, mid_page, low_page}" "leaf one_page_mem root_page 0 = user_pte"
proof -
  let ?m0 = "\<lambda>_. 0 :: uchar"
  define m1 where "m1 = store64 (slot root_page 0) (PA2PTE mid_page OR PTE_V) (memset mid_page 0 4096 ?m0)"
  define m2 where "m2 = store64 (slot mid_page 0) (PA2PTE low_page OR PTE_V) (memset low_page 0 4096 m1)"
  have al: "page_aligned root_page" "page_aligned mid_page" "page_aligned low_page" "root_page \<noteq> 0" "mid_page \<noteq> 0" "low_page \<noteq> 0"
    "mid_page \<noteq> root_page" "low_page \<noteq> root_page" "low_page \<noteq> mid_page"
    by (simp_all add: page_defs page_aligned_def)
  note z = zero_table [of ?m0 root_page, OF _ al(1,4), simplified]
  have v1: "valid_path [0]" "valid_path [0, 0]" by (simp_all add: valid_path_def)
  have p1: "table_at ?m0 root_page [] = Some root_page" "load64 ?m0 (slot root_page 0) AND PTE_V = 0" "mid_page \<notin> tables ?m0 root_page"
    using z(1) al by simp_all
  note g1 = pt_grow [OF z(2) v1(1) p1(1,2) al(2,5) p1(3) m1_def]
  have 1: "tables m1 root_page = {mid_page, root_page}" "pt_wf m1 root_page" "table_at m1 root_page [0] = Some mid_page"
    using g1 z(1) al by simp_all
  have l1: "load64 m1 (slot mid_page 0) = 0"
  proof -
    have "memset mid_page 0 4096 ?m0 = ?m0" by (auto simp: memset_page al)
    then show ?thesis unfolding m1_def by (simp only:) (subst load64_other, simp_all add: slot_def page_defs word_aligned_def)
  qed
  have p2: "load64 m1 (slot mid_page 0) AND PTE_V = 0" "low_page \<notin> tables m1 root_page" using l1 1(1) al by simp_all
  note g2 = pt_grow [OF 1(2) v1(2) 1(3) p2(1) al(3,6) p2(2) m2_def]
  have 2: "tables m2 root_page = {low_page, mid_page, root_page}" "pt_wf m2 root_page" "table_at m2 root_page [0, 0] = Some low_page"
    using g2 1(1) by simp_all
  have e: "one_page_mem = store64 (slot low_page (px 0 0)) user_pte m2" by (simp add: one_page_mem_def m2_def m1_def)
  note s = leaf_store [OF 2(2) _ e]
  show "pt_wf one_page_mem root_page" "tables one_page_mem root_page = {root_page, mid_page, low_page}" "leaf one_page_mem root_page 0 = user_pte"
    using s(1,2) s(3) [of 0] 2 by auto
qed

lemma one_page_leaf: "i < 4096 \<Longrightarrow> leaf one_page_mem root_page (of_nat i) = user_pte"
  using same_page_add(1) [of i 0] leaf_PGROUNDDOWN [of one_page_mem root_page "of_nat i"] one_page_table(3)
  by (simp add: PGROUNDDOWN_def)

lemma one_page_phys: "i < 4096 \<Longrightarrow> phys_addr one_page_mem root_page (of_nat i) = user_page + of_nat i"
proof -
  assume i: "i < 4096"
  have "PGROUNDDOWN (of_nat i) = 0" using same_page_add(1) [of i 0] i by (simp add: PGROUNDDOWN_def)
  moreover have "PTE2PA user_pte = user_page" by (simp add: user_pte_def page_defs PA2PTE_def PTE2PA_def PTE_W_def PTE_U_def PTE_R_def PTE_V_def)
  ultimately show ?thesis by (simp add: phys_addr_def one_page_leaf [OF i])
qed

lemma one_page_target: "n \<le> 4096 \<Longrightarrow> user_target one_page_mem root_page 0 n"
proof -
  assume n: "n \<le> 4096"
  have "user_writable one_page_mem root_page (of_nat i)" if "i < n" for i
  proof -
    have "of_nat i < MAXVA" using that n by (simp add: word_less_nat_alt unat_of_nat MAXVA_def)
    moreover have "user_pte AND PTE_V \<noteq> 0" "user_pte AND PTE_U \<noteq> 0" "user_pte AND PTE_W \<noteq> 0" "PTE2PA user_pte \<noteq> 0"
      by (simp_all add: user_pte_def page_defs PA2PTE_def PTE2PA_def PTE_W_def PTE_U_def PTE_R_def PTE_V_def)
    ultimately show ?thesis using one_page_leaf [of i] that n by (simp add: user_writable_def user_mapped_def)
  qed
  moreover have "PGROUNDDOWN (user_page + of_nat i) = user_page" if "i < n" for i
    using same_page_add(1) [of i user_page] that n by (simp add: page_defs PGROUNDDOWN_def)
  moreover have "user_page \<notin> tables one_page_mem root_page" unfolding one_page_table(2) by (simp add: page_defs)
  moreover have "inj_on (\<lambda>i. user_page + of_nat i) {..<n}"
    using n by (auto intro!: inj_onI simp: word_of_nat_eq_iff take_bit_nat_eq_self)
  moreover have "inj_on (\<lambda>i. phys_addr one_page_mem root_page (of_nat i)) {..<n} = inj_on (\<lambda>i. user_page + of_nat i) {..<n}"
    by (rule inj_on_cong) (use n one_page_phys in auto)
  ultimately show ?thesis using n one_page_phys by (simp add: user_target_def)
qed

text \<open>
  C36. \<^verbatim>\<open>copyout\<close> and \<^verbatim>\<open>copyin\<close> fit together: bytes copied out to any range of a user space whose pages are mapped for user
  writing, over page boundaries and with the pages anywhere in physical memory, are the bytes that \<^verbatim>\<open>copyin\<close> of this range
  returns; the physical bytes behind the range are the only thing that changes.
\<close>

theorem copyout_copyin_roundtrip:
  assumes "pt_wf (pmem s) pt" and "user_target (pmem s) pt va (length bs)"
  shows "\<exists>t. copyout pt va bs s = Ok 0 t \<and> copyin pt va (of_nat (length bs)) t = Ok (0, bs) t \<and> t\<lparr>pmem := pmem s\<rparr> = s \<and>
    (\<forall>x. x \<in> (\<lambda>i. phys_addr (pmem s) pt (va + of_nat i)) ` {..<length bs} \<or> pmem t x = pmem s x)"
proof -
  from copyout_ok [OF assms] obtain m' where m': "copyout pt va bs s = Ok 0 (s\<lparr>pmem := m'\<rparr>)"
    "wrote (pmem s) m' (\<lambda>i. phys_addr (pmem s) pt (va + of_nat i)) bs" by blast
  from copyin_after_copyout [OF assms m'(2)] m' show ?thesis
    by (intro exI [of _ "s\<lparr>pmem := m'\<rparr>"]) (auto simp: wrote_def)
qed

theorem copyout_copyin_roundtrip_witness:
  "\<exists>t. copyout root_page 0 [1, 2, 3] (small_machine\<lparr>pmem := one_page_mem\<rparr>) = Ok 0 t \<and> copyin root_page 0 3 t = Ok (0, [1, 2, 3]) t"
  using copyout_copyin_roundtrip [of "small_machine\<lparr>pmem := one_page_mem\<rparr>" root_page 0 "[1, 2, 3]"] one_page_table(1) one_page_target [of "Suc (Suc (Suc 0))"]
  by fastforce

lemma two_free_table: "pt_ok two_free root_page [PHYSTOP - 2 * PGSIZE, PHYSTOP - PGSIZE] \<and> leaf (pmem two_free) root_page va = 0"
proof -
  have al: "page_aligned root_page" "root_page \<noteq> 0" by (simp_all add: page_defs page_aligned_def)
  have z: "load64 (pmem two_free) (slot root_page i) = 0" if "i < 512" for i
  proof -
    have "PGROUNDDOWN (slot root_page i) = root_page" "word_aligned (slot root_page i)" using slot_page [OF al(1) that] by simp_all
    moreover have "PGROUNDDOWN (PHYSTOP - 2 * PGSIZE) \<noteq> root_page" "word_aligned (PHYSTOP - 2 * PGSIZE)"
      by (simp_all add: page_defs PHYSTOP_def PGROUNDDOWN_def word_aligned_def)
    ultimately have "load64 (store64 (PHYSTOP - 2 * PGSIZE) (PHYSTOP - PGSIZE) (\<lambda>_. 0)) (slot root_page i) = load64 (\<lambda>_. 0) (slot root_page i)"
      by (intro load64_other) auto
    then show ?thesis by (simp add: two_free_def)
  qed
  note t = zero_table [OF z al]
  have "root_page \<notin> {PHYSTOP - 2 * PGSIZE, PHYSTOP - PGSIZE}" by (simp add: page_defs PHYSTOP_def)
  then show ?thesis using t two_free_rep two_free_ready by (simp add: pt_ok_def)
qed

theorem mappages_correct_witness:
  "\<exists>r t fs'. mappages root_page 0 (of_nat 1 * PGSIZE) user_page PTE_W two_free = Ok r t \<and> pt_ok t root_page fs' \<and>
    (r = -1 \<and> fs' = [] \<or> r = 0 \<and> leaf (pmem t) root_page 0 = PA2PTE (user_page + (PGROUNDDOWN 0 - 0)) OR PTE_W OR PTE_V)"
proof -
  have "page_aligned 0" by (simp add: page_aligned_def)
  moreover have "leaf (pmem two_free) root_page vb AND PTE_V = 0" for vb using two_free_table by simp
  moreover have "(0 :: uint64) < MAXVA" by (simp add: MAXVA_def)
  ultimately show ?thesis
    using mappages_correct [of two_free root_page _ 0 1 user_page PTE_W] two_free_table by fastforce
qed

end
