(* ===== verification/Sleeplock.thy ===== *)
theory Sleeplock
  imports Vm
begin

text \<open>
  Sleeping locks (kernel/sleeplock.c, kernel/sleeplock.h).

  A sleep lock is a flag and the process identifier of its holder, protected by a spin lock. Taking a
  lock that is held puts the caller to sleep: the code from the \<^verbatim>\<open>while\<close> on is the definition
  \<open>acquiresleep_tail\<close>, which a woken process runs again after \<open>sleep_rest\<close>.
\<close>

section \<open>State and operations\<close>

record sleeplock =
  sl_locked :: bool
  sl_name :: string
  sl_pid :: int

record slk = phys +
  slocks :: "sleeplock_id \<Rightarrow> sleeplock"

definition upd_slock :: "sleeplock_id \<Rightarrow> (sleeplock \<Rightarrow> sleeplock) \<Rightarrow> ('z) slk_scheme \<Rightarrow> ('z) slk_scheme" where
  "upd_slock lk f s = s\<lparr>slocks := (slocks s)(lk := f (slocks s lk))\<rparr>"

definition initsleeplock :: "sleeplock_id \<Rightarrow> string \<Rightarrow> ('z slk_scheme, unit) km" where
  "initsleeplock lk nm = block [
     initlock (SleepLk lk) ''sleep lock'',
     modify (upd_slock lk (\<lambda>k. k\<lparr>sl_name := nm\<rparr>)),
     modify (upd_slock lk (\<lambda>k. k\<lparr>sl_locked := False\<rparr>)),
     modify (upd_slock lk (\<lambda>k. k\<lparr>sl_pid := 0\<rparr>))]"

definition acquiresleep_tail :: "sleeplock_id \<Rightarrow> ('z slk_scheme, unit) km" where
  "acquiresleep_tail lk =
     ifm (\<lambda>s. sl_locked (slocks s lk))
       (sleep (ChanSleeplock lk) (SleepLk lk))
       (block [
         modify (upd_slock lk (\<lambda>k. k\<lparr>sl_locked := True\<rparr>)),
         with_proc (\<lambda>p. modify (\<lambda>s. upd_slock lk (\<lambda>k. k\<lparr>sl_pid := pid (procs s p)\<rparr>) s)),
         release (SleepLk lk)])"

definition acquiresleep :: "sleeplock_id \<Rightarrow> ('z slk_scheme, unit) km" where
  "acquiresleep lk = block [acquire (SleepLk lk), acquiresleep_tail lk]"

definition releasesleep :: "sleeplock_id \<Rightarrow> ('z slk_scheme, unit) km" where
  "releasesleep lk = block [
     acquire (SleepLk lk),
     modify (upd_slock lk (\<lambda>k. k\<lparr>sl_locked := False\<rparr>)),
     modify (upd_slock lk (\<lambda>k. k\<lparr>sl_pid := 0\<rparr>)),
     wakeup (Some (ChanSleeplock lk)),
     release (SleepLk lk)]"

text \<open>The second operand of \<^verbatim>\<open>&&\<close> calls \<^verbatim>\<open>myproc\<close> only when the lock is held.\<close>

definition holdingsleep :: "sleeplock_id \<Rightarrow> ('z slk_scheme, bool) km" where
  "holdingsleep lk = bind (acquire (SleepLk lk)) (\<lambda>_.
     bind (ifm (\<lambda>s. sl_locked (slocks s lk))
       (with_proc (\<lambda>p. gets (\<lambda>s. sl_pid (slocks s lk) = pid (procs s p))))
       (return False)) (\<lambda>r.
     bind (release (SleepLk lk)) (\<lambda>_. return r)))"

section \<open>Sleep locks of a process that runs alone\<close>


lemma upd_slock_acq [kcomm]: "upd_slock k f (acq l s) = acq l (upd_slock k f s)"
  by (simp add: upd_slock_def acq_def upd_cpu_def upd_lock_def)

lemma upd_slock_sels [simp]:
  "tp (upd_slock k f s) = tp s" "cpus (upd_slock k f s) = cpus s" "locks (upd_slock k f s) = locks s"
  "procs (upd_slock k f s) = procs s" "slocks (upd_slock k f s) = (slocks s)(k := f (slocks s k))"
  "slocks (acq l s) = slocks s"
  by (simp_all add: upd_slock_def acq_def upd_cpu_def upd_lock_def)

lemma upd_slock_twice [kcomm]: "upd_slock k g (upd_slock k f s) = upd_slock k (\<lambda>x. g (f x)) s"
  by (simp add: upd_slock_def)

lemma calm_upd_slock [simp]: "calm H (upd_slock k f s) = calm H s" "cur (upd_slock k f s) = cur s"
  by (rule calm_cong; simp)+

lemma acquiresleep_free:
  assumes c: "calm H s" and "SleepLk lk \<notin> H" and "\<not> sl_locked (slocks s lk)"
  shows "acquiresleep lk s = Ok () (upd_slock lk (\<lambda>k. k\<lparr>sl_locked := True, sl_pid := pid (procs s (cur s))\<rparr>) s)"
proof -
  let ?u = "acq (SleepLk lk) (upd_slock lk (\<lambda>k. k\<lparr>sl_locked := True\<rparr>) s)"
  let ?v = "upd_slock lk (\<lambda>k. k\<lparr>sl_locked := True, sl_pid := pid (procs s (cur s))\<rparr>) s"
  have cu: "calm (insert (SleepLk lk) H) ?u" by (rule calm_acq) (use assms in auto)
  have "release (SleepLk lk) (acq (SleepLk lk) ?v) = Ok () ?v"
    by (rule calm_release) (use assms in auto)
  then show ?thesis
    using assms by (simp add: acquiresleep_def acquiresleep_tail_def calm_acquire [OF c] kcomm calm_with_proc [OF cu])
qed

lemma releasesleep_calm:
  assumes c: "calm H s" and "SleepLk lk \<notin> H"
  shows "releasesleep lk s = Ok () (upd_slock lk (\<lambda>k. k\<lparr>sl_locked := False, sl_pid := 0\<rparr>) s)"
proof -
  let ?v = "upd_slock lk (\<lambda>k. k\<lparr>sl_locked := False, sl_pid := 0\<rparr>) s"
  have cv: "calm (insert (SleepLk lk) H) (acq (SleepLk lk) ?v)" by (rule calm_acq) (use assms in auto)
  have "wakeup cn (acq (SleepLk lk) ?v) = Ok () (acq (SleepLk lk) ?v)" for cn
    by (rule calm_wakeup [OF cv]) (use acq_nested [OF calmD(1) [OF c]] in auto)
  moreover have "release (SleepLk lk) (acq (SleepLk lk) ?v) = Ok () ?v"
    by (rule calm_release) (use assms in auto)
  ultimately show ?thesis
    using assms by (simp add: releasesleep_def calm_acquire [OF c] kcomm)
qed

lemma holdingsleep_calm:
  assumes c: "calm H s" and "SleepLk lk \<notin> H"
  shows "holdingsleep lk s = Ok (sl_locked (slocks s lk) \<and> sl_pid (slocks s lk) = pid (procs s (cur s))) s"
proof -
  have ca: "calm (insert (SleepLk lk) H) (acq (SleepLk lk) s)" by (rule calm_acq) (use assms in auto)
  have "release (SleepLk lk) (acq (SleepLk lk) s) = Ok () s" by (rule calm_release [OF c assms(2)])
  then show ?thesis
    using assms by (simp add: holdingsleep_def calm_acquire [OF c] bind_def calm_with_proc [OF ca])
qed

end
