(* ===== verification/Console.thy ===== *)
theory Console
  imports Sleeplock
begin

text \<open>
  The serial line, the console and formatted printing (kernel/uart.c, kernel/console.c,
  kernel/printf.c, \<^verbatim>\<open>procdump\<close> of kernel/proc.c).

  The device is seen through its registers: \<open>uart_rx\<close> are the bytes received and not yet read,
  \<open>uart_idle\<close> says whether the transmit holding register can take a byte, \<open>uart_tx\<close> collects the
  bytes written to it, \<open>uart_regs\<close> holds the other registers. When the device makes progress is not up
  to the driver; a loop that waits for it is left at once when the device is ready, and spins otherwise.
\<close>

section \<open>State\<close>

datatype devfns = ConsoleFns

record con = slk +
  uart_regs :: "nat \<Rightarrow> uchar"
  uart_rx :: "uchar list"
  uart_idle :: bool
  uart_tx :: "uchar list"
  tx_busy :: bool
  panicking :: bool
  panicked :: bool
  cons_buf :: "nat \<Rightarrow> uchar"
  cons_r :: uint
  cons_w :: uint
  cons_e :: uint
  devsw :: "nat \<Rightarrow> devfns option"

definition ch :: "char \<Rightarrow> uchar" where "ch c = of_char c"

definition chars :: "string \<Rightarrow> uchar list" where "chars cs = map ch cs"

section \<open>UART driver\<close>

definition THR :: nat where "THR = 0"
definition IER :: nat where "IER = 1"
definition IER_RX_ENABLE :: uchar where "IER_RX_ENABLE = push_bit 0 1"
definition IER_TX_ENABLE :: uchar where "IER_TX_ENABLE = push_bit 1 1"
definition FCR :: nat where "FCR = 2"
definition FCR_FIFO_ENABLE :: uchar where "FCR_FIFO_ENABLE = push_bit 0 1"
definition FCR_FIFO_CLEAR :: uchar where "FCR_FIFO_CLEAR = push_bit 1 3"
definition LCR :: nat where "LCR = 3"
definition LCR_EIGHT_BITS :: uchar where "LCR_EIGHT_BITS = push_bit 0 3"
definition LCR_BAUD_LATCH :: uchar where "LCR_BAUD_LATCH = push_bit 7 1"
definition LSR_RX_READY :: uchar where "LSR_RX_READY = push_bit 0 1"
definition LSR_TX_IDLE :: uchar where "LSR_TX_IDLE = push_bit 5 1"

definition WriteReg :: "nat \<Rightarrow> uchar \<Rightarrow> ('z con_scheme, unit) km" where
  "WriteReg r v = modify (\<lambda>s. s\<lparr>uart_regs := (uart_regs s)(r := v)\<rparr>)"

text \<open>A byte written to the transmit register outside the baud rate mode goes out on the line.\<close>

definition WriteTHR :: "uchar \<Rightarrow> ('z con_scheme, unit) km" where
  "WriteTHR v = modify (\<lambda>s. s\<lparr>uart_tx := uart_tx s @ [v]\<rparr>)"

definition ReadLSR :: "('z con_scheme) \<Rightarrow> uchar" where
  "ReadLSR s = (if uart_rx s = [] then 0 else LSR_RX_READY) OR (if uart_idle s then LSR_TX_IDLE else 0)"

definition uartinit :: "('z con_scheme, unit) km" where
  "uartinit = block [
     WriteReg IER 0,
     WriteReg LCR LCR_BAUD_LATCH,
     WriteReg 0 3,
     WriteReg 1 0,
     WriteReg LCR LCR_EIGHT_BITS,
     WriteReg FCR (FCR_FIFO_ENABLE OR FCR_FIFO_CLEAR),
     WriteReg IER (IER_TX_ENABLE OR IER_RX_ENABLE),
     initlock TxLock ''uart'']"

text \<open>\<open>uartwrite_loop\<close> sends the remaining bytes with \<^verbatim>\<open>tx_lock\<close> held; a sender that slept runs it again.\<close>

primrec uartwrite_loop :: "uchar list \<Rightarrow> ('z con_scheme, unit) km" where
  "uartwrite_loop [] = release TxLock"
| "uartwrite_loop (b # bs) = ifm (\<lambda>s. tx_busy s)
     (sleep ChanTx TxLock)
     (block [WriteTHR b, modify (\<lambda>s. s\<lparr>tx_busy := True\<rparr>), uartwrite_loop bs])"

definition uartwrite :: "uchar list \<Rightarrow> ('z con_scheme, unit) km" where
  "uartwrite buf = block [acquire TxLock, uartwrite_loop buf]"

definition uartputc_sync :: "uint \<Rightarrow> ('z con_scheme, unit) km" where
  "uartputc_sync c = block [
     ifm (\<lambda>s. \<not> panicking s) push_off skip,
     ifm (\<lambda>s. panicked s) (spin ''panicked'') skip,
     ifm (\<lambda>s. ReadLSR s AND LSR_TX_IDLE = 0) (spin ''uartputc_sync'') skip,
     WriteTHR (ucast c),
     ifm (\<lambda>s. \<not> panicking s) pop_off skip]"

definition uartgetc :: "('z con_scheme, int) km" where
  "uartgetc = ifm (\<lambda>s. ReadLSR s AND LSR_RX_READY \<noteq> 0)
     (bind (gets (\<lambda>s. hd (uart_rx s))) (\<lambda>b.
       bind (modify (\<lambda>s. s\<lparr>uart_rx := tl (uart_rx s)\<rparr>)) (\<lambda>_. return (uint b))))
     (return (-1))"

section \<open>Console output and printf\<close>

definition BACKSPACE :: uint where "BACKSPACE = 0x100"

definition consputc :: "uint \<Rightarrow> ('z con_scheme, unit) km" where
  "consputc c = (if c = BACKSPACE
     then block [uartputc_sync 8, uartputc_sync 32, uartputc_sync 8]
     else uartputc_sync c)"

definition digits :: "uchar list" where "digits = chars ''0123456789abcdef''"

text \<open>
  The loop of \<^verbatim>\<open>printint\<close> fills a buffer of 20 bytes with the digits, the last first. The first argument
  is the room that is left: \<open>None\<close> means that the loop writes behind the buffer.
\<close>

primrec printint_loop :: "nat \<Rightarrow> uint64 \<Rightarrow> uint64 \<Rightarrow> uchar list option" where
  "printint_loop 0 x base = None"
| "printint_loop (Suc room) x base =
     (let d = digits ! unat (x mod base) in
      if x div base \<noteq> 0 then map_option (\<lambda>ds. d # ds) (printint_loop room (x div base) base)
      else Some [d])"

definition printint_buf :: "uint64 \<Rightarrow> uint64 \<Rightarrow> bool \<Rightarrow> uchar list option" where
  "printint_buf xx base sign =
     (let neg = sign \<and> xx <s 0; x = (if neg then - xx else xx) in
      case printint_loop 20 x base of
        None \<Rightarrow> None
      | Some ds \<Rightarrow> if neg then (if length ds < 20 then Some (ds @ [ch CHR ''-'']) else None) else Some ds)"

definition printint :: "uint64 \<Rightarrow> uint64 \<Rightarrow> bool \<Rightarrow> ('z con_scheme, unit) km" where
  "printint xx base sign = (case printint_buf xx base sign of
       None \<Rightarrow> fault ''printint''
     | Some ds \<Rightarrow> for_each (rev ds) (\<lambda>d. consputc (ucast d)))"

primrec ptr_digits :: "nat \<Rightarrow> uint64 \<Rightarrow> uchar list" where
  "ptr_digits 0 x = []"
| "ptr_digits (Suc n) x = (digits ! unat (drop_bit 60 x)) # ptr_digits n (push_bit 4 x)"

definition printptr :: "uint64 \<Rightarrow> ('z con_scheme, unit) km" where
  "printptr x = block [
     consputc (ucast (ch CHR ''0'')),
     consputc (ucast (ch CHR ''x'')),
     for_each (ptr_digits 16 x) (\<lambda>d. consputc (ucast d))]"

text \<open>The arguments behind the format, as \<^verbatim>\<open>va_arg\<close> takes them: a register value or a string pointer.\<close>

datatype parg = PInt uint64 | PStr "uchar list" | PNull

datatype directive =
    DInt32 uint64 bool | DInt64 uint64 bool | DPtr | DChar | DStr | DPercent | DEnd | DUnknown uchar

text \<open>
  What follows a percent sign, and how many characters of it are consumed. The format is given without
  its NUL.
\<close>

definition directive :: "uchar list \<Rightarrow> directive \<times> nat" where
  "directive cs =
     (let c0 = (if 0 < length cs then cs ! 0 else 0);
          c1 = (if 1 < length cs then cs ! 1 else 0);
          c2 = (if 2 < length cs then cs ! 2 else 0) in
      if c0 = ch CHR ''d'' then (DInt32 10 True, 1)
      else if c0 = ch CHR ''l'' \<and> c1 = ch CHR ''d'' then (DInt64 10 True, 2)
      else if c0 = ch CHR ''l'' \<and> c1 = ch CHR ''l'' \<and> c2 = ch CHR ''d'' then (DInt64 10 True, 3)
      else if c0 = ch CHR ''u'' then (DInt32 10 False, 1)
      else if c0 = ch CHR ''l'' \<and> c1 = ch CHR ''u'' then (DInt64 10 False, 2)
      else if c0 = ch CHR ''l'' \<and> c1 = ch CHR ''l'' \<and> c2 = ch CHR ''u'' then (DInt64 10 False, 3)
      else if c0 = ch CHR ''x'' then (DInt32 16 False, 1)
      else if c0 = ch CHR ''l'' \<and> c1 = ch CHR ''x'' then (DInt64 16 False, 2)
      else if c0 = ch CHR ''l'' \<and> c1 = ch CHR ''l'' \<and> c2 = ch CHR ''x'' then (DInt64 16 False, 3)
      else if c0 = ch CHR ''p'' then (DPtr, 1)
      else if c0 = ch CHR ''c'' then (DChar, 1)
      else if c0 = ch CHR ''s'' then (DStr, 1)
      else if c0 = ch CHR ''%'' then (DPercent, 1)
      else if c0 = 0 then (DEnd, 0)
      else (DUnknown c0, 1))"

text \<open>One directive: print it, and return the arguments that are left.\<close>

definition print_directive :: "directive \<Rightarrow> parg list \<Rightarrow> ('z con_scheme, parg list) km" where
  "print_directive d ap = (case d of
       DPercent \<Rightarrow> bind (consputc (ucast (ch CHR ''%''))) (\<lambda>_. return ap)
     | DUnknown c \<Rightarrow> bind (consputc (ucast (ch CHR ''%''))) (\<lambda>_. bind (consputc (ucast c)) (\<lambda>_. return ap))
     | DEnd \<Rightarrow> return ap
     | _ \<Rightarrow> (case ap of [] \<Rightarrow> fault ''va_arg'' | a # ap' \<Rightarrow> bind (case (d, a) of
           (DInt32 base True, PInt v) \<Rightarrow> printint (scast (ucast v :: 32 word)) base True
         | (DInt32 base False, PInt v) \<Rightarrow> printint (ucast (ucast v :: 32 word)) base False
         | (DInt64 base sg, PInt v) \<Rightarrow> printint v base sg
         | (DPtr, PInt v) \<Rightarrow> printptr v
         | (DChar, PInt v) \<Rightarrow> consputc (ucast v)
         | (DStr, PStr cs) \<Rightarrow> for_each cs (\<lambda>c. consputc (ucast c))
         | (DStr, PNull) \<Rightarrow> for_each (chars ''(null)'') (\<lambda>c. consputc (ucast c))
         | _ \<Rightarrow> fault ''va_arg'') (\<lambda>_. return ap')))"

fun printf_loop :: "uchar list \<Rightarrow> parg list \<Rightarrow> ('z con_scheme, unit) km" where
  "printf_loop [] ap = skip"
| "printf_loop (c # cs) ap =
     (if c \<noteq> ch CHR ''%'' then bind (consputc (ucast c)) (\<lambda>_. printf_loop cs ap)
      else if fst (directive cs) = DEnd then skip
      else bind (print_directive (fst (directive cs)) ap) (\<lambda>ap'. printf_loop (drop (snd (directive cs)) cs) ap'))"

definition printf :: "string \<Rightarrow> parg list \<Rightarrow> ('z con_scheme, unit) km" where
  "printf fmt ap = block [
     ifm (\<lambda>s. \<not> panicking s) (acquire PrLock) skip,
     printf_loop (chars fmt) ap,
     ifm (\<lambda>s. \<not> panicking s) (release PrLock) skip]"

text \<open>What \<^verbatim>\<open>panic\<close> prints before it stops; the outcome \<open>Panic\<close> of the other components stands for it.\<close>

definition panic_output :: "string \<Rightarrow> ('z con_scheme, unit) km" where
  "panic_output m = block [
     modify (\<lambda>s. s\<lparr>panicking := True\<rparr>),
     printf ''panic: '' [],
     printf [CHR ''%'', CHR ''s'', CHR 0x0A] [PStr (chars m)],
     modify (\<lambda>s. s\<lparr>panicked := True\<rparr>),
     spin m]"

definition printfinit :: "('z con_scheme, unit) km" where
  "printfinit = initlock PrLock ''pr''"

text \<open>\<^verbatim>\<open>procdump\<close> (kernel/proc.c).\<close>

primrec state_name :: "procstate \<Rightarrow> string" where
  "state_name UNUSED = ''unused''"
| "state_name USED = ''used''"
| "state_name SLEEPING = ''sleep ''"
| "state_name RUNNABLE = ''runble''"
| "state_name RUNNING = ''run   ''"
| "state_name ZOMBIE = ''zombie''"

definition procdump :: "('z con_scheme, unit) km" where
  "procdump = block [
     printf [CHR 0x0A] [],
     for_each [0..<NPROC] (\<lambda>p. ifm (\<lambda>s. state (procs s p) = UNUSED) skip
       (bind (gets (\<lambda>s. procs s p)) (\<lambda>r. block [
          printf ''%d %s %s'' [PInt (word_of_int (pid r)), PStr (chars (state_name (state r))), PStr (cstr (name r))],
          printf [CHR 0x0A] []])))]"

section \<open>Console input\<close>

definition INPUT_BUF_SIZE :: uint where "INPUT_BUF_SIZE = 128"

definition ctrl :: "char \<Rightarrow> int" where "ctrl x = of_char x - of_char CHR ''@''"

definition NEWLINE :: uchar where "NEWLINE = 10"

primrec consolewrite_loop :: "nat \<Rightarrow> src_place \<Rightarrow> int \<Rightarrow> int \<Rightarrow> ('z con_scheme, int) km" where
  "consolewrite_loop 0 src i n = spin ''consolewrite''"
| "consolewrite_loop (Suc k) src i n =
     (if i < n then let nn = (if 32 > n - i then n - i else 32) in
        bind (either_copyin (src_add src (word_of_int i)) (word_of_int nn)) (\<lambda>(r, buf).
          if r = -1 then return i
          else bind (uartwrite buf) (\<lambda>_. consolewrite_loop k src (i + nn) n))
      else return i)"

definition consolewrite :: "src_place \<Rightarrow> int \<Rightarrow> ('z con_scheme, int) km" where
  "consolewrite src n = consolewrite_loop (Suc (nat n)) src 0 n"

text \<open>
  The loop of \<^verbatim>\<open>consoleread\<close> with \<open>n\<close> bytes still wanted. It gives the number of bytes not delivered, or
  \<open>None\<close> after the early return of a killed reader; a reader that slept runs it again.
\<close>

primrec consoleread_loop :: "nat \<Rightarrow> nat \<Rightarrow> dst_place \<Rightarrow> ('z con_scheme, nat option) km" where
  "consoleread_loop 0 target dst = return (Some 0)"
| "consoleread_loop (Suc n) target dst = ifm (\<lambda>s. cons_r s = cons_w s)
     (bind (with_proc killed) (\<lambda>k.
        if k then bind (release ConsLock) (\<lambda>_. return None)
        else wait_on ChanCons ConsLock))
     (bind (gets (\<lambda>s. cons_buf s (unat (cons_r s mod INPUT_BUF_SIZE)))) (\<lambda>c.
      bind (modify (\<lambda>s. s\<lparr>cons_r := cons_r s + 1\<rparr>)) (\<lambda>_.
        if uint c = ctrl CHR ''D'' then
          bind (if Suc n < target then modify (\<lambda>s. s\<lparr>cons_r := cons_r s - 1\<rparr>) else skip) (\<lambda>_. return (Some (Suc n)))
        else bind (either_copyout dst [c]) (\<lambda>r.
          if r = -1 then return (Some (Suc n))
          else if c = NEWLINE then return (Some n)
          else consoleread_loop n target (dst_add dst 1)))))"

definition consoleread :: "dst_place \<Rightarrow> int \<Rightarrow> ('z con_scheme, int) km" where
  "consoleread dst n = bind (acquire ConsLock) (\<lambda>_. bind (consoleread_loop (nat n) (nat n) dst) (\<lambda>r. case r of
       None \<Rightarrow> return (-1)
     | Some left \<Rightarrow> bind (release ConsLock) (\<lambda>_. return (int (nat n) - int left))))"

primrec killline_loop :: "nat \<Rightarrow> ('z con_scheme, unit) km" where
  "killline_loop 0 = spin ''consoleintr''"
| "killline_loop (Suc k) =
     ifm (\<lambda>s. cons_e s \<noteq> cons_w s \<and> cons_buf s (unat ((cons_e s - 1) mod INPUT_BUF_SIZE)) \<noteq> NEWLINE)
       (block [modify (\<lambda>s. s\<lparr>cons_e := cons_e s - 1\<rparr>), consputc BACKSPACE, killline_loop k])
       skip"

definition backspace_key :: "('z con_scheme, unit) km" where
  "backspace_key = ifm (\<lambda>s. cons_e s \<noteq> cons_w s)
     (block [modify (\<lambda>s. s\<lparr>cons_e := cons_e s - 1\<rparr>), consputc BACKSPACE]) skip"

definition plain_key :: "uchar \<Rightarrow> ('z con_scheme, unit) km" where
  "plain_key c0 = ifm (\<lambda>s. c0 \<noteq> 0 \<and> cons_e s - cons_r s < INPUT_BUF_SIZE)
     (let c = (if c0 = 13 then NEWLINE else c0) in block [
        consputc (ucast c),
        modify (\<lambda>s. s\<lparr>cons_buf := (cons_buf s)(unat (cons_e s mod INPUT_BUF_SIZE) := c), cons_e := cons_e s + 1\<rparr>),
        ifm (\<lambda>s. c = NEWLINE \<or> uint c = ctrl CHR ''D'' \<or> cons_e s - cons_r s = INPUT_BUF_SIZE)
          (block [modify (\<lambda>s. s\<lparr>cons_w := cons_e s\<rparr>), wakeup (Some ChanCons)]) skip])
     skip"

definition consoleintr :: "uchar \<Rightarrow> ('z con_scheme, unit) km" where
  "consoleintr c = block [
     acquire ConsLock,
     (if uint c = ctrl CHR ''P'' then procdump
      else if uint c = ctrl CHR ''U''
        then bind (gets (\<lambda>s. Suc (unat (cons_e s - cons_w s)))) killline_loop
      else if uint c = ctrl CHR ''H'' \<or> c = 0x7f then backspace_key
      else plain_key c),
     release ConsLock]"

definition consoleinit :: "('z con_scheme, unit) km" where
  "consoleinit = block [
     initlock ConsLock ''cons'',
     uartinit,
     modify (\<lambda>s. s\<lparr>devsw := (devsw s)(1 := Some ConsoleFns)\<rparr>)]"

primrec uartintr_loop :: "nat \<Rightarrow> ('z con_scheme, unit) km" where
  "uartintr_loop 0 = spin ''uartintr''"
| "uartintr_loop (Suc k) = bind uartgetc (\<lambda>c. if c = -1 then skip
     else block [consoleintr (word_of_int c), uartintr_loop k])"

definition uartintr :: "('z con_scheme, unit) km" where
  "uartintr = block [
     acquire TxLock,
     ifm (\<lambda>s. ReadLSR s AND LSR_TX_IDLE \<noteq> 0)
       (block [modify (\<lambda>s. s\<lparr>tx_busy := False\<rparr>), wakeup (Some ChanTx)]) skip,
     release TxLock,
     bind (gets (\<lambda>s. Suc (length (uart_rx s)))) uartintr_loop]"

section \<open>Printing numbers\<close>

text \<open>The number a list of digits stands for, the least significant digit first.\<close>

fun digits_value :: "nat \<Rightarrow> nat list \<Rightarrow> nat" where
  "digits_value b [] = 0"
| "digits_value b (d # ds) = d + b * digits_value b ds"

lemma printint_loop_ok:
  assumes "1 < unat base" and "unat x < unat base ^ room" and "0 < room"
  shows "\<exists>ds. printint_loop room x base = Some (map ((!) digits) ds) \<and> length ds \<le> room \<and> ds \<noteq> [] \<and>
    (\<forall>d\<in>set ds. d < unat base) \<and> (ds = [0] \<or> last ds \<noteq> 0) \<and> digits_value (unat base) ds = unat x"
  using assms(2,3)
proof (induction room arbitrary: x)
  case 0
  then show ?case by simp
next
  case (Suc room)
  let ?b = "unat base"
  show ?case
  proof (cases "x div base = 0")
    case True
    then have "unat (x div base) = 0" by simp
    then have "unat x div ?b = 0" by (simp add: unat_div)
    then have "unat x < ?b" using assms(1) by (simp add: div_eq_0_iff)
    then have m: "unat (x mod base) = unat x" by (simp add: unat_mod)
    have "printint_loop (Suc room) x base = Some (map ((!) digits) [unat x])"
      using True by (simp add: m)
    then show ?thesis using \<open>unat x < ?b\<close> by (intro exI [of _ "[unat x]"]) auto
  next
    case False
    have q: "unat (x div base) = unat x div ?b" by (simp add: unat_div)
    have pos: "0 < unat x div ?b" using False unfolding q [symmetric] by (simp add: unat_gt_0)
    have lt: "unat (x div base) < ?b ^ room"
      using Suc.prems(1) unfolding q by (simp add: less_mult_imp_div_less mult.commute)
    have "0 < room"
    proof (rule ccontr)
      assume "\<not> 0 < room"
      with Suc.prems(1) have "unat x < ?b" by simp
      with pos show False by simp
    qed
    from Suc.IH [OF lt this] obtain ds where ds: "printint_loop room (x div base) base = Some (map ((!) digits) ds)"
      "length ds \<le> room" "ds \<noteq> []" "\<forall>d\<in>set ds. d < ?b" "ds = [0] \<or> last ds \<noteq> 0"
      "digits_value ?b ds = unat (x div base)" by blast
    have m: "unat (x mod base) = unat x mod ?b" by (simp add: unat_mod)
    have nz: "last ds \<noteq> 0"
    proof
      assume "last ds = 0"
      then have "ds = [0]" using ds(5) by blast
      then have "digits_value ?b ds = 0" by simp
      then show False using ds(6) pos q by simp
    qed
    have "printint_loop (Suc room) x base = Some (map ((!) digits) (unat x mod ?b # ds))"
      using False ds(1) by (simp add: m)
    moreover have "digits_value ?b (unat x mod ?b # ds) = unat x"
      using ds(6) by (simp add: q)
    moreover have "unat x mod ?b < ?b" using assms(1) by simp
    ultimately show ?thesis using ds nz by (intro exI [of _ "unat x mod ?b # ds"]) auto
  qed
qed

lemma printint_abs:
  assumes "base = 10 \<or> base = (16 :: uint64)"
  shows "\<exists>ds. printint_loop 20 x base = Some (map ((!) digits) ds) \<and> length ds \<le> 20 \<and> ds \<noteq> [] \<and>
    (\<forall>d\<in>set ds. d < unat base) \<and> (ds = [0] \<or> last ds \<noteq> 0) \<and> digits_value (unat base) ds = unat x"
proof (rule printint_loop_ok)
  show "1 < unat base" using assms by auto
  have "unat x < 2 ^ 64" using unsigned_less [of x, where ?'a = nat] by simp
  then show "unat x < unat base ^ 20" using assms by auto
qed simp

lemma digits_value_ge: "ds \<noteq> [] \<Longrightarrow> last ds \<noteq> 0 \<Longrightarrow> 0 < b \<Longrightarrow> b ^ (length ds - 1) \<le> digits_value b ds"
proof (induction ds)
  case Nil
  then show ?case by simp
next
  case (Cons d ds)
  show ?case
  proof (cases "ds = []")
    case True
    then show ?thesis using Cons.prems by simp
  next
    case False
    with Cons have "b ^ (length ds - 1) \<le> digits_value b ds" by simp
    then have "b * b ^ (length ds - 1) \<le> b * digits_value b ds" by (rule mult_le_mono2)
    moreover have "b * b ^ (length ds - 1) = b ^ length ds" using False by (cases ds) auto
    ultimately show ?thesis by (metis diff_Suc_1 digits_value.simps(2) length_Cons trans_le_add2)
  qed
qed

lemma sint64: "sint xx = (if uint xx < 2 ^ 63 then uint xx else uint xx - 2 ^ 64)" for xx :: uint64
proof -
  have u: "0 \<le> uint xx" "uint xx < 2 ^ 64" using unsigned_less [of xx, where ?'a = int] by auto
  have "sint xx = (uint xx + 2 ^ 63) mod 2 ^ 64 - 2 ^ 63"
    by (simp add: sint_uint signed_take_bit_eq_take_bit_shift take_bit_eq_mod)
  moreover have "(uint xx + 2 ^ 63) mod 2 ^ 64 = (if uint xx < 2 ^ 63 then uint xx + 2 ^ 63 else uint xx - 2 ^ 63)"
  proof (cases "uint xx < 2 ^ 63")
    case True
    with u show ?thesis by (simp add: mod_pos_pos_trivial)
  next
    case False
    have "(uint xx + 2 ^ 63) mod 2 ^ 64 = (uint xx - 2 ^ 63 + 2 ^ 64) mod 2 ^ 64"
      by (rule arg_cong [where f = "\<lambda>z. z mod 2 ^ 64"]) simp
    also have "\<dots> = (uint xx - 2 ^ 63) mod 2 ^ 64" by (rule mod_add_self2)
    also have "\<dots> = uint xx - 2 ^ 63" by (rule mod_pos_pos_trivial) (use False u in auto)
    finally show ?thesis using False by simp
  qed
  ultimately show ?thesis by simp
qed

lemma neg_abs:
  fixes xx :: uint64
  assumes "xx <s 0"
  shows "int (unat (- xx)) = - sint xx" "unat (- xx) \<le> 2 ^ 63" "sint xx < 0"
proof -
  have n: "sint xx < 0" using assms by (simp add: word_sless_alt)
  then have u: "2 ^ 63 \<le> uint xx" "sint xx = uint xx - 2 ^ 64" by (auto simp: sint64 split: if_splits)
  then have "xx \<noteq> 0" by auto
  have b: "uint xx < 2 ^ 64" using unsigned_less [of xx, where ?'a = int] by simp
  have "uint (- xx) = (- uint xx) mod 2 ^ 64" by (simp add: uint_word_ariths)
  also have "\<dots> = 2 ^ 64 - uint xx" using b u(1) by (simp add: zmod_zminus1_eq_if)
  finally have i: "int (unat (- xx)) = 2 ^ 64 - uint xx" by simp
  with u show "int (unat (- xx)) = - sint xx" by simp
  from i u(1) have "int (unat (- xx)) \<le> int (2 ^ 63)" by simp
  then show "unat (- xx) \<le> 2 ^ 63" by (simp only: of_nat_le_iff)
  show "sint xx < 0" by (rule n)
qed

lemma printint_neg_fits:
  assumes "base = 10 \<or> base = (16 :: uint64)" and "v \<le> 2 ^ 63" and "ds \<noteq> []" and "ds = [0] \<or> last ds \<noteq> 0"
    and "digits_value (unat base) ds = v"
  shows "length ds < 20"
proof (cases "last ds = 0")
  case True
  then show ?thesis using assms(4) by simp
next
  case False
  have b: "1 < unat base" using assms(1) by auto
  from b have b0: "0 < unat base" by simp
  have "unat base ^ (length ds - 1) \<le> v"
    using digits_value_ge [OF assms(3) False b0] unfolding assms(5) .
  also have "v < unat base ^ 19" using assms(1,2) by (elim disjE) simp_all
  finally have "length ds - 1 < 19" by (rule power_less_imp_less_exp [OF b])
  then show ?thesis by simp
qed

lemma printint_buf_value:
  assumes "base = 10 \<or> base = 16"
  shows "\<exists>ds. printint_buf xx base sign = Some (map ((!) digits) ds @ (if sign \<and> xx <s 0 then [ch CHR ''-''] else [])) \<and>
    length ds + (if sign \<and> xx <s 0 then 1 else 0) \<le> 20 \<and>
    (\<forall>d\<in>set ds. d < unat base) \<and> (ds = [0] \<or> last ds \<noteq> 0) \<and>
    (if sign \<and> xx <s 0 then - int (digits_value (unat base) ds) else int (digits_value (unat base) ds)) =
      (if sign then sint xx else uint xx)"
proof (cases "sign \<and> xx <s 0")
  case True
  from printint_abs [OF assms, of "- xx"] obtain ds where ds:
    "printint_loop 20 (- xx) base = Some (map ((!) digits) ds)" "ds \<noteq> []" "\<forall>d\<in>set ds. d < unat base"
    "ds = [0] \<or> last ds \<noteq> 0" "digits_value (unat base) ds = unat (- xx)" by blast
  have neg: "xx <s 0" using True by simp
  have "length ds < 20" by (rule printint_neg_fits [OF assms neg_abs(2) [OF neg] ds(2,4,5)])
  then show ?thesis using True ds neg_abs(1) [OF neg] by (intro exI [of _ ds]) (auto simp: printint_buf_def)
next
  case False
  from printint_abs [OF assms, of xx] obtain ds where ds:
    "printint_loop 20 xx base = Some (map ((!) digits) ds)" "length ds \<le> 20" "\<forall>d\<in>set ds. d < unat base"
    "ds = [0] \<or> last ds \<noteq> 0" "digits_value (unat base) ds = unat xx" by blast
  have "sint xx = uint xx" if sign
  proof -
    have "\<not> sint xx < 0" using False that by (simp add: word_sless_alt)
    moreover have "uint xx < 2 ^ 64" using unsigned_less [of xx, where ?'a = int] by simp
    ultimately show ?thesis by (auto simp: sint64 split: if_splits)
  qed
  then show ?thesis using False ds by (intro exI [of _ ds]) (auto simp: printint_buf_def)
qed

text \<open>
  C40. For both bases \<^verbatim>\<open>printf\<close> uses, \<^verbatim>\<open>printint\<close> never writes behind its buffer of 20 bytes, and what it
  prints is the number: digits below the base, no leading zero, a minus sign exactly for a negative
  number printed as signed, with the value of the argument at its width (the most negative number
  included, whose 19 digits and sign fill the buffer).
\<close>

theorem printint_writes_value:
  assumes "base = 10 \<or> base = 16"
  shows "\<exists>ds. printint_buf xx base sign = Some (map ((!) digits) ds @ (if sign \<and> xx <s 0 then [ch CHR ''-''] else [])) \<and>
    length ds + (if sign \<and> xx <s 0 then 1 else 0) \<le> 20 \<and>
    (\<forall>d\<in>set ds. d < unat base) \<and> (ds = [0] \<or> last ds \<noteq> 0) \<and>
    (if sign \<and> xx <s 0 then - int (digits_value (unat base) ds) else int (digits_value (unat base) ds)) =
      (if sign then sint xx else uint xx)"
  by (rule printint_buf_value [OF assms])

theorem printint_writes_value_witness:
  "\<exists>ds. printint_buf 0x8000000000000000 10 True = Some (map ((!) digits) ds @ [ch CHR ''-'']) \<and>
     length ds \<le> 19 \<and> digits_value 10 ds = 9223372036854775808"
proof -
  have n: "(0x8000000000000000 :: uint64) <s 0" "sint (0x8000000000000000 :: uint64) = - 9223372036854775808"
    by (simp_all add: word_sless_alt sint64)
  from printint_writes_value [of 10 "0x8000000000000000" True] n obtain ds where
    "printint_buf 0x8000000000000000 10 True = Some (map ((!) digits) ds @ [ch CHR ''-''])"
    "length ds + 1 \<le> 20" "- int (digits_value 10 ds) = - 9223372036854775808"
    by auto
  then show ?thesis by (intro exI [of _ ds]) auto
qed

section \<open>Output of a process that runs alone\<close>

definition out :: "uchar list \<Rightarrow> ('z) con_scheme \<Rightarrow> ('z) con_scheme" where
  "out bs s = s\<lparr>uart_tx := uart_tx s @ bs\<rparr>"

definition console_ready :: "('z) con_scheme \<Rightarrow> bool" where
  "console_ready s \<longleftrightarrow> uart_idle s \<and> \<not> panicking s \<and> \<not> panicked s"

lemma out_sels [simp]:
  "tp (out bs s) = tp s" "cpus (out bs s) = cpus s" "locks (out bs s) = locks s" "procs (out bs s) = procs s"
  "slocks (out bs s) = slocks s" "panicking (out bs s) = panicking s" "panicked (out bs s) = panicked s"
  "console_ready (out bs s) = console_ready s" "uart_tx (out bs s) = uart_tx s @ bs"
  by (simp_all add: out_def console_ready_def)

lemma con_acq [simp]:
  "panicking (acq l s) = panicking s" "panicked (acq l s) = panicked s" "console_ready (acq l s) = console_ready s"
  "ReadLSR (acq l s) = ReadLSR s"
  by (simp_all add: acq_def upd_cpu_def upd_lock_def console_ready_def ReadLSR_def)

lemma out_comm [kcomm]: "out bs (acq l s) = acq l (out bs s)" "out cs (out bs s) = out (bs @ cs) s"
  by (simp_all add: out_def acq_def upd_cpu_def upd_lock_def)

lemma out_Nil [simp]: "out [] s = s"
  by (simp add: out_def)

lemma calm_out [simp]: "calm H (out bs s) = calm H s" "cur (out bs s) = cur s"
  by (rule calm_cong; simp)+

text \<open>Where the lock and interrupt state is settled, a byte goes out and nothing else happens.\<close>

definition settled :: "('z) machine_scheme \<Rightarrow> bool" where
  "settled s \<longleftrightarrow> irq_wf s \<and> settle s = s"

lemma settled_out [simp]: "settled (out bs s) = settled s"
  by (simp add: settled_def settle_id_iff irq_wf_def)

lemma uartputc_sync_eq:
  assumes "settled s" and "console_ready s"
  shows "uartputc_sync c s = Ok () (out [ucast c] s)"
proof -
  let ?p = "upd_cpu (\<lambda>k. k\<lparr>sie := False, intena := (if noff k = 0 then sie k else intena k), noff := noff k + 1\<rparr>) s"
  have off: "push_off s = Ok () ?p" by (simp add: push_off_eq)
  have "pop_off (out [ucast c] ?p) = Ok () (settle (out [ucast c] s))"
    using assms(1) by (auto simp: pop_off_eq settled_def irq_wf_def settle_def upd_cpu_def out_def fun_eq_iff)
  moreover have "settle (out [ucast c] s) = out [ucast c] s" using assms(1) settled_out [of "[ucast c]" s] by (simp add: settled_def)
  moreover have "ReadLSR ?p AND LSR_TX_IDLE \<noteq> 0"
    using assms(2) by (simp add: ReadLSR_def console_ready_def LSR_TX_IDLE_def LSR_RX_READY_def upd_cpu_def)
  ultimately show ?thesis
    using assms(2) off by (simp add: uartputc_sync_def console_ready_def WriteTHR_def out_def upd_cpu_def)
qed

lemma consputc_byte:
  fixes c :: uchar
  assumes "settled s" and "console_ready s"
  shows "consputc (ucast c) s = Ok () (out [c] s)"
proof -
  have "unat (ucast c :: uint) < 256" using unsigned_less [of c, where ?'a = nat] by (simp add: unsigned_ucast_eq take_bit_nat_eq_self)
  then have "(ucast c :: uint) \<noteq> BACKSPACE" by (auto simp: BACKSPACE_def)
  moreover have "(ucast (ucast c :: uint) :: uchar) = c" by (rule bit_word_eqI) (simp add: bit_ucast_iff)
  ultimately show ?thesis using uartputc_sync_eq [OF assms, of "ucast c"] by (simp add: consputc_def)
qed

lemma consputc_bytes:
  fixes cs :: "uchar list"
  assumes "settled s" and "console_ready s"
  shows "for_each cs (\<lambda>c. consputc (ucast c)) s = Ok () (out cs s)"
  using assms by (induction cs arbitrary: s) (simp_all add: consputc_byte kcomm)

lemma printint_out:
  assumes "base = 10 \<or> base = 16" and "settled s" and "console_ready s"
  shows "\<exists>bs. printint xx base sg s = Ok () (out bs s)"
proof -
  obtain ds where "printint_buf xx base sg = Some ds" using printint_buf_value [OF assms(1), of xx sg] by auto
  with consputc_bytes [OF assms(2,3)] show ?thesis by (auto simp: printint_def)
qed

text \<open>A format whose directives find arguments of their kind.\<close>

fun fits :: "directive \<Rightarrow> parg \<Rightarrow> bool" where
  "fits (DInt32 b sg) (PInt v) = (b = 10 \<or> b = 16)"
| "fits (DInt64 b sg) (PInt v) = (b = 10 \<or> b = 16)"
| "fits DStr (PStr cs) = True"
| "fits DStr PNull = True"
| "fits _ _ = False"

fun format_ok :: "uchar list \<Rightarrow> parg list \<Rightarrow> bool" where
  "format_ok [] ap = True"
| "format_ok (c # cs) ap =
     (if c \<noteq> ch CHR ''%'' then format_ok cs ap
      else ap \<noteq> [] \<and> fits (fst (directive cs)) (hd ap) \<and> format_ok (drop (snd (directive cs)) cs) (tl ap))"

lemma print_directive_out:
  assumes "fits d a" and "settled s" and "console_ready s"
  shows "\<exists>bs. print_directive d (a # ap) s = Ok ap (out bs s)"
proof -
  have p: "\<exists>bs. bind (printint v b sg) (\<lambda>_. return ap) s = Ok ap (out bs s)" if "b = 10 \<or> b = 16" for v b sg
    using printint_out [OF that assms(2,3), of v sg] by auto
  show ?thesis
    using assms p consputc_bytes [OF assms(2,3)]
    by (cases "(d, a)" rule: fits.cases) (auto simp: print_directive_def split: bool.splits)
qed

lemma printf_loop_out:
  assumes "format_ok cs ap" and "settled s" and "console_ready s"
  shows "\<exists>bs. printf_loop cs ap s = Ok () (out bs s)"
  using assms
proof (induction cs ap arbitrary: s rule: format_ok.induct)
  case (1 ap)
  show ?case by (intro exI [of _ "[]"]) simp
next
  case (2 c cs ap)
  show ?case
  proof (cases "c = ch CHR ''%''")
    case False
    with "2.IH"(1) [of "out [c] s"] "2.prems" obtain bs where "printf_loop cs ap (out [c] s) = Ok () (out bs (out [c] s))" by auto
    with False 2 show ?thesis by (auto simp: consputc_byte kcomm)
  next
    case True
    with "2.prems"(1) obtain a ap' where a: "ap = a # ap'" "fits (fst (directive cs)) a"
      "format_ok (drop (snd (directive cs)) cs) ap'" by (cases ap) auto
    then have ne: "fst (directive cs) \<noteq> DEnd" by auto
    from print_directive_out [OF a(2) "2.prems"(2,3)] obtain bs where
      bs: "print_directive (fst (directive cs)) (a # ap') s = Ok ap' (out bs s)" by blast
    have "\<exists>cs'. printf_loop (drop (snd (directive cs)) cs) (tl ap) (out bs s) = Ok () (out cs' (out bs s))"
      by (rule "2.IH"(2)) (use True "2.prems" in auto)
    with bs True ne a(1) show ?thesis by (auto simp: kcomm)
  qed
qed

lemma printf_out:
  assumes fmt: "format_ok (chars fmt) ap" and c: "calm {} s" and r: "console_ready s"
  shows "\<exists>bs. printf fmt ap s = Ok () (out bs s)"
proof -
  have "settled (acq PrLock s)" using calmD(1) [OF c] by (auto simp: settled_def irq_wf_def)
  with printf_loop_out [OF fmt, of "acq PrLock s"] r obtain bs where
    bs: "printf_loop (chars fmt) ap (acq PrLock s) = Ok () (acq PrLock (out bs s))" by (auto simp: kcomm)
  have "release PrLock (acq PrLock (out bs s)) = Ok () (out bs s)" by (rule calm_release [of "{}"]) (use c in simp_all)
  with bs r c show ?thesis by (intro exI [of _ bs]) (simp add: printf_def calm_acquire console_ready_def)
qed

lemma recovering_format: "format_ok (chars (''recovering tail %d dst %d'' @ [CHR 0x0A])) [PInt v, PInt w]"
  by (simp add: chars_def ch_def directive_def)

end
