(* ===== verification/Bio.thy ===== *)
theory Bio
  imports Console
begin

text \<open>
  The buffer cache (kernel/bio.c, kernel/buf.h).

  The disk is a function from block numbers to blocks, a block a function from byte offsets to bytes.
  The cache is an array of buffers on a doubly linked list whose head is one more buffer, as in the
  code. A transfer through the disk driver is \<open>disk_rw\<close>, what \<^verbatim>\<open>virtio_disk_rw\<close> has done when it returns;
  the driver itself is in the theory \<open>Virtio\<close>. \<open>dtrace\<close> records the writes that reached the disk, in order.
\<close>

section \<open>Blocks\<close>

type_synonym blk = "nat \<Rightarrow> uchar"

definition BSIZE :: nat where "BSIZE = 1024"

definition get_bytes :: "blk \<Rightarrow> nat \<Rightarrow> nat \<Rightarrow> uchar list" where
  "get_bytes b off n = map b [off..<off + n]"

definition put_bytes :: "nat \<Rightarrow> uchar list \<Rightarrow> blk \<Rightarrow> blk" where
  "put_bytes off bs b = (\<lambda>i. if off \<le> i \<and> i < off + length bs then bs ! (i - off) else b i)"

definition get32 :: "blk \<Rightarrow> nat \<Rightarrow> uint" where "get32 b off = le_word (get_bytes b off 4)"
definition put32 :: "nat \<Rightarrow> uint \<Rightarrow> blk \<Rightarrow> blk" where "put32 off v = put_bytes off (le_bytes 4 v)"
definition get16 :: "blk \<Rightarrow> nat \<Rightarrow> ushort" where "get16 b off = le_word (get_bytes b off 2)"
definition put16 :: "nat \<Rightarrow> ushort \<Rightarrow> blk \<Rightarrow> blk" where "put16 off v = put_bytes off (le_bytes 2 v)"

section \<open>State\<close>

definition ROOTDEV :: uint where "ROOTDEV = 1"
definition MAXOPBLOCKS :: nat where "MAXOPBLOCKS = 10"
definition LOGBLOCKS :: nat where "LOGBLOCKS = MAXOPBLOCKS * 3"
definition NBUF :: nat where "NBUF = MAXOPBLOCKS * 3"

record buf =
  b_valid :: bool
  b_disk :: bool
  b_dev :: uint
  b_blockno :: uint
  b_refcnt :: uint
  b_prev :: nat
  b_next :: nat
  b_data :: blk

text \<open>Buffer number \<open>NBUF\<close> is \<^verbatim>\<open>bcache.head\<close>.\<close>

record bio = con +
  bufs :: "nat \<Rightarrow> buf"
  disk :: "uint \<Rightarrow> blk"
  dtrace :: "(uint \<times> blk) list"

definition bhead :: nat where "bhead = NBUF"

definition upd_buf :: "nat \<Rightarrow> (buf \<Rightarrow> buf) \<Rightarrow> ('z) bio_scheme \<Rightarrow> ('z) bio_scheme" where
  "upd_buf b f s = s\<lparr>bufs := (bufs s)(b := f (bufs s b))\<rparr>"

definition upd_data :: "nat \<Rightarrow> (blk \<Rightarrow> blk) \<Rightarrow> ('z bio_scheme, unit) km" where
  "upd_data b f = modify (upd_buf b (\<lambda>r. r\<lparr>b_data := f (b_data r)\<rparr>))"

definition disk_rw :: "nat \<Rightarrow> bool \<Rightarrow> ('z bio_scheme, unit) km" where
  "disk_rw b write = (if write
     then modify (\<lambda>s. s\<lparr>disk := (disk s)(b_blockno (bufs s b) := b_data (bufs s b)),
       dtrace := dtrace s @ [(b_blockno (bufs s b), b_data (bufs s b))]\<rparr>)
     else modify (\<lambda>s. upd_buf b (\<lambda>r. r\<lparr>b_data := disk s (b_blockno r)\<rparr>) s))"

section \<open>Operations\<close>

definition binit_one :: "nat \<Rightarrow> ('z bio_scheme, unit) km" where
  "binit_one b = block [
     modify (\<lambda>s. upd_buf b (\<lambda>r. r\<lparr>b_next := b_next (bufs s bhead)\<rparr>) s),
     modify (upd_buf b (\<lambda>r. r\<lparr>b_prev := bhead\<rparr>)),
     initsleeplock (BufLock b) ''buffer'',
     modify (\<lambda>s. upd_buf (b_next (bufs s bhead)) (\<lambda>r. r\<lparr>b_prev := b\<rparr>) s),
     modify (upd_buf bhead (\<lambda>r. r\<lparr>b_next := b\<rparr>))]"

definition binit :: "('z bio_scheme, unit) km" where
  "binit = block [
     initlock BcacheLock ''bcache'',
     modify (upd_buf bhead (\<lambda>r. r\<lparr>b_prev := bhead\<rparr>)),
     modify (upd_buf bhead (\<lambda>r. r\<lparr>b_next := bhead\<rparr>)),
     for_each [0..<NBUF] binit_one]"

text \<open>
  The loops of \<^verbatim>\<open>bget\<close>: follow the links from \<open>b\<close> until a buffer satisfies the condition or the head is
  reached. A list that does not come back to the head in \<open>NBUF\<close> steps never does.
\<close>

primrec scan_bufs :: "nat \<Rightarrow> (nat \<Rightarrow> nat) \<Rightarrow> (nat \<Rightarrow> bool) \<Rightarrow> nat \<Rightarrow> nat option option" where
  "scan_bufs 0 nx P b = None"
| "scan_bufs (Suc k) nx P b =
     (if b = bhead then Some None else if P b then Some (Some b) else scan_bufs k nx P (nx b))"

definition bget :: "uint \<Rightarrow> uint \<Rightarrow> ('z bio_scheme, nat) km" where
  "bget dev blockno = bind (acquire BcacheLock) (\<lambda>_.
     bind (gets (\<lambda>s. scan_bufs (Suc NBUF) (\<lambda>b. b_next (bufs s b))
       (\<lambda>b. b_dev (bufs s b) = dev \<and> b_blockno (bufs s b) = blockno) (b_next (bufs s bhead)))) (\<lambda>r. case r of
       None \<Rightarrow> spin ''bget''
     | Some (Some b) \<Rightarrow> bind (block [
         modify (upd_buf b (\<lambda>r. r\<lparr>b_refcnt := b_refcnt r + 1\<rparr>)),
         release BcacheLock,
         acquiresleep (BufLock b)]) (\<lambda>_. return b)
     | Some None \<Rightarrow>
     bind (gets (\<lambda>s. scan_bufs (Suc NBUF) (\<lambda>b. b_prev (bufs s b))
       (\<lambda>b. b_refcnt (bufs s b) = 0) (b_prev (bufs s bhead)))) (\<lambda>r. case r of
         None \<Rightarrow> spin ''bget''
       | Some (Some b) \<Rightarrow> bind (block [
           modify (upd_buf b (\<lambda>r. r\<lparr>b_dev := dev\<rparr>)),
           modify (upd_buf b (\<lambda>r. r\<lparr>b_blockno := blockno\<rparr>)),
           modify (upd_buf b (\<lambda>r. r\<lparr>b_valid := False\<rparr>)),
           modify (upd_buf b (\<lambda>r. r\<lparr>b_refcnt := 1\<rparr>)),
           release BcacheLock,
           acquiresleep (BufLock b)]) (\<lambda>_. return b)
       | Some None \<Rightarrow> panic ''bget: no buffers'')))"

definition bread :: "uint \<Rightarrow> uint \<Rightarrow> ('z bio_scheme, nat) km" where
  "bread dev blockno = bind (bget dev blockno) (\<lambda>b.
     bind (ifm (\<lambda>s. \<not> b_valid (bufs s b))
       (block [disk_rw b False, modify (upd_buf b (\<lambda>r. r\<lparr>b_valid := True\<rparr>))]) skip) (\<lambda>_. return b))"

definition bwrite :: "nat \<Rightarrow> ('z bio_scheme, unit) km" where
  "bwrite b = bind (holdingsleep (BufLock b)) (\<lambda>h. if \<not> h then panic ''bwrite'' else disk_rw b True)"

definition brelse :: "nat \<Rightarrow> ('z bio_scheme, unit) km" where
  "brelse b = bind (holdingsleep (BufLock b)) (\<lambda>h. if \<not> h then panic ''brelse'' else block [
     releasesleep (BufLock b),
     acquire BcacheLock,
     modify (upd_buf b (\<lambda>r. r\<lparr>b_refcnt := b_refcnt r - 1\<rparr>)),
     ifm (\<lambda>s. b_refcnt (bufs s b) = 0)
       (block [
         modify (\<lambda>s. upd_buf (b_next (bufs s b)) (\<lambda>r. r\<lparr>b_prev := b_prev (bufs s b)\<rparr>) s),
         modify (\<lambda>s. upd_buf (b_prev (bufs s b)) (\<lambda>r. r\<lparr>b_next := b_next (bufs s b)\<rparr>) s),
         modify (\<lambda>s. upd_buf b (\<lambda>r. r\<lparr>b_next := b_next (bufs s bhead)\<rparr>) s),
         modify (upd_buf b (\<lambda>r. r\<lparr>b_prev := bhead\<rparr>)),
         modify (\<lambda>s. upd_buf (b_next (bufs s bhead)) (\<lambda>r. r\<lparr>b_prev := b\<rparr>) s),
         modify (upd_buf bhead (\<lambda>r. r\<lparr>b_next := b\<rparr>))])
       skip,
     release BcacheLock])"

definition bpin :: "nat \<Rightarrow> ('z bio_scheme, unit) km" where
  "bpin b = block [
     acquire BcacheLock,
     modify (upd_buf b (\<lambda>r. r\<lparr>b_refcnt := b_refcnt r + 1\<rparr>)),
     release BcacheLock]"

definition bunpin :: "nat \<Rightarrow> ('z bio_scheme, unit) km" where
  "bunpin b = block [
     acquire BcacheLock,
     modify (upd_buf b (\<lambda>r. r\<lparr>b_refcnt := b_refcnt r - 1\<rparr>)),
     release BcacheLock]"

section \<open>Bytes of a block\<close>

lemma length_get_bytes [simp]: "length (get_bytes b off n) = n"
  by (simp add: get_bytes_def)

lemma get_put_bytes [simp]: "length bs = n \<Longrightarrow> get_bytes (put_bytes off bs b) off n = bs"
  by (auto simp: get_bytes_def put_bytes_def intro!: nth_equalityI)

lemma get_put_other:
  "off + n \<le> off' \<or> off' + length bs \<le> off \<Longrightarrow> get_bytes (put_bytes off' bs b) off n = get_bytes b off n"
  by (auto simp: get_bytes_def put_bytes_def)

lemma get_put_inside:
  "off' \<le> off \<Longrightarrow> off + n \<le> off' + length bs \<Longrightarrow>
    get_bytes (put_bytes off' bs b) off n = take n (drop (off - off') bs)"
  by (auto simp: get_bytes_def put_bytes_def intro!: nth_equalityI)

lemma get32_put32 [simp]: "get32 (put32 off v b) off = v"
  by (simp add: get32_def put32_def le_word_bytes take_bit_word_eq_self)

lemma get16_put16 [simp]: "get16 (put16 off v b) off = v"
  by (simp add: get16_def put16_def le_word_bytes take_bit_word_eq_self)

lemma get_put_word_other:
  "off + 4 \<le> off' \<or> off' + length bs \<le> off \<Longrightarrow> get32 (put_bytes off' bs b) off = get32 b off"
  "off + 2 \<le> off' \<or> off' + length bs \<le> off \<Longrightarrow> get16 (put_bytes off' bs b) off = get16 b off"
  "off + 4 \<le> off' \<or> off' + 4 \<le> off \<Longrightarrow> get32 (put32 off' v b) off = get32 b off"
  "off + 2 \<le> off' \<or> off' + 4 \<le> off \<Longrightarrow> get16 (put32 off' v b) off = get16 b off"
  "off + 4 \<le> off' \<or> off' + 2 \<le> off \<Longrightarrow> get32 (put16 off' w b) off = get32 b off"
  "off + 2 \<le> off' \<or> off' + 2 \<le> off \<Longrightarrow> get16 (put16 off' w b) off = get16 b off"
  by (simp_all add: get32_def get16_def put32_def put16_def get_put_other)

end
