(* ===== verification/Virtio.thy ===== *)
theory Virtio
  imports Bio
begin

text \<open>
  The driver of the virtio disk (kernel/virtio_disk.c, kernel/virtio.h).

  The queues are shared with the device. The addresses the driver puts into descriptors point to one of
  three kinds of kernel objects, which the type \<open>daddr\<close> distinguishes. The control registers are a
  function that a write updates; the device may refuse status bits, which \<open>vio_mask\<close> says.
  \<^verbatim>\<open>virtio_disk_rw\<close> waits twice: for free descriptors and for the completion of the request. The code from
  each wait on is a definition of its own (\<open>virtio_disk_rw_tail\<close>, \<open>virtio_disk_wait\<close>), which the woken process
  runs again.
\<close>

section \<open>State\<close>

datatype daddr = ANull | AOps nat | AData nat | AStatus nat

record virtq_desc =
  vd_addr :: daddr
  vd_len :: uint
  vd_flags :: ushort
  vd_next :: ushort

record virtio_blk_req =
  vr_type :: uint
  vr_reserved :: uint
  vr_sector :: uint64

record vdisk =
  vq_desc :: "nat \<Rightarrow> virtq_desc"
  vq_avail_idx :: ushort
  vq_avail_ring :: "nat \<Rightarrow> ushort"
  vq_used_idx :: ushort
  vq_used_ring :: "nat \<Rightarrow> uint"
  vfree :: "nat \<Rightarrow> bool"
  vused_idx :: ushort
  vinfo_b :: "nat \<Rightarrow> nat option"
  vinfo_status :: "nat \<Rightarrow> uchar"
  vops :: "nat \<Rightarrow> virtio_blk_req"
  vpages :: "uint64 list"
  vregs :: "nat \<Rightarrow> uint"
  vio_mask :: uint

record virt = bio +
  vdisk :: vdisk

definition NUM :: nat where "NUM = 8"
definition VRING_DESC_F_NEXT :: ushort where "VRING_DESC_F_NEXT = 1"
definition VRING_DESC_F_WRITE :: ushort where "VRING_DESC_F_WRITE = 2"
definition VIRTIO_BLK_T_IN :: uint where "VIRTIO_BLK_T_IN = 0"
definition VIRTIO_BLK_T_OUT :: uint where "VIRTIO_BLK_T_OUT = 1"

definition VIRTIO_MMIO_MAGIC_VALUE :: nat where "VIRTIO_MMIO_MAGIC_VALUE = 0x000"
definition VIRTIO_MMIO_VERSION :: nat where "VIRTIO_MMIO_VERSION = 0x004"
definition VIRTIO_MMIO_DEVICE_ID :: nat where "VIRTIO_MMIO_DEVICE_ID = 0x008"
definition VIRTIO_MMIO_VENDOR_ID :: nat where "VIRTIO_MMIO_VENDOR_ID = 0x00c"
definition VIRTIO_MMIO_DEVICE_FEATURES :: nat where "VIRTIO_MMIO_DEVICE_FEATURES = 0x010"
definition VIRTIO_MMIO_DRIVER_FEATURES :: nat where "VIRTIO_MMIO_DRIVER_FEATURES = 0x020"
definition VIRTIO_MMIO_QUEUE_SEL :: nat where "VIRTIO_MMIO_QUEUE_SEL = 0x030"
definition VIRTIO_MMIO_QUEUE_NUM_MAX :: nat where "VIRTIO_MMIO_QUEUE_NUM_MAX = 0x034"
definition VIRTIO_MMIO_QUEUE_NUM :: nat where "VIRTIO_MMIO_QUEUE_NUM = 0x038"
definition VIRTIO_MMIO_QUEUE_READY :: nat where "VIRTIO_MMIO_QUEUE_READY = 0x044"
definition VIRTIO_MMIO_QUEUE_NOTIFY :: nat where "VIRTIO_MMIO_QUEUE_NOTIFY = 0x050"
definition VIRTIO_MMIO_INTERRUPT_STATUS :: nat where "VIRTIO_MMIO_INTERRUPT_STATUS = 0x060"
definition VIRTIO_MMIO_INTERRUPT_ACK :: nat where "VIRTIO_MMIO_INTERRUPT_ACK = 0x064"
definition VIRTIO_MMIO_STATUS :: nat where "VIRTIO_MMIO_STATUS = 0x070"
definition VIRTIO_MMIO_QUEUE_DESC_LOW :: nat where "VIRTIO_MMIO_QUEUE_DESC_LOW = 0x080"
definition VIRTIO_MMIO_QUEUE_DESC_HIGH :: nat where "VIRTIO_MMIO_QUEUE_DESC_HIGH = 0x084"
definition VIRTIO_MMIO_DRIVER_DESC_LOW :: nat where "VIRTIO_MMIO_DRIVER_DESC_LOW = 0x090"
definition VIRTIO_MMIO_DRIVER_DESC_HIGH :: nat where "VIRTIO_MMIO_DRIVER_DESC_HIGH = 0x094"
definition VIRTIO_MMIO_DEVICE_DESC_LOW :: nat where "VIRTIO_MMIO_DEVICE_DESC_LOW = 0x0a0"
definition VIRTIO_MMIO_DEVICE_DESC_HIGH :: nat where "VIRTIO_MMIO_DEVICE_DESC_HIGH = 0x0a4"

definition VIRTIO_CONFIG_S_ACKNOWLEDGE :: uint where "VIRTIO_CONFIG_S_ACKNOWLEDGE = 1"
definition VIRTIO_CONFIG_S_DRIVER :: uint where "VIRTIO_CONFIG_S_DRIVER = 2"
definition VIRTIO_CONFIG_S_DRIVER_OK :: uint where "VIRTIO_CONFIG_S_DRIVER_OK = 4"
definition VIRTIO_CONFIG_S_FEATURES_OK :: uint where "VIRTIO_CONFIG_S_FEATURES_OK = 8"

definition VIRTIO_BLK_F_RO :: nat where "VIRTIO_BLK_F_RO = 5"
definition VIRTIO_BLK_F_SCSI :: nat where "VIRTIO_BLK_F_SCSI = 7"
definition VIRTIO_BLK_F_CONFIG_WCE :: nat where "VIRTIO_BLK_F_CONFIG_WCE = 11"
definition VIRTIO_BLK_F_MQ :: nat where "VIRTIO_BLK_F_MQ = 12"
definition VIRTIO_F_ANY_LAYOUT :: nat where "VIRTIO_F_ANY_LAYOUT = 27"
definition VIRTIO_RING_F_INDIRECT_DESC :: nat where "VIRTIO_RING_F_INDIRECT_DESC = 28"
definition VIRTIO_RING_F_EVENT_IDX :: nat where "VIRTIO_RING_F_EVENT_IDX = 29"

definition upd_vd :: "(vdisk \<Rightarrow> vdisk) \<Rightarrow> ('z) virt_scheme \<Rightarrow> ('z) virt_scheme" where
  "upd_vd f s = s\<lparr>vdisk := f (vdisk s)\<rparr>"

definition upd_desc :: "nat \<Rightarrow> (virtq_desc \<Rightarrow> virtq_desc) \<Rightarrow> ('z virt_scheme, unit) km" where
  "upd_desc i f = modify (upd_vd (\<lambda>v. v\<lparr>vq_desc := (vq_desc v)(i := f (vq_desc v i))\<rparr>))"

definition wr :: "nat \<Rightarrow> uint \<Rightarrow> ('z virt_scheme, unit) km" where
  "wr r v = modify (upd_vd (\<lambda>d. d\<lparr>vregs := (vregs d)(r := (if r = VIRTIO_MMIO_STATUS then v AND vio_mask d else v))\<rparr>))"

section \<open>Initialisation\<close>

text \<open>The feature bits the driver turns down.\<close>

definition refused_features :: uint where
  "refused_features = push_bit VIRTIO_BLK_F_RO 1 OR push_bit VIRTIO_BLK_F_SCSI 1 OR
     push_bit VIRTIO_BLK_F_CONFIG_WCE 1 OR push_bit VIRTIO_BLK_F_MQ 1 OR push_bit VIRTIO_F_ANY_LAYOUT 1 OR
     push_bit VIRTIO_RING_F_EVENT_IDX 1 OR push_bit VIRTIO_RING_F_INDIRECT_DESC 1"

definition vreg :: "nat \<Rightarrow> ('z) virt_scheme \<Rightarrow> uint" where "vreg r s = vregs (vdisk s) r"

definition high32 :: "uint64 \<Rightarrow> uint" where "high32 a = ucast (drop_bit 32 a)"

definition virtio_negotiate :: "('z virt_scheme, uint) km" where
  "virtio_negotiate = bind (block [
     panic_if (\<lambda>s. vreg VIRTIO_MMIO_MAGIC_VALUE s \<noteq> 0x74726976 \<or> vreg VIRTIO_MMIO_VERSION s \<noteq> 2 \<or>
       vreg VIRTIO_MMIO_DEVICE_ID s \<noteq> 2 \<or> vreg VIRTIO_MMIO_VENDOR_ID s \<noteq> 0x554d4551) ''could not find virtio disk'',
     wr VIRTIO_MMIO_STATUS 0,
     wr VIRTIO_MMIO_STATUS VIRTIO_CONFIG_S_ACKNOWLEDGE,
     wr VIRTIO_MMIO_STATUS (VIRTIO_CONFIG_S_ACKNOWLEDGE OR VIRTIO_CONFIG_S_DRIVER),
     bind (gets (vreg VIRTIO_MMIO_DEVICE_FEATURES)) (\<lambda>f. wr VIRTIO_MMIO_DRIVER_FEATURES (f AND NOT refused_features)),
     wr VIRTIO_MMIO_STATUS (VIRTIO_CONFIG_S_ACKNOWLEDGE OR VIRTIO_CONFIG_S_DRIVER OR VIRTIO_CONFIG_S_FEATURES_OK)]) (\<lambda>_.
     bind (gets (vreg VIRTIO_MMIO_STATUS)) (\<lambda>status.
     bind (panic_if (\<lambda>_. status AND VIRTIO_CONFIG_S_FEATURES_OK = 0) ''virtio disk FEATURES_OK unset'') (\<lambda>_.
     return status)))"

definition virtio_disk_init :: "('z virt_scheme, unit) km" where
  "virtio_disk_init = bind (initlock VdiskLock ''virtio_disk'') (\<lambda>_.
     bind virtio_negotiate (\<lambda>status.
     bind (block [
       wr VIRTIO_MMIO_QUEUE_SEL 0,
       panic_if (\<lambda>s. vreg VIRTIO_MMIO_QUEUE_READY s \<noteq> 0) ''virtio disk should not be ready'',
       panic_if (\<lambda>s. vreg VIRTIO_MMIO_QUEUE_NUM_MAX s = 0) ''virtio disk has no queue 0'',
       panic_if (\<lambda>s. vreg VIRTIO_MMIO_QUEUE_NUM_MAX s < of_nat NUM) ''virtio disk max queue too short'']) (\<lambda>_.
     bind kalloc (\<lambda>desc. bind kalloc (\<lambda>avail. bind kalloc (\<lambda>used. block [
       modify (upd_vd (\<lambda>d. d\<lparr>vpages := [desc, avail, used]\<rparr>)),
       panic_if (\<lambda>_. desc = 0 \<or> avail = 0 \<or> used = 0) ''virtio disk kalloc'',
       modify (upd_vd (\<lambda>d. d\<lparr>vq_desc := (\<lambda>_. \<lparr>vd_addr = ANull, vd_len = 0, vd_flags = 0, vd_next = 0\<rparr>),
         vq_avail_idx := 0, vq_avail_ring := (\<lambda>_. 0), vq_used_idx := 0, vq_used_ring := (\<lambda>_. 0)\<rparr>)),
       wr VIRTIO_MMIO_QUEUE_NUM (of_nat NUM),
       wr VIRTIO_MMIO_QUEUE_DESC_LOW (ucast desc),
       wr VIRTIO_MMIO_QUEUE_DESC_HIGH (high32 desc),
       wr VIRTIO_MMIO_DRIVER_DESC_LOW (ucast avail),
       wr VIRTIO_MMIO_DRIVER_DESC_HIGH (high32 avail),
       wr VIRTIO_MMIO_DEVICE_DESC_LOW (ucast used),
       wr VIRTIO_MMIO_DEVICE_DESC_HIGH (high32 used),
       wr VIRTIO_MMIO_QUEUE_READY 1,
       for_each [0..<NUM] (\<lambda>i. modify (upd_vd (\<lambda>d. d\<lparr>vfree := (vfree d)(i := True)\<rparr>))),
       wr VIRTIO_MMIO_STATUS (status OR VIRTIO_CONFIG_S_DRIVER_OK)]))))))"

section \<open>Descriptors\<close>

definition alloc_desc :: "('z virt_scheme, nat option) km" where
  "alloc_desc = bind (gets (\<lambda>s. List.find (vfree (vdisk s)) [0..<NUM])) (\<lambda>r. case r of
       Some i \<Rightarrow> bind (modify (upd_vd (\<lambda>d. d\<lparr>vfree := (vfree d)(i := False)\<rparr>))) (\<lambda>_. return (Some i))
     | None \<Rightarrow> return None)"

definition free_desc :: "nat \<Rightarrow> ('z virt_scheme, unit) km" where
  "free_desc i = block [
     panic_if (\<lambda>_. NUM \<le> i) ''free_desc 1'',
     panic_if (\<lambda>s. vfree (vdisk s) i) ''free_desc 2'',
     upd_desc i (\<lambda>d. d\<lparr>vd_addr := ANull, vd_len := 0, vd_flags := 0, vd_next := 0\<rparr>),
     modify (upd_vd (\<lambda>d. d\<lparr>vfree := (vfree d)(i := True)\<rparr>)),
     wakeup (Some ChanDiskFree)]"

text \<open>A chain never repeats a descriptor: freeing one twice panics. So \<open>NUM\<close> turns are enough.\<close>

primrec free_chain_loop :: "nat \<Rightarrow> nat \<Rightarrow> ('z virt_scheme, unit) km" where
  "free_chain_loop 0 i = spin ''free_chain''"
| "free_chain_loop (Suc k) i = bind (gets (\<lambda>s. vq_desc (vdisk s) i)) (\<lambda>d. block [
     free_desc i,
     (if vd_flags d AND VRING_DESC_F_NEXT \<noteq> 0 then free_chain_loop k (unat (vd_next d)) else skip)])"

definition free_chain :: "nat \<Rightarrow> ('z virt_scheme, unit) km" where
  "free_chain i = free_chain_loop (Suc NUM) i"

primrec alloc3_loop :: "nat \<Rightarrow> nat list \<Rightarrow> ('z virt_scheme, nat list option) km" where
  "alloc3_loop 0 got = return (Some got)"
| "alloc3_loop (Suc k) got = bind alloc_desc (\<lambda>r. case r of
       Some i \<Rightarrow> alloc3_loop k (got @ [i])
     | None \<Rightarrow> bind (for_each got free_desc) (\<lambda>_. return None))"

definition alloc3_desc :: "('z virt_scheme, nat list option) km" where
  "alloc3_desc = alloc3_loop 3 []"

section \<open>Requests\<close>

definition virtio_submit :: "nat \<Rightarrow> bool \<Rightarrow> nat \<Rightarrow> nat \<Rightarrow> nat \<Rightarrow> uint64 \<Rightarrow> ('z virt_scheme, unit) km" where
  "virtio_submit b write i0 i1 i2 sector = block [
     modify (upd_vd (\<lambda>d. d\<lparr>vops := (vops d)(i0 := \<lparr>vr_type = (if write then VIRTIO_BLK_T_OUT else VIRTIO_BLK_T_IN),
       vr_reserved = 0, vr_sector = sector\<rparr>)\<rparr>)),
     upd_desc i0 (\<lambda>_. \<lparr>vd_addr = AOps i0, vd_len = 16, vd_flags = VRING_DESC_F_NEXT, vd_next = of_nat i1\<rparr>),
     upd_desc i1 (\<lambda>_. \<lparr>vd_addr = AData b, vd_len = of_nat BSIZE,
       vd_flags = (if write then 0 else VRING_DESC_F_WRITE) OR VRING_DESC_F_NEXT, vd_next = of_nat i2\<rparr>),
     modify (upd_vd (\<lambda>d. d\<lparr>vinfo_status := (vinfo_status d)(i0 := 0xff)\<rparr>)),
     upd_desc i2 (\<lambda>_. \<lparr>vd_addr = AStatus i0, vd_len = 1, vd_flags = VRING_DESC_F_WRITE, vd_next = 0\<rparr>),
     modify (upd_buf b (\<lambda>r. r\<lparr>b_disk := True\<rparr>)),
     modify (upd_vd (\<lambda>d. d\<lparr>vinfo_b := (vinfo_b d)(i0 := Some b)\<rparr>)),
     modify (upd_vd (\<lambda>d. d\<lparr>vq_avail_ring := (vq_avail_ring d)(unat (vq_avail_idx d) mod NUM := of_nat i0)\<rparr>)),
     modify (upd_vd (\<lambda>d. d\<lparr>vq_avail_idx := vq_avail_idx d + 1\<rparr>)),
     wr VIRTIO_MMIO_QUEUE_NOTIFY 0]"

definition virtio_disk_wait :: "nat \<Rightarrow> nat \<Rightarrow> ('z virt_scheme, unit) km" where
  "virtio_disk_wait b i0 = ifm (\<lambda>s. b_disk (bufs s b))
     (sleep (ChanBuf b) VdiskLock)
     (block [
       modify (upd_vd (\<lambda>d. d\<lparr>vinfo_b := (vinfo_b d)(i0 := None)\<rparr>)),
       free_chain i0,
       release VdiskLock])"

definition virtio_disk_rw_tail :: "nat \<Rightarrow> bool \<Rightarrow> uint64 \<Rightarrow> ('z virt_scheme, unit) km" where
  "virtio_disk_rw_tail b write sector = bind alloc3_desc (\<lambda>r. case r of
       Some [i0, i1, i2] \<Rightarrow> block [virtio_submit b write i0 i1 i2 sector, virtio_disk_wait b i0]
     | _ \<Rightarrow> sleep ChanDiskFree VdiskLock)"

definition virtio_disk_rw :: "nat \<Rightarrow> bool \<Rightarrow> ('z virt_scheme, unit) km" where
  "virtio_disk_rw b write = bind (gets (\<lambda>s. ucast (b_blockno (bufs s b) * of_nat (BSIZE div 512)))) (\<lambda>sector. block [
     acquire VdiskLock,
     virtio_disk_rw_tail b write sector])"

text \<open>
  The loop of \<^verbatim>\<open>virtio_disk_intr\<close> looks at the used entries up to the index the device has reached. It is
  bounded by their number, at most \<open>2 ^ 16\<close>.
\<close>

primrec virtio_intr_loop :: "nat \<Rightarrow> ('z virt_scheme, unit) km" where
  "virtio_intr_loop 0 = spin ''virtio_disk_intr''"
| "virtio_intr_loop (Suc k) = ifm (\<lambda>s. vused_idx (vdisk s) \<noteq> vq_used_idx (vdisk s))
     (bind (gets (\<lambda>s. unat (vq_used_ring (vdisk s) (unat (vused_idx (vdisk s)) mod NUM)))) (\<lambda>i. block [
       fault_if (\<lambda>_. NUM \<le> i) ''virtio_disk_intr'',
       panic_if (\<lambda>s. vinfo_status (vdisk s) i \<noteq> 0) ''virtio_disk_intr status'',
       bind (gets (\<lambda>s. vinfo_b (vdisk s) i)) (\<lambda>bo. case bo of None \<Rightarrow> fault ''virtio_disk_intr'' | Some b \<Rightarrow> block [
         modify (upd_buf b (\<lambda>r. r\<lparr>b_disk := False\<rparr>)),
         wakeup (Some (ChanBuf b))]),
       modify (upd_vd (\<lambda>d. d\<lparr>vused_idx := vused_idx d + 1\<rparr>)),
       virtio_intr_loop k]))
     skip"

definition virtio_disk_intr :: "('z virt_scheme, unit) km" where
  "virtio_disk_intr = block [
     acquire VdiskLock,
     bind (gets (vreg VIRTIO_MMIO_INTERRUPT_STATUS)) (\<lambda>v. wr VIRTIO_MMIO_INTERRUPT_ACK (v AND 3)),
     bind (gets (\<lambda>s. Suc (unat (vq_used_idx (vdisk s) - vused_idx (vdisk s))))) virtio_intr_loop,
     release VdiskLock]"

end
