(* ===== verification/Log.thy ===== *)
theory Log
  imports Virtio
begin

text \<open>
  The redo log (kernel/log.c): transactions that reach the disk completely or not at all.

  The header block holds the number of logged blocks at offset 0 and their block numbers behind it,
  four bytes each, least significant first. The array of block numbers in memory has \<open>LOGBLOCKS\<close>
  entries; an index outside of it is undefined.
\<close>

section \<open>State\<close>

record logheader =
  lh_n :: int
  lh_block :: "nat \<Rightarrow> uint"

record log_state =
  lg_start :: uint
  lg_outstanding :: int
  lg_committing :: bool
  lg_dev :: uint
  lg_lh :: logheader

record logk = virt +
  klog :: log_state

definition upd_log :: "(log_state \<Rightarrow> log_state) \<Rightarrow> ('z) logk_scheme \<Rightarrow> ('z) logk_scheme" where
  "upd_log f s = s\<lparr>klog := f (klog s)\<rparr>"

abbreviation log_n :: "('z) logk_scheme \<Rightarrow> int" where
  "log_n s \<equiv> lh_n (lg_lh (klog s))"

abbreviation log_block :: "('z) logk_scheme \<Rightarrow> nat \<Rightarrow> uint" where
  "log_block s \<equiv> lh_block (lg_lh (klog s))"

section \<open>Log operations\<close>

definition install_one :: "bool \<Rightarrow> nat \<Rightarrow> ('z logk_scheme, unit) km" where
  "install_one recovering k = bind (block [
       (if recovering then bind (gets (\<lambda>s. log_block s k)) (\<lambda>bn.
          printf (''recovering tail %d dst %d'' @ [CHR 0x0A]) [PInt (of_nat k), PInt (scast bn)]) else skip)]) (\<lambda>_.
     bind (bind (gets klog) (\<lambda>l. bread (lg_dev l) (lg_start l + of_nat k + 1))) (\<lambda>lbuf.
     bind (bind (gets klog) (\<lambda>l. bread (lg_dev l) (lh_block (lg_lh l) k))) (\<lambda>dbuf. block [
       bind (gets (\<lambda>s. b_data (bufs s lbuf))) (\<lambda>d. upd_data dbuf (put_bytes 0 (get_bytes d 0 BSIZE))),
       bwrite dbuf,
       (if recovering then skip else bunpin dbuf),
       brelse lbuf,
       brelse dbuf])))"

text \<open>The number of turns is read once: the loop body does not change \<^verbatim>\<open>log.lh.n\<close>.\<close>

definition install_trans :: "bool \<Rightarrow> ('z logk_scheme, unit) km" where
  "install_trans recovering = bind (gets log_n) (\<lambda>n. for_each [0..<nat n] (install_one recovering))"

definition head_block :: "nat \<Rightarrow> nat" where "head_block i = 4 + 4 * i"

definition read_head :: "('z logk_scheme, unit) km" where
  "read_head = bind (bind (gets klog) (\<lambda>l. bread (lg_dev l) (lg_start l))) (\<lambda>b. block [
     modify (\<lambda>s. upd_log (\<lambda>l. l\<lparr>lg_lh := (lg_lh l)\<lparr>lh_n := sint (get32 (b_data (bufs s b)) 0)\<rparr>\<rparr>) s),
     bind (gets log_n) (\<lambda>n. for_each [0..<nat n] (\<lambda>i. block [
       fault_if (\<lambda>_. LOGBLOCKS \<le> i) ''read_head'',
       modify (\<lambda>s. upd_log (\<lambda>l. l\<lparr>lg_lh := (lg_lh l)\<lparr>lh_block :=
         (lh_block (lg_lh l))(i := get32 (b_data (bufs s b)) (head_block i))\<rparr>\<rparr>) s)])),
     brelse b])"

definition write_head :: "('z logk_scheme, unit) km" where
  "write_head = bind (bind (gets klog) (\<lambda>l. bread (lg_dev l) (lg_start l))) (\<lambda>b. block [
     bind (gets log_n) (\<lambda>n. upd_data b (put32 0 (word_of_int n))),
     bind (gets log_n) (\<lambda>n. for_each [0..<nat n] (\<lambda>i. block [
       fault_if (\<lambda>_. LOGBLOCKS \<le> i) ''write_head'',
       bind (gets (\<lambda>s. log_block s i)) (\<lambda>bn. upd_data b (put32 (head_block i) bn))])),
     bwrite b,
     brelse b])"

definition set_log_n :: "int \<Rightarrow> ('z logk_scheme, unit) km" where
  "set_log_n n = modify (upd_log (\<lambda>l. l\<lparr>lg_lh := (lg_lh l)\<lparr>lh_n := n\<rparr>\<rparr>))"

definition recover_from_log :: "('z logk_scheme, unit) km" where
  "recover_from_log = block [read_head, install_trans True, set_log_n 0, write_head]"

text \<open>The header, 4 + 4 * LOGBLOCKS bytes, is smaller than a block.\<close>

definition initlog :: "uint \<Rightarrow> uint \<Rightarrow> ('z logk_scheme, unit) km" where
  "initlog dev logstart = block [
     panic_if (\<lambda>_. BSIZE \<le> 4 + 4 * LOGBLOCKS) ''initlog: too big logheader'',
     initlock LogLock ''log'',
     modify (upd_log (\<lambda>l. l\<lparr>lg_start := logstart\<rparr>)),
     modify (upd_log (\<lambda>l. l\<lparr>lg_dev := dev\<rparr>)),
     recover_from_log]"

text \<open>\<open>begin_op_tail\<close> is the loop, which a process that slept runs again.\<close>

definition begin_op_tail :: "('z logk_scheme, unit) km" where
  "begin_op_tail =
     ifm (\<lambda>s. lg_committing (klog s))
       (sleep ChanLog LogLock)
       (ifm (\<lambda>s. log_n s + (lg_outstanding (klog s) + 1) * int MAXOPBLOCKS > int LOGBLOCKS)
         (sleep ChanLog LogLock)
         (block [
           modify (upd_log (\<lambda>l. l\<lparr>lg_outstanding := lg_outstanding l + 1\<rparr>)),
           release LogLock]))"

definition begin_op :: "('z logk_scheme, unit) km" where
  "begin_op = block [acquire LogLock, begin_op_tail]"

definition write_log_one :: "nat \<Rightarrow> ('z logk_scheme, unit) km" where
  "write_log_one k =
     bind (bind (gets klog) (\<lambda>l. bread (lg_dev l) (lg_start l + of_nat k + 1))) (\<lambda>to.
     bind (bind (gets klog) (\<lambda>l. bread (lg_dev l) (lh_block (lg_lh l) k))) (\<lambda>from. block [
       bind (gets (\<lambda>s. b_data (bufs s from))) (\<lambda>d. upd_data to (put_bytes 0 (get_bytes d 0 BSIZE))),
       bwrite to,
       brelse from,
       brelse to]))"

definition write_log :: "('z logk_scheme, unit) km" where
  "write_log = bind (gets log_n) (\<lambda>n. for_each [0..<nat n] write_log_one)"

definition commit :: "('z logk_scheme, unit) km" where
  "commit = ifm (\<lambda>s. log_n s > 0)
     (block [write_log, write_head, install_trans False, set_log_n 0, write_head])
     skip"

definition end_op :: "('z logk_scheme, unit) km" where
  "end_op = bind (block [
       acquire LogLock,
       modify (upd_log (\<lambda>l. l\<lparr>lg_outstanding := lg_outstanding l - 1\<rparr>)),
       panic_if (\<lambda>s. lg_committing (klog s)) ''log.committing'']) (\<lambda>_.
     bind (gets (\<lambda>s. lg_outstanding (klog s) = 0)) (\<lambda>do_commit. block [
       (if do_commit then modify (upd_log (\<lambda>l. l\<lparr>lg_committing := True\<rparr>)) else wakeup (Some ChanLog)),
       release LogLock,
       (if do_commit then block [
          commit,
          acquire LogLock,
          modify (upd_log (\<lambda>l. l\<lparr>lg_committing := False\<rparr>)),
          wakeup (Some ChanLog),
          release LogLock]
        else skip)]))"

text \<open>The loop of \<^verbatim>\<open>log_write\<close>: the position of the block among the logged ones, or their number.\<close>

primrec absorb :: "nat \<Rightarrow> (nat \<Rightarrow> uint) \<Rightarrow> uint \<Rightarrow> nat \<Rightarrow> nat" where
  "absorb 0 blks bn i = i"
| "absorb (Suc k) blks bn i = (if blks i = bn then i else absorb k blks bn (Suc i))"

definition log_write :: "nat \<Rightarrow> ('z logk_scheme, unit) km" where
  "log_write b = bind (block [
       acquire LogLock,
       panic_if (\<lambda>s. log_n s \<ge> int LOGBLOCKS) ''too big a transaction'',
       panic_if (\<lambda>s. lg_outstanding (klog s) < 1) ''log_write outside of trans'']) (\<lambda>_.
     bind (gets (\<lambda>s. absorb (nat (log_n s)) (log_block s) (b_blockno (bufs s b)) 0)) (\<lambda>i. block [
       modify (\<lambda>s. upd_log (\<lambda>l. l\<lparr>lg_lh := (lg_lh l)\<lparr>lh_block := (lh_block (lg_lh l))(i := b_blockno (bufs s b))\<rparr>\<rparr>) s),
       ifm (\<lambda>s. int i = log_n s)
         (block [bpin b, bind (gets log_n) (\<lambda>n. set_log_n (n + 1))])
         skip,
       release LogLock]))"

end
