(* ===== verification/Fs.thy ===== *)
theory Fs
  imports Log
begin

text \<open>
  The file system (kernel/fs.c, kernel/fs.h): block allocation, inodes, file contents, directories and
  path names.

  An inode pointer is an index into the inode table and the null pointer is \<open>None\<close>. The structures on
  disk are read and written at their byte offsets in a block, as the compiled code does: a disk inode
  has 64 bytes (type, major, minor, nlink at 0, 2, 4, 6, size at 8, addresses from 12 on), a directory
  entry 16 (inode number at 0, name from 2 on). Names and paths are byte lists without the final NUL;
  a path element has the NUL in it when it is shorter than \<open>DIRSIZ\<close>.
\<close>

section \<open>Constants and state (kernel/fs.h, kernel/file.h)\<close>

definition ROOTINO :: uint where "ROOTINO = 1"
definition FSMAGIC :: uint where "FSMAGIC = 0x10203040"
definition NDIRECT :: nat where "NDIRECT = 12"
definition NINDIRECT :: nat where "NINDIRECT = BSIZE div 4"
definition MAXFILE :: nat where "MAXFILE = NDIRECT + NINDIRECT"
definition IPB :: nat where "IPB = BSIZE div 64"
definition BPB :: nat where "BPB = BSIZE * 8"
definition DIRSIZ :: nat where "DIRSIZ = 14"
definition NINODE :: nat where "NINODE = 50"
definition T_DIR :: ushort where "T_DIR = 1"
definition T_FILE :: ushort where "T_FILE = 2"
definition T_DEVICE :: ushort where "T_DEVICE = 3"

record superblock =
  sb_magic :: uint
  sb_size :: uint
  sb_nblocks :: uint
  sb_ninodes :: uint
  sb_nlog :: uint
  sb_logstart :: uint
  sb_inodestart :: uint
  sb_bmapstart :: uint

record inode =
  i_dev :: uint
  i_inum :: uint
  i_ref :: int
  i_valid :: bool
  i_type :: ushort
  i_major :: ushort
  i_minor :: ushort
  i_nlink :: ushort
  i_size :: uint
  i_addrs :: "nat \<Rightarrow> uint"

record fsk = logk +
  sb :: superblock
  inodes :: "nat \<Rightarrow> inode"

record stat =
  st_dev :: uint
  st_ino :: uint
  st_type :: ushort
  st_nlink :: ushort
  st_size :: uint64

definition upd_inode :: "nat \<Rightarrow> (inode \<Rightarrow> inode) \<Rightarrow> ('z) fsk_scheme \<Rightarrow> ('z) fsk_scheme" where
  "upd_inode ip f s = s\<lparr>inodes := (inodes s)(ip := f (inodes s ip))\<rparr>"

definition set_inode :: "nat \<Rightarrow> (inode \<Rightarrow> inode) \<Rightarrow> ('z fsk_scheme, unit) km" where
  "set_inode ip f = modify (upd_inode ip f)"

definition IBLOCK :: "uint \<Rightarrow> superblock \<Rightarrow> uint" where
  "IBLOCK i b = i div of_nat IPB + sb_inodestart b"

definition BBLOCK :: "uint \<Rightarrow> superblock \<Rightarrow> uint" where
  "BBLOCK b sp = b div of_nat BPB + sb_bmapstart sp"

text \<open>\<open>deref\<close> of a null pointer is undefined.\<close>

definition deref :: "'b option \<Rightarrow> ('b \<Rightarrow> ('s, 'a) km) \<Rightarrow> ('s, 'a) km" where
  "deref po f = (case po of None \<Rightarrow> fault ''null'' | Some p \<Rightarrow> f p)"

section \<open>Superblock and block allocation\<close>

definition readsb :: "uint \<Rightarrow> ('z fsk_scheme, unit) km" where
  "readsb dev = bind (bread dev 1) (\<lambda>bp. block [
     modify (\<lambda>s. let d = b_data (bufs s bp) in s\<lparr>sb := \<lparr>sb_magic = get32 d 0, sb_size = get32 d 4,
       sb_nblocks = get32 d 8, sb_ninodes = get32 d 12, sb_nlog = get32 d 16, sb_logstart = get32 d 20,
       sb_inodestart = get32 d 24, sb_bmapstart = get32 d 28\<rparr>\<rparr>),
     brelse bp])"

definition bzero :: "uint \<Rightarrow> uint \<Rightarrow> ('z fsk_scheme, unit) km" where
  "bzero dev bno = bind (bread dev bno) (\<lambda>bp. block [
     upd_data bp (put_bytes 0 (replicate BSIZE 0)),
     log_write bp,
     brelse bp])"

definition bit_mask :: "nat \<Rightarrow> uchar" where "bit_mask bi = push_bit (bi mod 8) 1"

definition bit_clear :: "blk \<Rightarrow> nat \<Rightarrow> bool" where
  "bit_clear d bi \<longleftrightarrow> d (bi div 8) AND bit_mask bi = 0"

definition set_bit_in :: "nat \<Rightarrow> blk \<Rightarrow> blk" where
  "set_bit_in bi d = d(bi div 8 := d (bi div 8) OR bit_mask bi)"

definition clear_bit_in :: "nat \<Rightarrow> blk \<Rightarrow> blk" where
  "clear_bit_in bi d = d(bi div 8 := d (bi div 8) AND NOT (bit_mask bi))"

text \<open>The inner loop of \<^verbatim>\<open>balloc\<close> is a search for the first clear bit.\<close>

primrec balloc_loop :: "uint \<Rightarrow> nat list \<Rightarrow> ('z fsk_scheme, uint) km" where
  "balloc_loop dev [] = bind (printf (''balloc: out of blocks'' @ [CHR 0x0A]) []) (\<lambda>_. return 0)"
| "balloc_loop dev (g # gs) =
     bind (bind (gets sb) (\<lambda>sp. bread dev (BBLOCK (of_nat (g * BPB)) sp))) (\<lambda>bp.
     bind (gets (\<lambda>s. List.find (bit_clear (b_data (bufs s bp)))
       [0..<min BPB (unat (sb_size (sb s)) - g * BPB)])) (\<lambda>r. case r of
         Some bi \<Rightarrow> bind (block [
           upd_data bp (set_bit_in bi),
           log_write bp,
           brelse bp,
           bzero dev (of_nat (g * BPB + bi))]) (\<lambda>_. return (of_nat (g * BPB + bi)))
       | None \<Rightarrow> bind (brelse bp) (\<lambda>_. balloc_loop dev gs)))"

definition balloc :: "uint \<Rightarrow> ('z fsk_scheme, uint) km" where
  "balloc dev = bind (gets (\<lambda>s. (unat (sb_size (sb s)) + BPB - 1) div BPB)) (\<lambda>n. balloc_loop dev [0..<n])"

definition bfree :: "uint \<Rightarrow> uint \<Rightarrow> ('z fsk_scheme, unit) km" where
  "bfree dev b = bind (bind (gets sb) (\<lambda>sp. bread dev (BBLOCK b sp))) (\<lambda>bp.
     let bi = unat (b mod of_nat BPB) in block [
       panic_if (\<lambda>s. bit_clear (b_data (bufs s bp)) bi) ''freeing free block'',
       upd_data bp (clear_bit_in bi),
       log_write bp,
       brelse bp])"

section \<open>Inodes\<close>

definition iinit :: "('z fsk_scheme, unit) km" where
  "iinit = block [
     initlock ItableLock ''itable'',
     for_each [0..<NINODE] (\<lambda>i. initsleeplock (InodeLock i) ''inode'')]"

text \<open>The loop of \<^verbatim>\<open>iget\<close>: a match, or else the first empty slot.\<close>

primrec iget_scan :: "(nat \<Rightarrow> inode) \<Rightarrow> uint \<Rightarrow> uint \<Rightarrow> nat list \<Rightarrow> nat option \<Rightarrow> nat option \<times> nat option" where
  "iget_scan t dev inum [] free_ip = (None, free_ip)"
| "iget_scan t dev inum (ip # ips) free_ip =
     (if i_ref (t ip) > 0 \<and> i_dev (t ip) = dev \<and> i_inum (t ip) = inum then (Some ip, free_ip)
      else iget_scan t dev inum ips (if free_ip = None \<and> i_ref (t ip) = 0 then Some ip else free_ip))"

definition iget :: "uint \<Rightarrow> uint \<Rightarrow> ('z fsk_scheme, nat) km" where
  "iget dev inum = bind (acquire ItableLock) (\<lambda>_.
     bind (gets (\<lambda>s. iget_scan (inodes s) dev inum [0..<NINODE] None)) (\<lambda>r. case r of
       (Some ip, _) \<Rightarrow> bind (block [
         set_inode ip (\<lambda>i. i\<lparr>i_ref := i_ref i + 1\<rparr>),
         release ItableLock]) (\<lambda>_. return ip)
     | (None, None) \<Rightarrow> panic ''iget: no inodes''
     | (None, Some ip) \<Rightarrow> bind (block [
         set_inode ip (\<lambda>i. i\<lparr>i_dev := dev\<rparr>),
         set_inode ip (\<lambda>i. i\<lparr>i_inum := inum\<rparr>),
         set_inode ip (\<lambda>i. i\<lparr>i_ref := 1\<rparr>),
         set_inode ip (\<lambda>i. i\<lparr>i_valid := False\<rparr>),
         release ItableLock]) (\<lambda>_. return ip)))"

definition dinode_off :: "uint \<Rightarrow> nat" where "dinode_off inum = 64 * unat (inum mod of_nat IPB)"

primrec ialloc_loop :: "uint \<Rightarrow> ushort \<Rightarrow> nat list \<Rightarrow> ('z fsk_scheme, nat option) km" where
  "ialloc_loop dev type [] = bind (printf (''ialloc: no inodes'' @ [CHR 0x0A]) []) (\<lambda>_. return None)"
| "ialloc_loop dev type (n # ns) = (let inum = of_nat n in
     bind (bind (gets sb) (\<lambda>sp. bread dev (IBLOCK inum sp))) (\<lambda>bp.
     bind (gets (\<lambda>s. get16 (b_data (bufs s bp)) (dinode_off inum) = 0)) (\<lambda>free.
       if free then bind (block [
         upd_data bp (put_bytes (dinode_off inum) (replicate 64 0)),
         upd_data bp (put16 (dinode_off inum) type),
         log_write bp,
         brelse bp]) (\<lambda>_. bind (iget dev inum) (\<lambda>ip. return (Some ip)))
       else bind (brelse bp) (\<lambda>_. ialloc_loop dev type ns))))"

definition ialloc :: "uint \<Rightarrow> ushort \<Rightarrow> ('z fsk_scheme, nat option) km" where
  "ialloc dev type = bind (gets (\<lambda>s. unat (sb_ninodes (sb s)))) (\<lambda>n. ialloc_loop dev type [1..<n])"

definition put_dinode :: "nat \<Rightarrow> inode \<Rightarrow> blk \<Rightarrow> blk" where
  "put_dinode off i d = put_bytes (off + 12) (concat (map (\<lambda>k. le_bytes 4 (i_addrs i k)) [0..<NDIRECT + 1]))
     (put32 (off + 8) (i_size i) (put16 (off + 6) (i_nlink i) (put16 (off + 4) (i_minor i)
       (put16 (off + 2) (i_major i) (put16 off (i_type i) d)))))"

definition iupdate :: "nat \<Rightarrow> ('z fsk_scheme, unit) km" where
  "iupdate ip = bind (bind (gets (\<lambda>s. (i_dev (inodes s ip), IBLOCK (i_inum (inodes s ip)) (sb s)))) (\<lambda>(dev, bn). bread dev bn)) (\<lambda>bp. block [
     bind (gets (\<lambda>s. inodes s ip)) (\<lambda>i. upd_data bp (put_dinode (dinode_off (i_inum i)) i)),
     log_write bp,
     brelse bp])"

definition idup :: "nat \<Rightarrow> ('z fsk_scheme, nat) km" where
  "idup ip = bind (block [
     acquire ItableLock,
     set_inode ip (\<lambda>i. i\<lparr>i_ref := i_ref i + 1\<rparr>),
     release ItableLock]) (\<lambda>_. return ip)"

text \<open>The fields of the disk inode copied into the table entry.\<close>

definition get_dinode :: "blk \<Rightarrow> nat \<Rightarrow> inode \<Rightarrow> inode" where
  "get_dinode d off i = i\<lparr>i_type := get16 d off, i_major := get16 d (off + 2), i_minor := get16 d (off + 4),
     i_nlink := get16 d (off + 6), i_size := get32 d (off + 8),
     i_addrs := (\<lambda>k. if k < NDIRECT + 1 then get32 d (off + 12 + 4 * k) else i_addrs i k)\<rparr>"

definition ilock :: "nat option \<Rightarrow> ('z fsk_scheme, unit) km" where
  "ilock ipo = (case ipo of None \<Rightarrow> panic ''ilock'' | Some ip \<Rightarrow> block [
     panic_if (\<lambda>s. i_ref (inodes s ip) < 1) ''ilock'',
     acquiresleep (InodeLock ip),
     ifm (\<lambda>s. \<not> i_valid (inodes s ip))
       (bind (bind (gets (\<lambda>s. (i_dev (inodes s ip), IBLOCK (i_inum (inodes s ip)) (sb s)))) (\<lambda>(dev, bn). bread dev bn)) (\<lambda>bp. block [
         modify (\<lambda>s. upd_inode ip (\<lambda>i. get_dinode (b_data (bufs s bp)) (dinode_off (i_inum i)) i) s),
         brelse bp,
         set_inode ip (\<lambda>i. i\<lparr>i_valid := True\<rparr>),
         panic_if (\<lambda>s. i_type (inodes s ip) = 0) ''ilock: no type'']))
       skip])"

definition iunlock :: "nat option \<Rightarrow> ('z fsk_scheme, unit) km" where
  "iunlock ipo = (case ipo of None \<Rightarrow> panic ''iunlock'' | Some ip \<Rightarrow>
     bind (holdingsleep (InodeLock ip)) (\<lambda>h. if \<not> h then panic ''iunlock'' else block [
       panic_if (\<lambda>s. i_ref (inodes s ip) < 1) ''iunlock'',
       releasesleep (InodeLock ip)]))"

section \<open>Inode contents\<close>

definition bmap :: "nat \<Rightarrow> uint \<Rightarrow> ('z fsk_scheme, uint) km" where
  "bmap ip bn = (if bn < of_nat NDIRECT then
       bind (gets (\<lambda>s. i_addrs (inodes s ip) (unat bn))) (\<lambda>addr.
         if addr = 0 then bind (bind (gets (\<lambda>s. i_dev (inodes s ip))) balloc) (\<lambda>addr.
           if addr = 0 then return 0
           else bind (set_inode ip (\<lambda>i. i\<lparr>i_addrs := (i_addrs i)(unat bn := addr)\<rparr>)) (\<lambda>_. return addr))
         else return addr)
     else let bn = bn - of_nat NDIRECT in
     if bn < of_nat NINDIRECT then
       bind (gets (\<lambda>s. i_addrs (inodes s ip) NDIRECT)) (\<lambda>addr.
       bind (if addr = 0 then bind (bind (gets (\<lambda>s. i_dev (inodes s ip))) balloc) (\<lambda>addr.
           if addr = 0 then return 0
           else bind (set_inode ip (\<lambda>i. i\<lparr>i_addrs := (i_addrs i)(NDIRECT := addr)\<rparr>)) (\<lambda>_. return addr))
         else return addr) (\<lambda>addr.
       if addr = 0 then return 0 else
       bind (bind (gets (\<lambda>s. i_dev (inodes s ip))) (\<lambda>dev. bread dev addr)) (\<lambda>bp.
       bind (gets (\<lambda>s. get32 (b_data (bufs s bp)) (4 * unat bn))) (\<lambda>a.
       bind (if a = 0 then bind (bind (gets (\<lambda>s. i_dev (inodes s ip))) balloc) (\<lambda>addr.
           bind (if addr \<noteq> 0 then block [upd_data bp (put32 (4 * unat bn) addr), log_write bp] else skip) (\<lambda>_.
             return addr))
         else return a) (\<lambda>addr.
       bind (brelse bp) (\<lambda>_. return addr))))))
     else panic ''bmap: out of range'')"

definition itrunc :: "nat \<Rightarrow> ('z fsk_scheme, unit) km" where
  "itrunc ip = block [
     for_each [0..<NDIRECT] (\<lambda>i. ifm (\<lambda>s. i_addrs (inodes s ip) i \<noteq> 0)
       (block [
         bind (gets (\<lambda>s. inodes s ip)) (\<lambda>d. bfree (i_dev d) (i_addrs d i)),
         set_inode ip (\<lambda>d. d\<lparr>i_addrs := (i_addrs d)(i := 0)\<rparr>)])
       skip),
     ifm (\<lambda>s. i_addrs (inodes s ip) NDIRECT \<noteq> 0)
       (bind (bind (gets (\<lambda>s. inodes s ip)) (\<lambda>d. bread (i_dev d) (i_addrs d NDIRECT))) (\<lambda>bp. block [
         for_each [0..<NINDIRECT] (\<lambda>j. bind (gets (\<lambda>s. get32 (b_data (bufs s bp)) (4 * j))) (\<lambda>a.
           if a \<noteq> 0 then bind (gets (\<lambda>s. i_dev (inodes s ip))) (\<lambda>dev. bfree dev a) else skip)),
         brelse bp,
         bind (gets (\<lambda>s. inodes s ip)) (\<lambda>d. bfree (i_dev d) (i_addrs d NDIRECT)),
         set_inode ip (\<lambda>d. d\<lparr>i_addrs := (i_addrs d)(NDIRECT := 0)\<rparr>)]))
       skip,
     set_inode ip (\<lambda>d. d\<lparr>i_size := 0\<rparr>),
     iupdate ip]"

definition iput :: "nat \<Rightarrow> ('z fsk_scheme, unit) km" where
  "iput ip = block [
     acquire ItableLock,
     ifm (\<lambda>s. i_ref (inodes s ip) = 1 \<and> i_valid (inodes s ip) \<and> i_nlink (inodes s ip) = 0)
       (block [
         acquiresleep (InodeLock ip),
         release ItableLock,
         itrunc ip,
         set_inode ip (\<lambda>i. i\<lparr>i_type := 0\<rparr>),
         iupdate ip,
         set_inode ip (\<lambda>i. i\<lparr>i_valid := False\<rparr>),
         releasesleep (InodeLock ip),
         acquire ItableLock])
       skip,
     set_inode ip (\<lambda>i. i\<lparr>i_ref := i_ref i - 1\<rparr>),
     release ItableLock]"

definition iunlockput :: "nat \<Rightarrow> ('z fsk_scheme, unit) km" where
  "iunlockput ip = block [iunlock (Some ip), iput ip]"

definition ireclaim_one :: "uint \<Rightarrow> nat \<Rightarrow> ('z fsk_scheme, unit) km" where
  "ireclaim_one dev n = (let inum = of_nat n in
     bind (bind (gets sb) (\<lambda>sp. bread dev (IBLOCK inum sp))) (\<lambda>bp.
     bind (ifm (\<lambda>s. get16 (b_data (bufs s bp)) (dinode_off inum) \<noteq> 0 \<and> get16 (b_data (bufs s bp)) (dinode_off inum + 6) = 0)
       (bind (printf (''ireclaim: orphaned inode %d'' @ [CHR 0x0A]) [PInt (of_nat n)]) (\<lambda>_.
         bind (iget dev inum) (\<lambda>ip. return (Some ip))))
       (return None)) (\<lambda>ipo. block [
     brelse bp,
     (case ipo of None \<Rightarrow> skip | Some ip \<Rightarrow> block [
        begin_op, ilock (Some ip), iunlock (Some ip), iput ip, end_op])])))"

definition ireclaim :: "uint \<Rightarrow> ('z fsk_scheme, unit) km" where
  "ireclaim dev = bind (gets (\<lambda>s. unat (sb_ninodes (sb s)))) (\<lambda>n. for_each [1..<n] (ireclaim_one dev))"

definition fsinit :: "uint \<Rightarrow> ('z fsk_scheme, unit) km" where
  "fsinit dev = block [
     readsb dev,
     panic_if (\<lambda>s. sb_magic (sb s) \<noteq> FSMAGIC) ''invalid file system'',
     bind (gets (\<lambda>s. sb_logstart (sb s))) (initlog dev),
     ireclaim dev]"

definition stati :: "nat \<Rightarrow> ('z) fsk_scheme \<Rightarrow> stat" where
  "stati ip s = (let i = inodes s ip in
     \<lparr>st_dev = i_dev i, st_ino = i_inum i, st_type = i_type i, st_nlink = i_nlink i, st_size = ucast (i_size i)\<rparr>)"

text \<open>
  \<open>readi\<close> gives the number of bytes and the bytes themselves; the latter are what a caller finds in its
  variable when the destination is one.
\<close>

primrec readi_loop :: "nat \<Rightarrow> nat \<Rightarrow> dst_place \<Rightarrow> uint \<Rightarrow> uint \<Rightarrow> uint \<Rightarrow> uchar list \<Rightarrow> ('z fsk_scheme, uint \<times> uchar list) km" where
  "readi_loop 0 ip dst off n tot acc = spin ''readi''"
| "readi_loop (Suc k) ip dst off n tot acc =
     (if tot < n then bind (bmap ip (off div of_nat BSIZE)) (\<lambda>addr.
        if addr = 0 then return (tot, acc)
        else bind (bind (gets (\<lambda>s. i_dev (inodes s ip))) (\<lambda>dev. bread dev addr)) (\<lambda>bp.
          let o1 = off mod of_nat BSIZE; m = min (n - tot) (of_nat BSIZE - o1) in
          bind (gets (\<lambda>s. get_bytes (b_data (bufs s bp)) (unat o1) (unat m))) (\<lambda>bs.
          bind (either_copyout dst bs) (\<lambda>r.
            if r = -1 then bind (brelse bp) (\<lambda>_. return (-1, acc))
            else bind (brelse bp) (\<lambda>_. readi_loop k ip (dst_add dst (ucast m)) (off + m) n (tot + m) (acc @ bs))))))
      else return (tot, acc))"

definition readi :: "nat \<Rightarrow> dst_place \<Rightarrow> uint \<Rightarrow> uint \<Rightarrow> ('z fsk_scheme, int \<times> uchar list) km" where
  "readi ip dst off n = bind (gets (\<lambda>s. i_size (inodes s ip))) (\<lambda>len.
     if off > len \<or> off + n < off then return (0, [])
     else let n = (if off + n > len then len - off else n) in
       bind (readi_loop (Suc (unat n)) ip dst off n 0 []) (\<lambda>(tot, bs). return (sint tot, bs)))"

primrec writei_loop :: "nat \<Rightarrow> nat \<Rightarrow> src_place \<Rightarrow> uint \<Rightarrow> uint \<Rightarrow> uint \<Rightarrow> ('z fsk_scheme, uint \<times> uint) km" where
  "writei_loop 0 ip src off n tot = spin ''writei''"
| "writei_loop (Suc k) ip src off n tot =
     (if tot < n then bind (bmap ip (off div of_nat BSIZE)) (\<lambda>addr.
        if addr = 0 then return (tot, off)
        else bind (bind (gets (\<lambda>s. i_dev (inodes s ip))) (\<lambda>dev. bread dev addr)) (\<lambda>bp.
          let o1 = off mod of_nat BSIZE; m = min (n - tot) (of_nat BSIZE - o1) in
          bind (either_copyin src (ucast m)) (\<lambda>(r, bs).
          bind (upd_data bp (put_bytes (unat o1) bs)) (\<lambda>_.
            if r = -1 then bind (brelse bp) (\<lambda>_. return (tot, off))
            else bind (block [log_write bp, brelse bp]) (\<lambda>_.
              writei_loop k ip (src_add src (ucast m)) (off + m) n (tot + m))))))
      else return (tot, off))"

definition writei :: "nat \<Rightarrow> src_place \<Rightarrow> uint \<Rightarrow> uint \<Rightarrow> ('z fsk_scheme, int) km" where
  "writei ip src off n = bind (gets (\<lambda>s. i_size (inodes s ip))) (\<lambda>len.
     if off > len \<or> off + n < off then return (-1)
     else if unat (off + n) > MAXFILE * BSIZE then return (-1)
     else bind (writei_loop (Suc (unat n)) ip src off n 0) (\<lambda>(tot, off). bind (block [
       ifm (\<lambda>s. off > i_size (inodes s ip)) (set_inode ip (\<lambda>i. i\<lparr>i_size := off\<rparr>)) skip,
       iupdate ip]) (\<lambda>_. return (sint tot))))"

section \<open>Directories\<close>

text \<open>\<^verbatim>\<open>strncmp\<close> and \<^verbatim>\<open>strncpy\<close> on the bytes of two kernel buffers; a string that ends early ends with a NUL.\<close>

primrec strncmp_bytes :: "nat \<Rightarrow> uchar list \<Rightarrow> uchar list \<Rightarrow> int" where
  "strncmp_bytes 0 p q = 0"
| "strncmp_bytes (Suc n) p q =
     (let a = (case p of [] \<Rightarrow> 0 | x # _ \<Rightarrow> x); b = (case q of [] \<Rightarrow> 0 | y # _ \<Rightarrow> y) in
      if a \<noteq> 0 \<and> a = b then strncmp_bytes n (drop 1 p) (drop 1 q) else uint a - uint b)"

primrec strncpy_bytes :: "nat \<Rightarrow> uchar list \<Rightarrow> uchar list" where
  "strncpy_bytes 0 t = []"
| "strncpy_bytes (Suc n) t =
     (let a = (case t of [] \<Rightarrow> 0 | x # _ \<Rightarrow> x) in
      if a \<noteq> 0 then a # strncpy_bytes n (drop 1 t) else replicate (Suc n) 0)"

definition namecmp :: "uchar list \<Rightarrow> uchar list \<Rightarrow> int" where
  "namecmp p q = strncmp_bytes DIRSIZ p q"

definition de_inum :: "uchar list \<Rightarrow> ushort" where "de_inum de = le_word (take 2 de)"
definition de_name :: "uchar list \<Rightarrow> uchar list" where "de_name de = drop 2 de"
definition mk_dirent :: "ushort \<Rightarrow> uchar list \<Rightarrow> uchar list" where "mk_dirent n nm = le_bytes 2 n @ nm"

text \<open>The offsets of the entries of a directory: the loop steps through its size by 16.\<close>

definition dirent_offs :: "uint \<Rightarrow> uint list" where
  "dirent_offs len = map (\<lambda>k. of_nat (16 * k)) [0..<(unat len + 15) div 16]"

primrec dirlookup_loop :: "nat \<Rightarrow> uchar list \<Rightarrow> uint list \<Rightarrow> ('z fsk_scheme, (nat \<times> uint) option) km" where
  "dirlookup_loop dp nm [] = return None"
| "dirlookup_loop dp nm (off # offs) = bind (readi dp DstLocal off 16) (\<lambda>(r, de).
     if r \<noteq> 16 then panic ''dirlookup read''
     else if de_inum de = 0 then dirlookup_loop dp nm offs
     else if namecmp nm (de_name de) = 0
       then bind (bind (gets (\<lambda>s. i_dev (inodes s dp))) (\<lambda>dev. iget dev (ucast (de_inum de)))) (\<lambda>ip. return (Some (ip, off)))
     else dirlookup_loop dp nm offs)"

definition dirlookup :: "nat \<Rightarrow> uchar list \<Rightarrow> ('z fsk_scheme, (nat \<times> uint) option) km" where
  "dirlookup dp nm = bind (panic_if (\<lambda>s. i_type (inodes s dp) \<noteq> T_DIR) ''dirlookup not DIR'') (\<lambda>_.
     bind (gets (\<lambda>s. dirent_offs (i_size (inodes s dp)))) (dirlookup_loop dp nm))"

text \<open>The loop of \<^verbatim>\<open>dirlink\<close>: the offset of the first free entry, or the end of the directory.\<close>

primrec free_dirent :: "nat \<Rightarrow> uint list \<Rightarrow> uint \<Rightarrow> ('z fsk_scheme, uint) km" where
  "free_dirent dp [] fin = return fin"
| "free_dirent dp (off # offs) fin = bind (readi dp DstLocal off 16) (\<lambda>(r, de).
     if r \<noteq> 16 then panic ''dirlink read''
     else if de_inum de = 0 then return off
     else free_dirent dp offs (off + 16))"

definition dirlink :: "nat \<Rightarrow> uchar list \<Rightarrow> uint \<Rightarrow> ('z fsk_scheme, int) km" where
  "dirlink dp nm inum = bind (dirlookup dp nm) (\<lambda>r. case r of
       Some (ip, _) \<Rightarrow> bind (iput ip) (\<lambda>_. return (-1))
     | None \<Rightarrow> bind (bind (gets (\<lambda>s. dirent_offs (i_size (inodes s dp)))) (\<lambda>offs. free_dirent dp offs 0)) (\<lambda>off.
         bind (writei dp (SrcLocal (mk_dirent (ucast inum) (strncpy_bytes DIRSIZ nm))) off 16) (\<lambda>r.
           if r \<noteq> 16 then return (-1) else return 0)))"

section \<open>Paths\<close>

definition SLASH :: uchar where "SLASH = 47"

definition skipelem :: "uchar list \<Rightarrow> (uchar list \<times> uchar list) option" where
  "skipelem path0 =
     (let path = dropWhile (\<lambda>c. c = SLASH) path0 in
      if path = [] then None
      else let elem = takeWhile (\<lambda>c. c \<noteq> SLASH) path; rest = dropWhile (\<lambda>c. c \<noteq> SLASH) path;
               nm = (if length elem \<ge> DIRSIZ then take DIRSIZ elem else elem @ [0])
           in Some (nm, dropWhile (\<lambda>c. c = SLASH) rest))"

primrec namex_loop :: "nat \<Rightarrow> nat \<Rightarrow> uchar list \<Rightarrow> uchar list \<Rightarrow> bool \<Rightarrow> ('z fsk_scheme, (nat \<times> uchar list) option) km" where
  "namex_loop 0 ip path nm nameiparent = spin ''namex''"
| "namex_loop (Suc k) ip path nm nameiparent = (case skipelem path of
       None \<Rightarrow> if nameiparent then bind (iput ip) (\<lambda>_. return None) else return (Some (ip, nm))
     | Some (nm, path) \<Rightarrow> bind (ilock (Some ip)) (\<lambda>_.
         ifm (\<lambda>s. i_type (inodes s ip) \<noteq> T_DIR)
           (bind (iunlockput ip) (\<lambda>_. return None))
           (if nameiparent \<and> path = [] then bind (iunlock (Some ip)) (\<lambda>_. return (Some (ip, nm)))
            else bind (dirlookup ip nm) (\<lambda>r. case r of
                None \<Rightarrow> bind (iunlockput ip) (\<lambda>_. return None)
              | Some (next, _) \<Rightarrow> bind (iunlockput ip) (\<lambda>_. namex_loop k next path nm nameiparent)))))"

definition namex :: "uchar list \<Rightarrow> bool \<Rightarrow> ('z fsk_scheme, (nat \<times> uchar list) option) km" where
  "namex path nameiparent =
     bind (if path \<noteq> [] \<and> hd path = SLASH then iget ROOTDEV ROOTINO
           else with_proc (\<lambda>p. bind (gets (\<lambda>s. cwd (procs s p))) (\<lambda>c. deref c idup))) (\<lambda>ip.
     namex_loop (Suc (length path)) ip path [] nameiparent)"

definition namei :: "uchar list \<Rightarrow> ('z fsk_scheme, nat option) km" where
  "namei path = bind (namex path False) (\<lambda>r. return (map_option fst r))"

definition nameiparent :: "uchar list \<Rightarrow> ('z fsk_scheme, (nat \<times> uchar list) option) km" where
  "nameiparent path = namex path True"

section \<open>Inodes on disk\<close>

lemma length_words [simp]: "length (concat (map (\<lambda>k. le_bytes 4 (f k)) [0..<n])) = 4 * n"
  by (induction n) auto

lemma nth_word:
  "k < n \<Longrightarrow> take 4 (drop (4 * k) (concat (map (\<lambda>k. le_bytes 4 (f k)) [0..<n]))) = le_bytes 4 (f k)"
proof (induction n)
  case (Suc n)
  let ?xs = "concat (map (\<lambda>k. le_bytes 4 (f k)) [0..<n])"
  show ?case
  proof (cases "k < n")
    case True
    then have "4 * k \<le> length ?xs" "4 \<le> length (drop (4 * k) ?xs)" by auto
    with Suc.IH [OF True] show ?thesis by simp
  next
    case False
    with Suc.prems have "k = n" by simp
    then show ?thesis by simp
  qed
qed simp

text \<open>The part of an inode that lives on disk.\<close>

definition same_dinode :: "inode \<Rightarrow> inode \<Rightarrow> bool" where
  "same_dinode i j \<longleftrightarrow> i_type i = i_type j \<and> i_major i = i_major j \<and> i_minor i = i_minor j \<and>
     i_nlink i = i_nlink j \<and> i_size i = i_size j \<and> (\<forall>k < NDIRECT + 1. i_addrs i k = i_addrs j k)"

lemma get_put_dinode: "same_dinode (get_dinode (put_dinode off i d) off j) i"
proof -
  let ?w = "concat (map (\<lambda>k. le_bytes 4 (i_addrs i k)) [0..<NDIRECT + 1])"
  have len: "length ?w = 4 * (NDIRECT + 1)" by (rule length_words)
  have "get32 (put_bytes (off + 12) ?w b) (off + 12 + 4 * k) = i_addrs i k" if k: "k < NDIRECT + 1" for b k
  proof -
    have "get_bytes (put_bytes (off + 12) ?w b) (off + 12 + 4 * k) 4 = take 4 (drop (4 * k) ?w)"
      using get_put_inside [of "off + 12" "off + 12 + 4 * k" 4 ?w b] k unfolding len by simp
    then show ?thesis
      unfolding get32_def nth_word [OF k] by (simp add: le_word_bytes take_bit_word_eq_self)
  qed
  then show ?thesis
    unfolding same_dinode_def get_dinode_def put_dinode_def
    by (simp add: get_put_word_other del: upt_Suc)
qed

lemma put_bytes_outside: "x < off \<or> off + length bs \<le> x \<Longrightarrow> put_bytes off bs b x = b x"
  by (auto simp: put_bytes_def)

lemma put_dinode_outside: "x < off \<or> off + 64 \<le> x \<Longrightarrow> put_dinode off i d x = d x"
proof -
  assume "x < off \<or> off + 64 \<le> x"
  moreover have "4 * (NDIRECT + 1) = 52" by (simp add: NDIRECT_def)
  ultimately show ?thesis
    unfolding put_dinode_def put32_def put16_def
    by (auto simp: put_bytes_outside del: upt_Suc simp del: upt_Suc)
qed

lemma get_dinode_cong:
  assumes "\<And>x. off \<le> x \<Longrightarrow> x < off + 64 \<Longrightarrow> d x = d' x"
  shows "get_dinode d off j = get_dinode d' off j"
proof -
  have g: "get_bytes d (off + a) n = get_bytes d' (off + a) n" if "a + n \<le> 64" for a n
    using that assms by (auto simp: get_bytes_def)
  have "get_bytes d (off + 12 + 4 * k) 4 = get_bytes d' (off + 12 + 4 * k) 4" if "k < NDIRECT + 1" for k
    using g [of "12 + 4 * k" 4] that by (simp add: NDIRECT_def add.assoc)
  with g [of 0 2] g [of 2 2] g [of 4 2] g [of 6 2] g [of 8 4] show ?thesis
    by (simp add: get_dinode_def get32_def get16_def cong: if_cong)
qed

lemma get_put_dinode_other:
  "off + 64 \<le> off' \<or> off' + 64 \<le> off \<Longrightarrow> get_dinode (put_dinode off' i d) off j = get_dinode d off j"
  by (rule get_dinode_cong) (auto simp: put_dinode_outside)

lemma dinode_off_bound: "dinode_off m + 64 \<le> BSIZE"
proof -
  have "unat (m mod of_nat IPB) < 16" by (simp add: IPB_def BSIZE_def unat_mod)
  then show ?thesis by (simp add: dinode_off_def BSIZE_def)
qed

text \<open>
  C27. An inode written into a block of the inode area is read back unchanged, whatever the block held and
  whatever the table entry held that it is read into; the other inodes of the block are not touched,
  and nothing outside the block is written.
\<close>

theorem dinode_roundtrip:
  "same_dinode (get_dinode (put_dinode (dinode_off m) i d) (dinode_off m) j) i \<and>
   (dinode_off n \<noteq> dinode_off m \<longrightarrow>
     get_dinode (put_dinode (dinode_off m) i d) (dinode_off n) j = get_dinode d (dinode_off n) j) \<and>
   (BSIZE \<le> x \<longrightarrow> put_dinode (dinode_off m) i d x = d x)"
proof (intro conjI impI)
  show "same_dinode (get_dinode (put_dinode (dinode_off m) i d) (dinode_off m) j) i" by (rule get_put_dinode)
  assume "dinode_off n \<noteq> dinode_off m"
  then have "unat (n mod of_nat IPB) \<noteq> unat (m mod of_nat IPB)" by (auto simp: dinode_off_def)
  then have "dinode_off n + 64 \<le> dinode_off m \<or> dinode_off m + 64 \<le> dinode_off n"
    unfolding dinode_off_def by arith
  then show "get_dinode (put_dinode (dinode_off m) i d) (dinode_off n) j = get_dinode d (dinode_off n) j"
    by (rule get_put_dinode_other)
next
  assume "BSIZE \<le> x"
  with dinode_off_bound [of m] show "put_dinode (dinode_off m) i d x = d x" by (auto intro: put_dinode_outside)
qed

definition zero_inode :: inode where
  "zero_inode = \<lparr>i_dev = 0, i_inum = 0, i_ref = 0, i_valid = False, i_type = 0, i_major = 0, i_minor = 0, i_nlink = 0,
     i_size = 0, i_addrs = (\<lambda>_. 0)\<rparr>"

theorem dinode_roundtrip_witness:
  "get_dinode (put_dinode (dinode_off 17) (zero_inode\<lparr>i_type := T_DIR\<rparr>) (\<lambda>_. 7)) (dinode_off 18) zero_inode =
     get_dinode (\<lambda>_. 7) (dinode_off 18) zero_inode \<and>
   put_dinode (dinode_off 17) zero_inode (\<lambda>_. 7) 1024 = 7"
proof -
  have "dinode_off 18 \<noteq> dinode_off 17" by (simp add: dinode_off_def IPB_def BSIZE_def)
  with dinode_roundtrip [of 17 "zero_inode\<lparr>i_type := T_DIR\<rparr>" "\<lambda>_. 7" zero_inode 18 1024]
    dinode_roundtrip [of 17 zero_inode "\<lambda>_. 7" zero_inode 18 1024]
  show ?thesis by (simp add: BSIZE_def)
qed

section \<open>Path elements\<close>

text \<open>
  The elements of a path: the non-empty parts between slashes. An element is kept in a buffer of
  \<open>DIRSIZ\<close> bytes, cut off there or ended by a NUL.
\<close>

fun split_slash :: "uchar list \<Rightarrow> uchar list list" where
  "split_slash [] = [[]]"
| "split_slash (c # cs) = (if c = SLASH then [] # split_slash cs
     else (c # hd (split_slash cs)) # tl (split_slash cs))"

definition path_elems :: "uchar list \<Rightarrow> uchar list list" where
  "path_elems p = filter (\<lambda>e. e \<noteq> []) (split_slash p)"

definition elem_name :: "uchar list \<Rightarrow> uchar list" where
  "elem_name e = (if length e \<ge> DIRSIZ then take DIRSIZ e else e @ [0])"

lemma split_slash_ne [simp]: "split_slash p \<noteq> []"
  by (cases p) auto

lemma split_slash_word:
  "\<forall>c\<in>set w. c \<noteq> SLASH \<Longrightarrow> split_slash (w @ r) = (w @ hd (split_slash r)) # tl (split_slash r)"
  by (induction w) auto

lemma path_elems_slash: "path_elems (dropWhile (\<lambda>c. c = SLASH) p) = path_elems p"
  by (induction p) (auto simp: path_elems_def)

lemma path_elems_word:
  assumes "w \<noteq> []" and "\<forall>c\<in>set w. c \<noteq> SLASH" and "r = [] \<or> hd r = SLASH"
  shows "path_elems (w @ r) = w # path_elems r"
proof (cases r)
  case Nil
  then show ?thesis using assms split_slash_word [OF assms(2), of r] by (simp add: path_elems_def)
next
  case (Cons c cs)
  then show ?thesis using assms split_slash_word [OF assms(2), of r] by (simp add: path_elems_def)
qed

lemma skipelem_None: "skipelem p = None \<longleftrightarrow> path_elems p = []"
proof -
  have "path_elems p = path_elems (dropWhile (\<lambda>c. c = SLASH) p)" by (simp add: path_elems_slash)
  moreover have "dropWhile (\<lambda>c. c = SLASH) p \<noteq> [] \<Longrightarrow> hd (dropWhile (\<lambda>c. c = SLASH) p) \<noteq> SLASH"
    using hd_dropWhile [of "\<lambda>c. c = SLASH" p] by simp
  ultimately show ?thesis
    by (cases "dropWhile (\<lambda>c. c = SLASH) p") (auto simp: skipelem_def Let_def path_elems_def)
qed

lemma skipelem_Some:
  assumes "skipelem p = Some (nm, rest)"
  shows "\<exists>e. nm = elem_name e \<and> path_elems p = e # path_elems rest" and "length rest < length p"
    and "rest = [] \<or> hd rest \<noteq> SLASH"
proof -
  let ?q = "dropWhile (\<lambda>c. c = SLASH) p"
  let ?w = "takeWhile (\<lambda>c. c \<noteq> SLASH) ?q" and ?r = "dropWhile (\<lambda>c. c \<noteq> SLASH) ?q"
  from assms have q: "?q \<noteq> []" and nm: "nm = elem_name ?w" and rest: "rest = dropWhile (\<lambda>c. c = SLASH) ?r"
    by (auto simp: skipelem_def Let_def elem_name_def split: if_splits)
  have hd: "hd ?q \<noteq> SLASH" using hd_dropWhile [OF q] by simp
  then have w: "?w \<noteq> []" using q by (cases ?q) auto
  have wn: "\<forall>c\<in>set ?w. c \<noteq> SLASH" by (auto dest: set_takeWhileD)
  have r: "?r = [] \<or> hd ?r = SLASH" using hd_dropWhile [of "\<lambda>c. c \<noteq> SLASH" ?q] by blast
  have "path_elems p = path_elems (?w @ ?r)" by (simp only: takeWhile_dropWhile_id path_elems_slash)
  also have "\<dots> = ?w # path_elems ?r" by (rule path_elems_word [OF w wn r])
  also have "path_elems ?r = path_elems rest" unfolding rest by (simp only: path_elems_slash)
  finally show "\<exists>e. nm = elem_name e \<and> path_elems p = e # path_elems rest" using nm by blast
  have "length rest \<le> length ?r" unfolding rest by (rule length_dropWhile_le)
  also have "length ?r < length ?q"
    using w arg_cong [OF takeWhile_dropWhile_id [of "\<lambda>c. c \<noteq> SLASH" ?q], of length]
    unfolding length_append by (simp only: length_greater_0_conv [symmetric])
  also have "length ?q \<le> length p" by (rule length_dropWhile_le)
  finally show "length rest < length p" .
  show "rest = [] \<or> hd rest \<noteq> SLASH" unfolding rest using hd_dropWhile [of "\<lambda>c. c = SLASH" ?r] by blast
qed

text \<open>The names a path walk asks for: \<^verbatim>\<open>skipelem\<close> until it finds no more element.\<close>

function skip_names :: "uchar list \<Rightarrow> uchar list list" where
  "skip_names p = (case skipelem p of None \<Rightarrow> [] | Some (nm, rest) \<Rightarrow> nm # skip_names rest)"
  by auto
termination
  by (relation "measure length") (auto dest: skipelem_Some(2))

declare skip_names.simps [simp del]

text \<open>
  C38. Taking a path apart with \<^verbatim>\<open>skipelem\<close> ends, and gives exactly the non-empty parts of the path between
  slashes, in order, each cut off at \<open>DIRSIZ\<close> bytes: leading, trailing and repeated slashes do not
  matter.
\<close>

theorem skipelem_elements: "skip_names p = map elem_name (path_elems p)"
proof (induction p rule: skip_names.induct)
  case (1 p)
  show ?case
  proof (cases "skipelem p")
    case None
    then show ?thesis using skipelem_None [of p] by (simp add: skip_names.simps [of p])
  next
    case (Some x)
    obtain nm rest where x: "x = (nm, rest)" by (cases x)
    with Some skipelem_Some(1) [of p nm rest] 1 [OF Some x [symmetric]] show ?thesis
      by (auto simp: skip_names.simps [of p])
  qed
qed

section \<open>Names in directories\<close>

lemma strncmp_bytes_0: "strncmp_bytes n p q = 0 \<longleftrightarrow> cstr (take n p) = cstr (take n q)"
proof (induction n arbitrary: p q)
  case (Suc n)
  show ?case
    by (cases p; cases q) (use Suc in \<open>auto simp: Let_def cstr_def word_uint_eq_iff\<close>)
qed simp

lemma strncmp_bytes_mem: "strncmp_bytes n (bytes m p n) (bytes m q n) = strncmp_loop n p q m"
  by (induction n arbitrary: p q) (auto simp: Let_def)

lemma cstr_strncpy: "cstr (strncpy_bytes n t) = cstr (take n t)"
proof (induction n arbitrary: t)
  case (Suc n)
  then show ?case by (cases t) (auto simp: Let_def cstr_def)
qed simp

lemma length_strncpy [simp]: "length (strncpy_bytes n t) = n"
  by (induction n arbitrary: t) (auto simp: Let_def)

text \<open>
  C39. A directory entry as \<^verbatim>\<open>dirlink\<close> writes it has the size of \<^verbatim>\<open>struct dirent\<close>, holds the inode number, and
  \<^verbatim>\<open>namecmp\<close> finds it under exactly those names that agree with the given one in the first \<open>DIRSIZ\<close>
  bytes up to a NUL.
\<close>

theorem dirent_name_roundtrip:
  "length (mk_dirent n (strncpy_bytes DIRSIZ nm)) = 16 \<and>
   de_inum (mk_dirent n (strncpy_bytes DIRSIZ nm)) = n \<and>
   (namecmp nm' (de_name (mk_dirent n (strncpy_bytes DIRSIZ nm))) = 0 \<longleftrightarrow> cstr (take DIRSIZ nm') = cstr (take DIRSIZ nm))"
  by (simp add: mk_dirent_def de_inum_def de_name_def namecmp_def strncmp_bytes_0 cstr_strncpy DIRSIZ_def
      le_word_bytes take_bit_word_eq_self)

end
