(* ===== verification/File.thy ===== *)
theory File
  imports Fs
begin

text \<open>
  Open files and pipes (kernel/file.c, kernel/file.h, kernel/pipe.c).

  A file pointer is an index into the file table. A pipe lives in a page of its own and is named by the
  address of that page; its buffer is a ring of \<open>PIPESIZE\<close> bytes indexed by two counters that wrap
  around at \<open>2 ^ 32\<close>. A reader or writer that has to wait sleeps inside \<open>piperead_tail\<close> or
  \<open>pipewrite_loop\<close>, which it runs again when it is woken.
\<close>

section \<open>State\<close>

definition NFILE :: nat where "NFILE = 100"
definition NDEV :: nat where "NDEV = 10"
definition PIPESIZE :: uint where "PIPESIZE = 512"

datatype ftype = FD_NONE | FD_PIPE | FD_INODE | FD_DEVICE

record kfile =
  f_type :: ftype
  f_ref :: int
  f_readable :: bool
  f_writable :: bool
  f_pipe :: uint64
  f_ip :: "nat option"
  f_off :: uint
  f_major :: ushort

record pipe =
  p_data :: "nat \<Rightarrow> uchar"
  p_nread :: uint
  p_nwrite :: uint
  p_readopen :: bool
  p_writeopen :: bool

record filek = fsk +
  ftable :: "nat \<Rightarrow> kfile"
  pipes :: "uint64 \<Rightarrow> pipe"

definition upd_file :: "nat \<Rightarrow> (kfile \<Rightarrow> kfile) \<Rightarrow> ('z) filek_scheme \<Rightarrow> ('z) filek_scheme" where
  "upd_file f g s = s\<lparr>ftable := (ftable s)(f := g (ftable s f))\<rparr>"

definition upd_pipe :: "uint64 \<Rightarrow> (pipe \<Rightarrow> pipe) \<Rightarrow> ('z) filek_scheme \<Rightarrow> ('z) filek_scheme" where
  "upd_pipe pi g s = s\<lparr>pipes := (pipes s)(pi := g (pipes s pi))\<rparr>"

section \<open>Pipes\<close>

definition pipeclose :: "uint64 \<Rightarrow> bool \<Rightarrow> ('z filek_scheme, unit) km" where
  "pipeclose pi writable = block [
     acquire (PipeLock pi),
     (if writable then block [
        modify (upd_pipe pi (\<lambda>r. r\<lparr>p_writeopen := False\<rparr>)),
        wakeup (Some (ChanPipeRead pi))]
      else block [
        modify (upd_pipe pi (\<lambda>r. r\<lparr>p_readopen := False\<rparr>)),
        wakeup (Some (ChanPipeWrite pi))]),
     ifm (\<lambda>s. \<not> p_readopen (pipes s pi) \<and> \<not> p_writeopen (pipes s pi))
       (block [release (PipeLock pi), kfree pi])
       (release (PipeLock pi))]"

text \<open>The writer has \<open>n\<close> bytes left, the next one at \<open>addr\<close>; \<open>i\<close> are written.\<close>

primrec pipewrite_loop :: "nat \<Rightarrow> nat \<Rightarrow> uint64 \<Rightarrow> uint64 \<Rightarrow> int \<Rightarrow> ('z filek_scheme, int) km" where
  "pipewrite_loop 0 pr pi addr i = bind (block [wakeup (Some (ChanPipeRead pi)), release (PipeLock pi)]) (\<lambda>_. return i)"
| "pipewrite_loop (Suc n) pr pi addr i =
     bind (ifm (\<lambda>s. \<not> p_readopen (pipes s pi)) (return True) (killed pr)) (\<lambda>stop.
       if stop then bind (release (PipeLock pi)) (\<lambda>_. return (-1))
       else ifm (\<lambda>s. p_nwrite (pipes s pi) = p_nread (pipes s pi) + PIPESIZE)
         (bind (wakeup (Some (ChanPipeRead pi))) (\<lambda>_. wait_on (ChanPipeWrite pi) (PipeLock pi)))
         (bind (bind (gets (\<lambda>s. pagetable (procs s pr))) (\<lambda>pt. copyin pt addr 1)) (\<lambda>(r, bs).
           if r = -1 then bind (block [wakeup (Some (ChanPipeRead pi)), release (PipeLock pi)]) (\<lambda>_. return i)
           else bind (modify (upd_pipe pi (\<lambda>q. q\<lparr>p_data := (p_data q)(unat (p_nwrite q mod PIPESIZE) := hd bs),
                  p_nwrite := p_nwrite q + 1\<rparr>))) (\<lambda>_.
             pipewrite_loop n pr pi (addr + 1) (i + 1)))))"

definition pipewrite :: "uint64 \<Rightarrow> uint64 \<Rightarrow> int \<Rightarrow> ('z filek_scheme, int) km" where
  "pipewrite pi addr n = with_proc (\<lambda>pr. bind (acquire (PipeLock pi)) (\<lambda>_. pipewrite_loop (nat n) pr pi addr 0))"

primrec piperead_copy :: "nat \<Rightarrow> nat \<Rightarrow> uint64 \<Rightarrow> uint64 \<Rightarrow> int \<Rightarrow> ('z filek_scheme, int) km" where
  "piperead_copy 0 pr pi addr i = return i"
| "piperead_copy (Suc n) pr pi addr i = ifm (\<lambda>s. p_nread (pipes s pi) = p_nwrite (pipes s pi))
     (return i)
     (bind (gets (\<lambda>s. p_data (pipes s pi) (unat (p_nread (pipes s pi) mod PIPESIZE)))) (\<lambda>c.
      bind (bind (gets (\<lambda>s. pagetable (procs s pr))) (\<lambda>pt. copyout pt addr [c])) (\<lambda>r.
        if r = -1 then return (if i = 0 then -1 else i)
        else bind (modify (upd_pipe pi (\<lambda>q. q\<lparr>p_nread := p_nread q + 1\<rparr>))) (\<lambda>_.
          piperead_copy n pr pi (addr + 1) (i + 1)))))"

definition piperead_tail :: "nat \<Rightarrow> uint64 \<Rightarrow> uint64 \<Rightarrow> int \<Rightarrow> ('z filek_scheme, int) km" where
  "piperead_tail pr pi addr n = ifm (\<lambda>s. p_nread (pipes s pi) = p_nwrite (pipes s pi) \<and> p_writeopen (pipes s pi))
     (bind (killed pr) (\<lambda>k. if k then bind (release (PipeLock pi)) (\<lambda>_. return (-1))
        else wait_on (ChanPipeRead pi) (PipeLock pi)))
     (bind (piperead_copy (nat n) pr pi addr 0) (\<lambda>i.
      bind (block [wakeup (Some (ChanPipeWrite pi)), release (PipeLock pi)]) (\<lambda>_. return i)))"

definition piperead :: "uint64 \<Rightarrow> uint64 \<Rightarrow> int \<Rightarrow> ('z filek_scheme, int) km" where
  "piperead pi addr n = with_proc (\<lambda>pr. bind (acquire (PipeLock pi)) (\<lambda>_. piperead_tail pr pi addr n))"

section \<open>The file table\<close>

definition fileinit :: "('z filek_scheme, unit) km" where
  "fileinit = initlock FtableLock ''ftable''"

definition filealloc :: "('z filek_scheme, nat option) km" where
  "filealloc = bind (acquire FtableLock) (\<lambda>_.
     bind (gets (\<lambda>s. List.find (\<lambda>f. f_ref (ftable s f) = 0) [0..<NFILE])) (\<lambda>r. case r of
       Some f \<Rightarrow> bind (block [modify (upd_file f (\<lambda>d. d\<lparr>f_ref := 1\<rparr>)), release FtableLock]) (\<lambda>_. return (Some f))
     | None \<Rightarrow> bind (release FtableLock) (\<lambda>_. return None)))"

definition filedup :: "nat \<Rightarrow> ('z filek_scheme, nat) km" where
  "filedup f = bind (block [
     acquire FtableLock,
     panic_if (\<lambda>s. f_ref (ftable s f) < 1) ''filedup'',
     modify (upd_file f (\<lambda>d. d\<lparr>f_ref := f_ref d + 1\<rparr>)),
     release FtableLock]) (\<lambda>_. return f)"

definition fileclose :: "nat \<Rightarrow> ('z filek_scheme, unit) km" where
  "fileclose f = block [
     acquire FtableLock,
     panic_if (\<lambda>s. f_ref (ftable s f) < 1) ''fileclose'',
     modify (upd_file f (\<lambda>d. d\<lparr>f_ref := f_ref d - 1\<rparr>)),
     ifm (\<lambda>s. f_ref (ftable s f) > 0)
       (release FtableLock)
       (bind (gets (\<lambda>s. ftable s f)) (\<lambda>ff. block [
         modify (upd_file f (\<lambda>d. d\<lparr>f_ref := 0\<rparr>)),
         modify (upd_file f (\<lambda>d. d\<lparr>f_type := FD_NONE\<rparr>)),
         release FtableLock,
         (if f_type ff = FD_PIPE then pipeclose (f_pipe ff) (f_writable ff)
          else if f_type ff = FD_INODE \<or> f_type ff = FD_DEVICE
            then block [begin_op, deref (f_ip ff) iput, end_op]
          else skip)]))]"

definition set_file :: "nat \<Rightarrow> (kfile \<Rightarrow> kfile) \<Rightarrow> ('z filek_scheme, unit) km" where
  "set_file f g = modify (upd_file f g)"

text \<open>The label \<^verbatim>\<open>bad\<close> of \<^verbatim>\<open>pipealloc\<close>; the page of the pipe is never there when it is reached.\<close>

definition pipealloc_bad :: "nat option \<Rightarrow> nat option \<Rightarrow> ('z filek_scheme, (nat \<times> nat) option) km" where
  "pipealloc_bad f0 f1 = bind (block [
     (case f0 of None \<Rightarrow> skip | Some f \<Rightarrow> fileclose f),
     (case f1 of None \<Rightarrow> skip | Some f \<Rightarrow> fileclose f)]) (\<lambda>_. return None)"

definition pipealloc :: "('z filek_scheme, (nat \<times> nat) option) km" where
  "pipealloc = bind filealloc (\<lambda>f0. case f0 of None \<Rightarrow> pipealloc_bad None None | Some r \<Rightarrow>
     bind filealloc (\<lambda>f1. case f1 of None \<Rightarrow> pipealloc_bad (Some r) None | Some w \<Rightarrow>
     bind kalloc (\<lambda>pi. if pi = 0 then pipealloc_bad (Some r) (Some w) else bind (block [
       modify (upd_pipe pi (\<lambda>q. q\<lparr>p_readopen := True\<rparr>)),
       modify (upd_pipe pi (\<lambda>q. q\<lparr>p_writeopen := True\<rparr>)),
       modify (upd_pipe pi (\<lambda>q. q\<lparr>p_nwrite := 0\<rparr>)),
       modify (upd_pipe pi (\<lambda>q. q\<lparr>p_nread := 0\<rparr>)),
       initlock (PipeLock pi) ''pipe'',
       set_file r (\<lambda>d. d\<lparr>f_type := FD_PIPE, f_readable := True, f_writable := False, f_pipe := pi\<rparr>),
       set_file w (\<lambda>d. d\<lparr>f_type := FD_PIPE, f_readable := False, f_writable := True, f_pipe := pi\<rparr>)])
       (\<lambda>_. return (Some (r, w))))))"

section \<open>Reading and writing files\<close>

text \<open>\<^verbatim>\<open>struct stat\<close> as bytes: dev, ino, type, nlink and, after padding, size.\<close>

definition stat_bytes :: "uchar list \<Rightarrow> stat \<Rightarrow> uchar list" where
  "stat_bytes pad st = le_bytes 4 (st_dev st) @ le_bytes 4 (st_ino st) @ le_bytes 2 (st_type st) @
     le_bytes 2 (st_nlink st) @ pad @ le_bytes 8 (st_size st)"

definition filestat :: "uchar list \<Rightarrow> nat \<Rightarrow> uint64 \<Rightarrow> ('z filek_scheme, int) km" where
  "filestat pad f addr = with_proc (\<lambda>p. bind (gets (\<lambda>s. ftable s f)) (\<lambda>d.
     if f_type d = FD_INODE \<or> f_type d = FD_DEVICE then
       bind (ilock (f_ip d)) (\<lambda>_.
       bind (deref (f_ip d) (\<lambda>ip. gets (stati ip))) (\<lambda>st.
       bind (iunlock (f_ip d)) (\<lambda>_.
       bind (bind (gets (\<lambda>s. pagetable (procs s p))) (\<lambda>pt. copyout pt addr (stat_bytes pad st))) (\<lambda>r.
         return (if r < 0 then -1 else 0)))))
     else return (-1)))"

text \<open>The functions of a device, or \<open>None\<close> where the code returns an error.\<close>

definition device_of :: "ushort \<Rightarrow> ('z) filek_scheme \<Rightarrow> devfns option" where
  "device_of maj s = (if sint maj < 0 \<or> sint maj \<ge> int NDEV then None else devsw s (nat (sint maj)))"

definition fileread :: "nat \<Rightarrow> uint64 \<Rightarrow> int \<Rightarrow> ('z filek_scheme, int) km" where
  "fileread f addr n = bind (gets (\<lambda>s. ftable s f)) (\<lambda>d.
     if \<not> f_readable d then return (-1)
     else case f_type d of
       FD_PIPE \<Rightarrow> piperead (f_pipe d) addr n
     | FD_DEVICE \<Rightarrow> bind (gets (device_of (f_major d))) (\<lambda>v. case v of
           None \<Rightarrow> return (-1)
         | Some ConsoleFns \<Rightarrow> consoleread (DstUser addr) n)
     | FD_INODE \<Rightarrow> bind (ilock (f_ip d)) (\<lambda>_.
         bind (deref (f_ip d) (\<lambda>ip. bind (gets (\<lambda>s. f_off (ftable s f))) (\<lambda>off. readi ip (DstUser addr) off (word_of_int n)))) (\<lambda>(r, _).
         bind (if r > 0 then set_file f (\<lambda>d. d\<lparr>f_off := f_off d + word_of_int r\<rparr>) else skip) (\<lambda>_.
         bind (iunlock (f_ip d)) (\<lambda>_. return r))))
     | FD_NONE \<Rightarrow> panic ''fileread'')"

definition filewrite_max :: int where "filewrite_max = int (((MAXOPBLOCKS - 1 - 1 - 2) div 2) * BSIZE)"

primrec filewrite_loop :: "nat \<Rightarrow> nat \<Rightarrow> uint64 \<Rightarrow> int \<Rightarrow> int \<Rightarrow> ('z filek_scheme, int) km" where
  "filewrite_loop 0 f addr i n = spin ''filewrite''"
| "filewrite_loop (Suc k) f addr i n =
     (if i < n then
        let n1 = (if n - i > filewrite_max then filewrite_max else n - i) in
        bind begin_op (\<lambda>_.
        bind (gets (\<lambda>s. f_ip (ftable s f))) (\<lambda>ipo.
        bind (ilock ipo) (\<lambda>_.
        bind (deref ipo (\<lambda>ip. bind (gets (\<lambda>s. f_off (ftable s f))) (\<lambda>off.
          writei ip (SrcUser (addr + word_of_int i)) off (word_of_int n1)))) (\<lambda>r.
        bind (block [
          (if r > 0 then set_file f (\<lambda>d. d\<lparr>f_off := f_off d + word_of_int r\<rparr>) else skip),
          iunlock ipo,
          end_op]) (\<lambda>_.
        if r \<noteq> n1 then return i else filewrite_loop k f addr (i + r) n)))))
      else return i)"

definition filewrite :: "nat \<Rightarrow> uint64 \<Rightarrow> int \<Rightarrow> ('z filek_scheme, int) km" where
  "filewrite f addr n = bind (gets (\<lambda>s. ftable s f)) (\<lambda>d.
     if \<not> f_writable d then return (-1)
     else case f_type d of
       FD_PIPE \<Rightarrow> pipewrite (f_pipe d) addr n
     | FD_DEVICE \<Rightarrow> bind (gets (device_of (f_major d))) (\<lambda>v. case v of
           None \<Rightarrow> return (-1)
         | Some ConsoleFns \<Rightarrow> consolewrite (SrcUser addr) n)
     | FD_INODE \<Rightarrow> bind (filewrite_loop (Suc (nat n)) f addr 0 n) (\<lambda>i. return (if i = n then n else -1))
     | FD_NONE \<Rightarrow> panic ''filewrite'')"

end
