(* ===== verification/Proc.thy ===== *)
theory Proc
  imports File
begin

text \<open>
  The life of a process (kernel/proc.c): allocation, fork, exit, wait, growing, and the first process.

  The trapframe is a page of the byte memory; its fields are words at the offsets given in kernel/proc.h.
  \<^verbatim>\<open>kwait\<close> sleeps inside \<open>kwait_tail\<close>, its loop, which the parent runs again when it is woken. Addresses
  of functions that the code stores are fields of the state.
\<close>

section \<open>State\<close>

record prk = filek +
  forkret_sym :: uint64
  usertrap_sym :: uint64
  kernelvec_sym :: uint64
  uservec_sym :: uint64
  userret_sym :: uint64
  first :: bool
  started :: bool
  sstatus :: "nat \<Rightarrow> uint64"
  sepc :: "nat \<Rightarrow> uint64"
  scause :: "nat \<Rightarrow> uint64"
  stval :: "nat \<Rightarrow> uint64"
  stvec :: "nat \<Rightarrow> uint64"
  plic_regs :: "uint64 \<Rightarrow> uint"

text \<open>
  The control and status registers are one per hart; the interrupt enable bit of \<^verbatim>\<open>sstatus\<close> is the field \<open>sie\<close>
  of the CPU. \<open>plic_regs\<close> are the memory-mapped registers of the interrupt controller.
\<close>

definition tf_kernel_satp :: uint64 where "tf_kernel_satp = 0"
definition tf_kernel_sp :: uint64 where "tf_kernel_sp = 8"
definition tf_kernel_trap :: uint64 where "tf_kernel_trap = 16"
definition tf_epc :: uint64 where "tf_epc = 24"
definition tf_kernel_hartid :: uint64 where "tf_kernel_hartid = 32"
definition tf_sp :: uint64 where "tf_sp = 48"
definition tf_a0 :: uint64 where "tf_a0 = 112"
definition tf_a1 :: uint64 where "tf_a1 = 120"
definition tf_a7 :: uint64 where "tf_a7 = 168"
definition tf_size :: nat where "tf_size = 288"

definition set_proc :: "nat \<Rightarrow> (proc \<Rightarrow> proc) \<Rightarrow> ('z kern_scheme, unit) km" where
  "set_proc p f = modify (upd_proc p f)"

definition get_tf :: "nat \<Rightarrow> uint64 \<Rightarrow> ('z phys_scheme, uint64) km" where
  "get_tf p off = bind (fault_if (\<lambda>s. trapframe (procs s p) = 0) ''trapframe'') (\<lambda>_.
     gets (\<lambda>s. load64 (pmem s) (trapframe (procs s p) + off)))"

definition set_tf :: "nat \<Rightarrow> uint64 \<Rightarrow> uint64 \<Rightarrow> ('z phys_scheme, unit) km" where
  "set_tf p off v = block [
     fault_if (\<lambda>s. trapframe (procs s p) = 0) ''trapframe'',
     modify (\<lambda>s. upd_mem (store64 (trapframe (procs s p) + off) v) s)]"

section \<open>Allocation\<close>

definition procinit_one :: "nat \<Rightarrow> ('z kern_scheme, unit) km" where
  "procinit_one p = block [
     initlock (ProcLock p) ''proc'',
     set_proc p (\<lambda>r. r\<lparr>state := UNUSED\<rparr>),
     set_proc p (\<lambda>r. r\<lparr>kstack := KSTACK p\<rparr>),
     set_proc p (\<lambda>r. r\<lparr>queue_level := 0, time_in_queue := 0, time_slices := 0, entered_queue_tick := 0\<rparr>)]"

definition procinit :: "('z kern_scheme, unit) km" where
  "procinit = block [
     initlock PidLock ''nextpid'',
     initlock WaitLock ''wait_lock'',
     initlock MlfqLock ''mlfq'',
     initlock StatsLock ''stats'',
     for_each [0..<NPROC] procinit_one]"

definition allocpid :: "('z kern_scheme, int) km" where
  "allocpid = bind (acquire PidLock) (\<lambda>_. bind (gets nextpid) (\<lambda>pd.
     bind (block [modify (\<lambda>s. s\<lparr>nextpid := nextpid s + 1\<rparr>), release PidLock]) (\<lambda>_. return pd)))"

definition proc_pagetable :: "nat \<Rightarrow> ('z phys_scheme, uint64) km" where
  "proc_pagetable p = bind uvmcreate (\<lambda>pt. if pt = 0 then return 0
     else bind (bind (gets trampoline) (\<lambda>t. mappages pt TRAMPOLINE PGSIZE t (PTE_R OR PTE_X))) (\<lambda>r.
     if r < 0 then bind (uvmfree pt 0) (\<lambda>_. return 0)
     else bind (bind (gets (\<lambda>s. trapframe (procs s p))) (\<lambda>tf. mappages pt TRAPFRAME PGSIZE tf (PTE_R OR PTE_W))) (\<lambda>r.
     if r < 0 then bind (block [uvmunmap pt TRAMPOLINE 1 False, uvmfree pt 0]) (\<lambda>_. return 0)
     else return pt)))"

definition proc_freepagetable :: "uint64 \<Rightarrow> uint64 \<Rightarrow> ('z phys_scheme, unit) km" where
  "proc_freepagetable pt len = block [
     uvmunmap pt TRAMPOLINE 1 False,
     uvmunmap pt TRAPFRAME 1 False,
     uvmfree pt len]"

text \<open>The fields that place a process in the queues, and the fields that \<^verbatim>\<open>freeproc\<close> clears at its end.\<close>

definition reset_queue :: "nat \<Rightarrow> ('z kern_scheme, unit) km" where
  "reset_queue p = set_proc p (\<lambda>r. r\<lparr>queue_level := 0, time_in_queue := 0, time_slices := 0, entered_queue_tick := 0,
     queue_next := None\<rparr>)"

definition clear_proc :: "nat \<Rightarrow> ('z kern_scheme, unit) km" where
  "clear_proc p = block [
     set_proc p (\<lambda>r. r\<lparr>pid := 0\<rparr>),
     set_proc p (\<lambda>r. r\<lparr>parent := None\<rparr>),
     set_proc p (\<lambda>r. r\<lparr>name := (name r)[0 := 0]\<rparr>),
     set_proc p (\<lambda>r. r\<lparr>chan := None\<rparr>),
     set_proc p (\<lambda>r. r\<lparr>p_killed := False\<rparr>),
     set_proc p (\<lambda>r. r\<lparr>xstate := 0\<rparr>),
     set_proc p (\<lambda>r. r\<lparr>state := UNUSED\<rparr>),
     reset_queue p]"

definition freeproc :: "nat \<Rightarrow> ('z phys_scheme, unit) km" where
  "freeproc p = block [
     bind (gets (\<lambda>s. trapframe (procs s p))) (\<lambda>tf. if tf \<noteq> 0 then kfree tf else skip),
     set_proc p (\<lambda>r. r\<lparr>trapframe := 0\<rparr>),
     bind (gets (\<lambda>s. procs s p)) (\<lambda>r. if pagetable r \<noteq> 0 then proc_freepagetable (pagetable r) (sz r) else skip),
     set_proc p (\<lambda>r. r\<lparr>pagetable := 0\<rparr>),
     set_proc p (\<lambda>r. r\<lparr>sz := 0\<rparr>),
     clear_proc p]"

text \<open>The loop of \<^verbatim>\<open>allocproc\<close> leaves with the lock of the process it found.\<close>

primrec find_unused :: "nat list \<Rightarrow> ('z kern_scheme, nat option) km" where
  "find_unused [] = return None"
| "find_unused (p # ps) = bind (acquire (ProcLock p)) (\<lambda>_.
     ifm (\<lambda>s. state (procs s p) = UNUSED) (return (Some p))
       (bind (release (ProcLock p)) (\<lambda>_. find_unused ps)))"

definition allocproc_fail :: "nat \<Rightarrow> ('z phys_scheme, nat option) km" where
  "allocproc_fail p = bind (block [freeproc p, release (ProcLock p)]) (\<lambda>_. return None)"

definition allocproc :: "('z prk_scheme, nat option) km" where
  "allocproc = bind (find_unused [0..<NPROC]) (\<lambda>po. case po of None \<Rightarrow> return None | Some p \<Rightarrow>
     bind (bind allocpid (\<lambda>pd. set_proc p (\<lambda>r. r\<lparr>pid := pd\<rparr>))) (\<lambda>_.
     bind (set_proc p (\<lambda>r. r\<lparr>state := USED\<rparr>)) (\<lambda>_.
     bind kalloc (\<lambda>tf. bind (set_proc p (\<lambda>r. r\<lparr>trapframe := tf\<rparr>)) (\<lambda>_.
     if tf = 0 then allocproc_fail p
     else bind (proc_pagetable p) (\<lambda>pt. bind (set_proc p (\<lambda>r. r\<lparr>pagetable := pt\<rparr>)) (\<lambda>_.
     if pt = 0 then allocproc_fail p
     else bind (block [
       set_proc p (\<lambda>r. r\<lparr>pcontext := \<lparr>ctx_ra = 0, ctx_sp = 0, ctx_s = replicate 12 0\<rparr>\<rparr>),
       modify (\<lambda>s. upd_proc p (\<lambda>r. r\<lparr>pcontext := (pcontext r)\<lparr>ctx_ra := forkret_sym s\<rparr>\<rparr>) s),
       set_proc p (\<lambda>r. r\<lparr>pcontext := (pcontext r)\<lparr>ctx_sp := kstack r + PGSIZE\<rparr>\<rparr>),
       reset_queue p]) (\<lambda>_. return (Some p)))))))))"

definition userinit :: "('z prk_scheme, unit) km" where
  "userinit = bind allocproc (\<lambda>po. bind (modify (\<lambda>s. s\<lparr>initproc := po\<rparr>)) (\<lambda>_.
     bind (deref po return) (\<lambda>p.
     bind (namei [SLASH]) (\<lambda>ip. block [
       set_proc p (\<lambda>r. r\<lparr>cwd := ip\<rparr>),
       set_proc p (\<lambda>r. r\<lparr>state := RUNNABLE\<rparr>),
       release (ProcLock p)]))))"

section \<open>Growing and forking\<close>

definition growproc :: "int \<Rightarrow> ('z phys_scheme, int) km" where
  "growproc n = with_proc (\<lambda>p. bind (gets (\<lambda>s. procs s p)) (\<lambda>r.
     if n > 0 then
       if sz r + word_of_int n > TRAPFRAME then return (-1)
       else bind (uvmalloc (pagetable r) (sz r) (sz r + word_of_int n) PTE_W) (\<lambda>len.
         if len = 0 then return (-1)
         else bind (set_proc p (\<lambda>r. r\<lparr>sz := len\<rparr>)) (\<lambda>_. return 0))
     else if n < 0 then
       bind (uvmdealloc (pagetable r) (sz r) (sz r + word_of_int n)) (\<lambda>len.
         bind (set_proc p (\<lambda>r. r\<lparr>sz := len\<rparr>)) (\<lambda>_. return 0))
     else bind (set_proc p (\<lambda>q. q\<lparr>sz := sz r\<rparr>)) (\<lambda>_. return 0)))"

text \<open>\<^verbatim>\<open>safestrcpy\<close> on the bytes of two kernel buffers: the bytes it writes into a buffer of \<open>Suc n\<close>.\<close>

primrec safestrcpy_bytes :: "nat \<Rightarrow> uchar list \<Rightarrow> uchar list" where
  "safestrcpy_bytes 0 t = [0]"
| "safestrcpy_bytes (Suc n) t =
     (let a = (case t of [] \<Rightarrow> 0 | x # _ \<Rightarrow> x) in
      if a \<noteq> 0 then a # safestrcpy_bytes n (drop 1 t) else [0, 0])"

definition set_name :: "uchar list \<Rightarrow> uchar list \<Rightarrow> uchar list" where
  "set_name src old = (let w = safestrcpy_bytes 15 src in w @ drop (length w) old)"

definition kfork_files :: "nat \<Rightarrow> nat \<Rightarrow> ('z filek_scheme, unit) km" where
  "kfork_files p np = for_each [0..<NOFILE] (\<lambda>i. bind (gets (\<lambda>s. ofile (procs s p) i)) (\<lambda>fo. case fo of
       None \<Rightarrow> skip
     | Some f \<Rightarrow> bind (filedup f) (\<lambda>f. set_proc np (\<lambda>r. r\<lparr>ofile := (ofile r)(i := Some f)\<rparr>))))"

text \<open>The end of \<^verbatim>\<open>kfork\<close>: the child gets its parent and enters its queue.\<close>

definition kfork_start :: "nat \<Rightarrow> nat \<Rightarrow> ('z kern_scheme, unit) km" where
  "kfork_start p np = block [
     release (ProcLock np),
     acquire WaitLock,
     set_proc np (\<lambda>r. r\<lparr>parent := Some p\<rparr>),
     release WaitLock,
     acquire (ProcLock np),
     set_proc np (\<lambda>r. r\<lparr>state := RUNNABLE\<rparr>),
     enqueue np,
     release (ProcLock np)]"

definition kfork :: "('z prk_scheme, int) km" where
  "kfork = with_proc (\<lambda>p. bind allocproc (\<lambda>npo. case npo of None \<Rightarrow> return (-1) | Some np \<Rightarrow>
     bind (bind (gets (\<lambda>s. (pagetable (procs s p), pagetable (procs s np), sz (procs s p))))
       (\<lambda>(old, new, len). uvmcopy old new len)) (\<lambda>r.
     if r < 0 then bind (block [freeproc np, release (ProcLock np)]) (\<lambda>_. return (-1))
     else bind (block [
       modify (\<lambda>s. upd_proc np (\<lambda>r. r\<lparr>sz := sz (procs s p)\<rparr>) s),
       modify (\<lambda>s. upd_mem (\<lambda>m. blit m (trapframe (procs s np)) (bytes m (trapframe (procs s p)) tf_size)) s),
       set_tf np tf_a0 0,
       kfork_files p np,
       bind (bind (gets (\<lambda>s. cwd (procs s p))) (\<lambda>c. deref c idup)) (\<lambda>ip. set_proc np (\<lambda>r. r\<lparr>cwd := Some ip\<rparr>)),
       modify (\<lambda>s. upd_proc np (\<lambda>r. r\<lparr>name := set_name (name (procs s p)) (name r)\<rparr>) s)]) (\<lambda>_.
     bind (gets (\<lambda>s. pid (procs s np))) (\<lambda>pd.
     bind (kfork_start p np) (\<lambda>_. return pd))))))"

section \<open>Exit and wait\<close>

definition reparent :: "nat \<Rightarrow> ('z kern_scheme, unit) km" where
  "reparent p = for_each [0..<NPROC] (\<lambda>pp. ifm (\<lambda>s. parent (procs s pp) = Some p)
     (block [
       modify (\<lambda>s. upd_proc pp (\<lambda>r. r\<lparr>parent := initproc s\<rparr>) s),
       bind (gets initproc) (\<lambda>i. wakeup (map_option ChanProc i))])
     skip)"

text \<open>The end of \<^verbatim>\<open>kexit\<close>: the process becomes a zombie and leaves the CPU.\<close>

definition kexit_end :: "nat \<Rightarrow> int \<Rightarrow> ('z kern_scheme, unit) km" where
  "kexit_end p status = block [
     acquire WaitLock,
     reparent p,
     bind (gets (\<lambda>s. parent (procs s p))) (\<lambda>q. wakeup (map_option ChanProc q)),
     acquire (ProcLock p),
     set_proc p (\<lambda>r. r\<lparr>xstate := status\<rparr>),
     set_proc p (\<lambda>r. r\<lparr>state := ZOMBIE\<rparr>),
     release WaitLock,
     sched]"

definition kexit :: "int \<Rightarrow> ('z filek_scheme, 'a) km" where
  "kexit status = with_proc (\<lambda>p. bind (block [
     panic_if (\<lambda>s. initproc s = Some p) ''init exiting'',
     for_each [0..<NOFILE] (\<lambda>fd. bind (gets (\<lambda>s. ofile (procs s p) fd)) (\<lambda>fo. case fo of
         None \<Rightarrow> skip
       | Some f \<Rightarrow> block [fileclose f, set_proc p (\<lambda>r. r\<lparr>ofile := (ofile r)(fd := None)\<rparr>)])),
     begin_op,
     bind (gets (\<lambda>s. cwd (procs s p))) (\<lambda>c. deref c iput),
     end_op,
     set_proc p (\<lambda>r. r\<lparr>cwd := None\<rparr>),
     kexit_end p status]) (\<lambda>_. panic ''zombie exit''))"

text \<open>One pass over the process table: \<open>Inl\<close> is the value \<^verbatim>\<open>kwait\<close> returns, \<open>Inr\<close> whether there are children.\<close>

primrec kwait_scan :: "nat \<Rightarrow> uint64 \<Rightarrow> nat list \<Rightarrow> bool \<Rightarrow> ('z phys_scheme, int + bool) km" where
  "kwait_scan p addr [] havekids = return (Inr havekids)"
| "kwait_scan p addr (pp # pps) havekids = ifm (\<lambda>s. parent (procs s pp) = Some p)
     (bind (acquire (ProcLock pp)) (\<lambda>_.
       ifm (\<lambda>s. state (procs s pp) = ZOMBIE)
         (bind (gets (\<lambda>s. procs s pp)) (\<lambda>r.
          bind (if addr \<noteq> 0 then bind (gets (\<lambda>s. pagetable (procs s p)))
            (\<lambda>pt. copyout pt addr (le_bytes 4 (word_of_int (xstate r) :: uint))) else return 0) (\<lambda>c.
          if c < 0 then bind (block [release (ProcLock pp), release WaitLock]) (\<lambda>_. return (Inl (-1)))
          else bind (block [freeproc pp, release (ProcLock pp), release WaitLock]) (\<lambda>_. return (Inl (pid r))))))
         (bind (release (ProcLock pp)) (\<lambda>_. kwait_scan p addr pps True))))
     (kwait_scan p addr pps havekids)"

definition kwait_tail :: "nat \<Rightarrow> uint64 \<Rightarrow> ('z phys_scheme, int) km" where
  "kwait_tail p addr = bind (kwait_scan p addr [0..<NPROC] False) (\<lambda>r. case r of
       Inl v \<Rightarrow> return v
     | Inr havekids \<Rightarrow> bind (if \<not> havekids then return True else killed p) (\<lambda>stop.
         if stop then bind (release WaitLock) (\<lambda>_. return (-1))
         else wait_on (ChanProc p) WaitLock))"

definition kwait :: "uint64 \<Rightarrow> ('z phys_scheme, int) km" where
  "kwait addr = with_proc (\<lambda>p. bind (acquire WaitLock) (\<lambda>_. kwait_tail p addr))"

end
