(* ===== verification/Exec.thy ===== *)
theory Exec
  imports Proc
begin

text \<open>
  Loading a program (kernel/exec.c, kernel/elf.h).

  The ELF headers are byte lists read from the file; their fields are taken at the offsets of
  kernel/elf.h. The argument strings are byte lists without the NUL. The label \<^verbatim>\<open>bad\<close> is \<open>kexec_bad\<close>.
\<close>

section \<open>ELF headers\<close>

definition MAXARG :: nat where "MAXARG = 32"
definition USERSTACK :: uint64 where "USERSTACK = 1"
definition ELF_MAGIC :: uint where "ELF_MAGIC = 0x464C457F"
definition ELF_PROG_LOAD :: uint where "ELF_PROG_LOAD = 1"

definition le_field :: "uchar list \<Rightarrow> nat \<Rightarrow> nat \<Rightarrow> 'a::len word" where
  "le_field bs off n = le_word (take n (drop off bs))"

definition elf_magic :: "uchar list \<Rightarrow> uint" where "elf_magic h = le_field h 0 4"
definition elf_entry :: "uchar list \<Rightarrow> uint64" where "elf_entry h = le_field h 24 8"
definition elf_phoff :: "uchar list \<Rightarrow> uint64" where "elf_phoff h = le_field h 32 8"
definition elf_phnum :: "uchar list \<Rightarrow> ushort" where "elf_phnum h = le_field h 56 2"
definition ph_type :: "uchar list \<Rightarrow> uint" where "ph_type h = le_field h 0 4"
definition ph_flags :: "uchar list \<Rightarrow> uint" where "ph_flags h = le_field h 4 4"
definition ph_off :: "uchar list \<Rightarrow> uint64" where "ph_off h = le_field h 8 8"
definition ph_vaddr :: "uchar list \<Rightarrow> uint64" where "ph_vaddr h = le_field h 16 8"
definition ph_filesz :: "uchar list \<Rightarrow> uint64" where "ph_filesz h = le_field h 32 8"
definition ph_memsz :: "uchar list \<Rightarrow> uint64" where "ph_memsz h = le_field h 40 8"

definition flags2perm :: "uint \<Rightarrow> uint64" where
  "flags2perm flags =
     (let perm = (if flags AND 1 \<noteq> 0 then PTE_X else 0) in
      if flags AND 2 \<noteq> 0 then perm OR PTE_W else perm)"

section \<open>Loading\<close>

primrec loadseg_loop :: "nat \<Rightarrow> uint64 \<Rightarrow> uint64 \<Rightarrow> nat \<Rightarrow> uint \<Rightarrow> uint \<Rightarrow> uint \<Rightarrow> ('z fsk_scheme, int) km" where
  "loadseg_loop 0 pt va ip offset i len = spin ''loadseg''"
| "loadseg_loop (Suc k) pt va ip offset i len =
     (if i < len then bind (walkaddr pt (va + ucast i)) (\<lambda>pa.
        if pa = 0 then panic ''loadseg: address should exist''
        else let n = (if len - i < 4096 then len - i else 4096) in
          bind (readi ip (DstPhys pa) (offset + i) n) (\<lambda>(r, _).
            if r \<noteq> uint n then return (-1) else loadseg_loop k pt va ip offset (i + 4096) len))
      else return 0)"

definition loadseg :: "uint64 \<Rightarrow> uint64 \<Rightarrow> nat \<Rightarrow> uint \<Rightarrow> uint \<Rightarrow> ('z fsk_scheme, int) km" where
  "loadseg pt va ip offset len = loadseg_loop (unat len div 4096 + 2) pt va ip offset 0 len"

text \<open>The segments: \<open>Inr\<close> is the size reached, \<open>Inl\<close> the size at a jump to \<^verbatim>\<open>bad\<close>.\<close>

primrec kexec_load :: "nat \<Rightarrow> nat \<Rightarrow> uint64 \<Rightarrow> uint \<Rightarrow> uint64 \<Rightarrow> ('z fsk_scheme, uint64 + uint64) km" where
  "kexec_load 0 ip pt off len = return (Inr len)"
| "kexec_load (Suc k) ip pt off len = bind (readi ip DstLocal off 56) (\<lambda>(r, ph).
     if r \<noteq> 56 then return (Inl len)
     else if ph_type ph \<noteq> ELF_PROG_LOAD then kexec_load k ip pt (off + 56) len
     else if ph_memsz ph < ph_filesz ph then return (Inl len)
     else if ph_vaddr ph + ph_memsz ph < ph_vaddr ph then return (Inl len)
     else if ph_vaddr ph mod PGSIZE \<noteq> 0 then return (Inl len)
     else bind (uvmalloc pt len (ph_vaddr ph + ph_memsz ph) (flags2perm (ph_flags ph))) (\<lambda>sz1.
       if sz1 = 0 then return (Inl len)
       else bind (loadseg pt (ph_vaddr ph) ip (ucast (ph_off ph)) (ucast (ph_filesz ph))) (\<lambda>r.
         if r < 0 then return (Inl sz1) else kexec_load k ip pt (off + 56) sz1)))"

text \<open>The argument strings, pushed onto the new stack: \<open>None\<close> is a jump to \<^verbatim>\<open>bad\<close>.\<close>

primrec kexec_args :: "uchar list list \<Rightarrow> uint64 \<Rightarrow> uint64 \<Rightarrow> uint64 \<Rightarrow> uint64 list \<Rightarrow> ('z phys_scheme, (uint64 \<times> uint64 list) option) km" where
  "kexec_args [] pt stackbase sp ustack = return (Some (sp, ustack))"
| "kexec_args (a # as) pt stackbase sp ustack =
     (if MAXARG \<le> length ustack then return None
      else let sp1 = sp - of_nat (length a + 1); sp2 = sp1 - sp1 mod 16 in
        if sp2 < stackbase then return None
        else bind (copyout pt sp2 (a @ [0])) (\<lambda>r.
          if r < 0 then return None else kexec_args as pt stackbase sp2 (ustack @ [sp2])))"

primrec after_slash :: "uchar list \<Rightarrow> uchar list \<Rightarrow> uchar list" where
  "after_slash [] lasta = lasta"
| "after_slash (c # cs) lasta = after_slash cs (if c = SLASH then cs else lasta)"

definition kexec_bad :: "uint64 \<Rightarrow> uint64 \<Rightarrow> nat option \<Rightarrow> ('z fsk_scheme, int) km" where
  "kexec_bad pt len ipo = bind (block [
     (if pt \<noteq> 0 then proc_freepagetable pt len else skip),
     (case ipo of None \<Rightarrow> skip | Some ip \<Rightarrow> block [iunlockput ip, end_op])]) (\<lambda>_. return (-1))"

text \<open>The second half of \<^verbatim>\<open>kexec\<close>: the stack, the arguments, and the switch to the new image.\<close>

definition kexec_commit :: "nat \<Rightarrow> uchar list \<Rightarrow> uint64 \<Rightarrow> uint64 \<Rightarrow> uint64 \<Rightarrow> uint64 \<Rightarrow> ('z fsk_scheme, unit) km" where
  "kexec_commit p path pt len sp entry = block [
     set_tf p tf_a1 sp,
     set_proc p (\<lambda>r. r\<lparr>name := set_name (after_slash path path) (name r)\<rparr>),
     bind (gets (\<lambda>s. procs s p)) (\<lambda>old. block [
       set_proc p (\<lambda>r. r\<lparr>pagetable := pt\<rparr>),
       set_proc p (\<lambda>r. r\<lparr>sz := len\<rparr>),
       set_tf p tf_epc entry,
       set_tf p tf_sp sp,
       proc_freepagetable (pagetable old) (sz old)])]"

definition kexec_stack :: "nat \<Rightarrow> uchar list \<Rightarrow> uchar list list \<Rightarrow> uint64 \<Rightarrow> uint64 \<Rightarrow> uint64 \<Rightarrow> ('z fsk_scheme, int) km" where
  "kexec_stack p path argv pt sz0 entry = (let len0 = PGROUNDUP sz0 in
     bind (uvmalloc pt len0 (len0 + (USERSTACK + 1) * PGSIZE) PTE_W) (\<lambda>len.
     if len = 0 then kexec_bad pt len0 None
     else bind (uvmclear pt (len - (USERSTACK + 1) * PGSIZE)) (\<lambda>_.
     let stackbase = len - USERSTACK * PGSIZE in
     bind (kexec_args argv pt stackbase len []) (\<lambda>r. case r of None \<Rightarrow> kexec_bad pt len None
     | Some (sp, ustack) \<Rightarrow>
       bind (fault_if (\<lambda>_. MAXARG \<le> length ustack) ''kexec ustack'') (\<lambda>_.
       let argc = length ustack; sp1 = sp - of_nat ((argc + 1) * 8); sp2 = sp1 - sp1 mod 16 in
       if sp2 < stackbase then kexec_bad pt len None
       else bind (copyout pt sp2 (concat (map (le_bytes 8) (ustack @ [0])))) (\<lambda>r.
         if r < 0 then kexec_bad pt len None
         else bind (kexec_commit p path pt len sp2 entry) (\<lambda>_. return (int argc))))))))"

definition kexec :: "uchar list \<Rightarrow> uchar list list \<Rightarrow> ('z fsk_scheme, int) km" where
  "kexec path argv = with_proc (\<lambda>p. bind begin_op (\<lambda>_. bind (namei path) (\<lambda>ipo. case ipo of
       None \<Rightarrow> bind end_op (\<lambda>_. return (-1))
     | Some ip \<Rightarrow> bind (ilock (Some ip)) (\<lambda>_. bind (readi ip DstLocal 0 64) (\<lambda>(r, elf).
         if r \<noteq> 64 then kexec_bad 0 0 (Some ip)
         else if elf_magic elf \<noteq> ELF_MAGIC then kexec_bad 0 0 (Some ip)
         else bind (proc_pagetable p) (\<lambda>pt. if pt = 0 then kexec_bad 0 0 (Some ip)
         else bind (kexec_load (unat (elf_phnum elf)) ip pt (ucast (elf_phoff elf)) 0) (\<lambda>r. case r of
             Inl len \<Rightarrow> kexec_bad pt len (Some ip)
           | Inr len \<Rightarrow> bind (block [iunlockput ip, end_op]) (\<lambda>_.
               with_proc (\<lambda>p. kexec_stack p path argv pt len (elf_entry elf))))))))))"

end
