(* ===== verification/Mlfq.thy ===== *)
theory Mlfq
  imports Sched
begin

text \<open>
  The multi-level feedback queue scheduler (\<^verbatim>\<open>priority_boost\<close> and \<^verbatim>\<open>scheduler\<close> of kernel/proc.c), the
  timer interrupt that drives it (\<^verbatim>\<open>clockintr\<close> of kernel/trap.c) and the manual boost of
  kernel/sysproc.c. \<^verbatim>\<open>scheduler\<close> is given by one turn of its endless loop.

  Shown here: what a boost does from any state of the queues, and which process a turn of the
  scheduler hands the CPU to.
\<close>

section \<open>Priority boost and scheduler\<close>

definition boost_one :: "nat \<Rightarrow> ('z kern_scheme, unit) km" where
  "boost_one p = block [
     acquire (ProcLock p),
     ifm (\<lambda>s. state (procs s p) = RUNNABLE)
       (block [
          modify (upd_proc p (\<lambda>r. r\<lparr>queue_level := 0\<rparr>)),
          modify (upd_proc p (\<lambda>r. r\<lparr>time_in_queue := 0\<rparr>)),
          enqueue p])
       skip,
     release (ProcLock p)]"

definition priority_boost :: "('z kern_scheme, unit) km" where
  "priority_boost = block [
     for_each [0..<MLFQ_LEVELS] (\<lambda>i. block [
       modify (upd_rq i (\<lambda>q. q\<lparr>head := None\<rparr>)),
       modify (upd_rq i (\<lambda>q. q\<lparr>tail := None\<rparr>))]),
     for_each [0..<NPROC] boost_one,
     modify (\<lambda>s. s\<lparr>ticks_since_boost := 0\<rparr>)]"

text \<open>
  \<^verbatim>\<open>scheduler_rest\<close> is what \<^verbatim>\<open>scheduler\<close> does when the process it ran has switched back to it. The
  result of \<open>scheduler_level\<close> is the value of \<^verbatim>\<open>found\<close> after the body of the loop over the levels.
\<close>

definition scheduler_rest :: "nat \<Rightarrow> ('z kern_scheme, unit) km" where
  "scheduler_rest p = block [
     modify (upd_cpu (\<lambda>c. c\<lparr>c_proc := None\<rparr>)),
     ifm (\<lambda>s. state (procs s p) = RUNNABLE) (enqueue p) skip,
     release (ProcLock p)]"

definition scheduler_level :: "nat \<Rightarrow> ('z kern_scheme, bool) km" where
  "scheduler_level level = bind (dequeue (int level)) (\<lambda>po. case po of
     None \<Rightarrow> return False
   | Some p \<Rightarrow> bind (acquire (ProcLock p)) (\<lambda>_.
       ifm (\<lambda>s. state (procs s p) = RUNNABLE)
         (bind (block [
            acquire StatsLock,
            modify (upd_stats (\<lambda>st. st\<lparr>level_schedules :=
              (level_schedules st)(level := level_schedules st level + 1)\<rparr>)),
            release StatsLock,
            modify (upd_proc p (\<lambda>r. r\<lparr>state := RUNNING\<rparr>)),
            modify (upd_cpu (\<lambda>c. c\<lparr>c_proc := Some p\<rparr>)),
            modify (\<lambda>s. upd_proc p (\<lambda>r. r\<lparr>entered_queue_tick := sint (ticks_since_boost s)\<rparr>) s),
            swtch,
            scheduler_rest p]) (\<lambda>_. return True))
         (bind (release (ProcLock p)) (\<lambda>_. return False))))"

primrec scheduler_levels :: "nat list \<Rightarrow> ('z kern_scheme, bool) km" where
  "scheduler_levels [] = return False"
| "scheduler_levels (l # ls) = bind (scheduler_level l) (\<lambda>found.
     if found then return True else scheduler_levels ls)"

definition scheduler_count :: "('z kern_scheme, unit) km" where
  "scheduler_count = block [
     acquire StatsLock,
     modify (upd_stats (\<lambda>st. st\<lparr>total_schedules := total_schedules st + 1\<rparr>)),
     modify (\<lambda>s. s\<lparr>scheduler_cycle_count := scheduler_cycle_count s + 1\<rparr>),
     release StatsLock]"

definition scheduler_boost :: "('z kern_scheme, unit) km" where
  "scheduler_boost = ifm (\<lambda>s. BOOST_INTERVAL \<le> ticks_since_boost s)
     (block [
        priority_boost,
        acquire StatsLock,
        modify (upd_stats (\<lambda>st. st\<lparr>total_boosts := total_boosts st + 1\<rparr>)),
        release StatsLock])
     skip"

text \<open>One turn of the loop; \<open>Ok False\<close> is the turn that ends in \<^verbatim>\<open>wfi\<close>.\<close>

definition scheduler_turn :: "('z kern_scheme, bool) km" where
  "scheduler_turn = bind (block [intr_on, intr_off, scheduler_count, scheduler_boost])
     (\<lambda>_. scheduler_levels [0..<MLFQ_LEVELS])"

definition scheduler_init :: "('z kern_scheme, unit) km" where
  "scheduler_init = modify (upd_cpu (\<lambda>c. c\<lparr>c_proc := None\<rparr>))"

section \<open>The timer interrupt (kernel/trap.c)\<close>

definition clock_tick :: "('z kern_scheme, unit) km" where
  "clock_tick = ifm (\<lambda>s. cpuid s = 0)
     (block [
        acquire TicksLock,
        modify (\<lambda>s. s\<lparr>ticks := ticks s + 1\<rparr>),
        modify (\<lambda>s. s\<lparr>ticks_since_boost := ticks_since_boost s + 1\<rparr>),
        wakeup (Some ChanTicks),
        release TicksLock])
     skip"

definition clock_quantum :: "nat \<Rightarrow> ('z kern_scheme, unit) km" where
  "clock_quantum p = block [
     modify (upd_proc p (\<lambda>r. r\<lparr>time_in_queue := time_in_queue r + 1\<rparr>)),
     bind (gets (\<lambda>s. get_quantum (queue_level (procs s p)))) (\<lambda>quantum.
       ifm (\<lambda>s. quantum \<le> time_in_queue (procs s p))
         (block [
            modify (upd_proc p (\<lambda>r. r\<lparr>time_in_queue := 0\<rparr>)),
            ifm (\<lambda>s. queue_level (procs s p) < int MLFQ_LEVELS - 1)
              (block [
                 modify (upd_proc p (\<lambda>r. r\<lparr>queue_level := queue_level r + 1\<rparr>)),
                 acquire StatsLock,
                 modify (upd_stats (\<lambda>st. st\<lparr>total_demotions := total_demotions st + 1\<rparr>)),
                 release StatsLock])
              skip,
            yield])
         skip)]"

definition w_stimecmp :: "uint64 \<Rightarrow> ('z kern_scheme, unit) km" where
  "w_stimecmp x = modify (\<lambda>s. s\<lparr>stimecmp := (stimecmp s)(tp s := x)\<rparr>)"

definition clock_next :: "('z kern_scheme, unit) km" where
  "clock_next = bind (gets mtime) (\<lambda>t. w_stimecmp (t + 1000000))"

definition clockintr :: "('z kern_scheme, unit) km" where
  "clockintr = block [
     clock_tick,
     bind myproc (\<lambda>po. case po of
       None \<Rightarrow> skip
     | Some p \<Rightarrow> ifm (\<lambda>s. state (procs s p) = RUNNING) (clock_quantum p) skip),
     clock_next]"

section \<open>Manual boost and statistics (kernel/sysproc.c)\<close>

primrec boostproc_loop :: "int \<Rightarrow> nat list \<Rightarrow> ('z kern_scheme, int) km" where
  "boostproc_loop pd [] = return (-1)"
| "boostproc_loop pd (p # ps) = bind (acquire (ProcLock p)) (\<lambda>_.
     ifm (\<lambda>s. pid (procs s p) = pd)
       (bind (block [
          modify (upd_proc p (\<lambda>r. r\<lparr>queue_level := 0\<rparr>)),
          modify (upd_proc p (\<lambda>r. r\<lparr>time_in_queue := 0\<rparr>)),
          release (ProcLock p)]) (\<lambda>_. return 0))
       (bind (release (ProcLock p)) (\<lambda>_. boostproc_loop pd ps)))"

definition boostproc :: "int \<Rightarrow> ('z kern_scheme, int) km" where
  "boostproc pd = (if pd = 0 then bind priority_boost (\<lambda>_. return 0)
     else boostproc_loop pd [0..<NPROC])"

section \<open>priority\_boost\<close>

lemma boost_one_runnable:
  assumes free: "lock_free (ProcLock p) s" and wf: "irq_wf s" and rep: "rqs_rep s qs"
    and st: "state (procs s p) = RUNNABLE" and fresh: "p \<notin> queued qs"
  shows "\<exists>u. boost_one p s = Ok () u \<and>
    forget_queues u = forget_queues (settle (upd_proc p (\<lambda>r. r\<lparr>queue_level := 0, time_in_queue := 0\<rparr>) s)) \<and>
    rqs_rep u (qs(0 := qs 0 @ [p]))"
proof -
  let ?f = "\<lambda>r. r\<lparr>queue_level := 0, time_in_queue := 0\<rparr>"
  have "upd_proc p (\<lambda>r. r\<lparr>time_in_queue := 0\<rparr>) (upd_proc p (\<lambda>r. r\<lparr>queue_level := 0\<rparr>) x) = upd_proc p ?f x"
    for x :: "'a kern_scheme" by (simp add: upd_proc_def)
  with st free have "boost_one p s =
      block [acquire (ProcLock p), block [modify (upd_proc p ?f), enqueue p], release (ProcLock p)] s"
    by (simp add: boost_one_def)
  with enqueue_section [OF free wf rep, of ?f] fresh show ?thesis by (simp add: level_ok_def MLFQ_LEVELS_def)
qed

lemma boost_one_other:
  assumes free: "lock_free (ProcLock p) s" and wf: "irq_wf s" and st: "state (procs s p) \<noteq> RUNNABLE"
  shows "boost_one p s = Ok () (settle s)"
proof -
  have "block [acquire (ProcLock p), skip, release (ProcLock p)] s =
      Ok () ((acq (ProcLock p) s)\<lparr>cpus := cpus (settle s), locks := locks s\<rparr>)"
    by (rule locked_section [OF free wf]) simp_all
  also have "(acq (ProcLock p) s)\<lparr>cpus := cpus (settle s), locks := locks s\<rparr> = settle s"
    by (simp add: acq_def upd_cpu_def upd_lock_def settle_def)
  finally show ?thesis using st free by (simp add: boost_one_def)
qed

lemma settle_map_procs: "settle (map_procs A f s) = map_procs A f (settle s)"
proof -
  have "upd_cpu g (map_procs A f s) = map_procs A f (upd_cpu g s)" for g
    unfolding map_procs_def upd_cpu_sched by (simp add: upd_cpu_def)
  then show ?thesis by (simp add: settle_def)
qed

lemma forget_settle: "forget_queues t = forget_queues s \<Longrightarrow> forget_queues (settle t) = forget_queues (settle s)"
proof -
  have "forget_queues (settle x) = settle (forget_queues x)" for x :: "'a kern_scheme"
    by (simp add: forget_queues_def settle_def upd_cpu_def)
  then show "forget_queues t = forget_queues s \<Longrightarrow> forget_queues (settle t) = forget_queues (settle s)" by simp
qed

lemma boost_loop:
  assumes "rqs_rep s qs" and "irq_wf s" and "distinct ps"
    and "\<And>p. p \<in> set ps \<Longrightarrow> lock_free (ProcLock p) s" and "set ps \<inter> queued qs = {}"
  shows "\<exists>t. for_each ps boost_one s = Ok () t \<and>
    forget_queues (settle t) = forget_queues (settle (map_procs {p \<in> set ps. state (procs s p) = RUNNABLE}
      (\<lambda>r. r\<lparr>queue_level := 0, time_in_queue := 0\<rparr>) s)) \<and>
    rqs_rep t (qs(0 := qs 0 @ filter (\<lambda>p. state (procs s p) = RUNNABLE) ps))"
  using assms
proof (induction ps arbitrary: s qs)
  case Nil
  then show ?case by simp
next
  case (Cons p ps)
  let ?f = "\<lambda>r. r\<lparr>queue_level := 0, time_in_queue := 0\<rparr>" and ?P = "\<lambda>s p. state (procs s p) = RUNNABLE"
  let ?g = "if ?P s p then ?f else id" and ?new = "if ?P s p then [p] else []"
  have "\<exists>u. boost_one p s = Ok () u \<and> forget_queues u = forget_queues (settle (upd_proc p ?g s)) \<and>
      rqs_rep u (qs(0 := qs 0 @ ?new))"
  proof (cases "?P s p")
    case True
    with boost_one_runnable [OF _ Cons.prems(2,1) True] Cons.prems(4,5) show ?thesis by simp
  next
    case False
    have "upd_proc p id s = s" by (simp add: upd_proc_def)
    with boost_one_other [OF _ Cons.prems(2) False] Cons.prems(1,4) False show ?thesis by simp
  qed
  then obtain u where run: "boost_one p s = Ok () u"
    and fg: "forget_queues u = forget_queues (settle (upd_proc p ?g s))" and rep: "rqs_rep u (qs(0 := qs 0 @ ?new))"
    by blast
  note same = forget_queues_sels(1-3) [OF fg]
  have pr: "?P u q = ?P s q" if "q \<in> set ps" for q
    using forget_queues_proc(1) [OF fg, of q] Cons.prems(3) that by auto
  have wf: "irq_wf u" using same Cons.prems(2) by (simp add: irq_wf_def)
  have dis: "set ps \<inter> queued (qs(0 := qs 0 @ ?new)) = {}"
    using Cons.prems(3,5) queued_snoc [of qs 0 p] by (auto split: if_splits)
  have "\<exists>t. for_each ps boost_one u = Ok () t \<and>
    forget_queues (settle t) = forget_queues (settle (map_procs {q \<in> set ps. ?P u q} ?f u)) \<and>
    rqs_rep t ((qs(0 := qs 0 @ ?new))(0 := (qs(0 := qs 0 @ ?new)) 0 @ filter (?P u) ps))"
    by (rule Cons.IH [OF rep wf _ _ dis]) (use Cons.prems same in \<open>auto simp: lock_free_def\<close>)
  then obtain t where t: "for_each ps boost_one u = Ok () t"
    "forget_queues (settle t) = forget_queues (settle (map_procs {q \<in> set ps. ?P u q} ?f u))"
    "rqs_rep t (qs(0 := (qs 0 @ ?new) @ filter (?P u) ps))" unfolding fun_upd_upd fun_upd_same by blast
  have A: "{q \<in> set ps. ?P u q} = {q \<in> set ps. ?P s q}" using pr by auto
  have "map_procs {q \<in> set (p # ps). ?P s q} ?f s = map_procs {q \<in> set ps. ?P s q} ?f (upd_proc p ?g s)"
    using Cons.prems(3) by (auto simp: map_procs_def upd_proc_def fun_eq_iff)
  moreover have "forget_queues (settle (map_procs {q \<in> set ps. ?P s q} ?f u)) =
      forget_queues (settle (map_procs {q \<in> set ps. ?P s q} ?f (settle (upd_proc p ?g s))))"
    by (intro forget_settle forget_map_procs fg) simp
  ultimately have "forget_queues (settle t) = forget_queues (settle (map_procs {q \<in> set (p # ps). ?P s q} ?f s))"
    unfolding t(2) A by (simp add: settle_map_procs)
  moreover have "filter (?P u) ps = filter (?P s) ps" using pr by (auto intro: filter_cong)
  then have "(qs 0 @ ?new) @ filter (?P u) ps = qs 0 @ filter (?P s) (p # ps)" by simp
  ultimately have "forget_queues (settle t) = forget_queues (settle (map_procs {q \<in> set (p # ps). ?P s q} ?f s))"
    "rqs_rep t (qs(0 := qs 0 @ filter (?P s) (p # ps)))" using t(3) by (simp_all only:)
  moreover have "for_each (p # ps) boost_one s = Ok () t" using run t(1) by simp
  ultimately show ?case by blast
qed

definition runnables :: "('z) kern_scheme \<Rightarrow> nat list" where
  "runnables s = filter (\<lambda>p. state (procs s p) = RUNNABLE) [0..<NPROC]"

text \<open>The queues right after a boost.\<close>

definition all_top :: "nat list \<Rightarrow> nat \<Rightarrow> nat list" where
  "all_top ps l = (if l = 0 then ps else [])"

lemma clear_queues:
  "for_each [0..<MLFQ_LEVELS] (\<lambda>i. block [modify (upd_rq i (\<lambda>q. q\<lparr>head := None\<rparr>)),
      modify (upd_rq i (\<lambda>q. q\<lparr>tail := None\<rparr>))]) s =
   Ok () (s\<lparr>runqueues := (\<lambda>l. if l < MLFQ_LEVELS then \<lparr>head = None, tail = None\<rparr> else runqueues s l)\<rparr>)"
proof -
  have "upt 0 MLFQ_LEVELS = [0, 1, 2, 3]" by (simp add: MLFQ_LEVELS_def upt_rec numeral_eq_Suc)
  then show ?thesis
    by (auto simp: upd_rq_def fun_eq_iff MLFQ_LEVELS_def less_Suc_eq numeral_eq_Suc)
qed

lemma priority_boost_eq:
  assumes wf: "irq_wf s" and free: "\<And>p. p < NPROC \<Longrightarrow> lock_free (ProcLock p) s"
  shows "\<exists>t. priority_boost s = Ok () t \<and>
    forget_queues (settle t) = forget_queues (settle (map_procs (set (runnables s))
      (\<lambda>r. r\<lparr>queue_level := 0, time_in_queue := 0\<rparr>) (s\<lparr>ticks_since_boost := 0\<rparr>))) \<and>
    rqs_rep t (all_top (runnables s))"
proof -
  let ?f = "\<lambda>r. r\<lparr>queue_level := 0, time_in_queue := 0\<rparr>"
  let ?s = "s\<lparr>runqueues := (\<lambda>l. if l < MLFQ_LEVELS then \<lparr>head = None, tail = None\<rparr> else runqueues s l)\<rparr>"
  have rep: "rqs_rep ?s (\<lambda>_. [])" by (simp add: rqs_rep_def rq_rep_def)
  have "\<exists>t. for_each [0..<NPROC] boost_one ?s = Ok () t \<and>
    forget_queues (settle t) = forget_queues (settle (map_procs {p \<in> set [0..<NPROC]. state (procs ?s p) = RUNNABLE} ?f ?s)) \<and>
    rqs_rep t ((\<lambda>_. [])(0 := [] @ filter (\<lambda>p. state (procs ?s p) = RUNNABLE) [0..<NPROC]))"
    by (rule boost_loop [OF rep]) (use wf free in \<open>auto simp: irq_wf_def lock_free_def queued_def\<close>)
  then obtain t where run: "for_each [0..<NPROC] boost_one ?s = Ok () t"
    and fg: "forget_queues (settle t) = forget_queues (settle (map_procs (set (runnables s)) ?f ?s))"
    and new: "rqs_rep t ((\<lambda>_. [])(0 := runnables s))"
    by (auto simp: runnables_def)
  let ?t = "t\<lparr>ticks_since_boost := 0\<rparr>"
  have "priority_boost s = Ok () ?t" by (simp add: priority_boost_def clear_queues [simplified] run)
  moreover have "forget_queues (settle ?t) = (forget_queues (settle t))\<lparr>ticks_since_boost := 0\<rparr>"
    by (simp add: forget_queues_def settle_def upd_cpu_def cong: if_cong)
  then have "forget_queues (settle ?t) = forget_queues (settle (map_procs (set (runnables s)) ?f (s\<lparr>ticks_since_boost := 0\<rparr>)))"
    unfolding fg by (simp add: forget_queues_def settle_def upd_cpu_def map_procs_def cong: if_cong)
  moreover have "rqs_rep ?t (all_top (runnables s))"
    using new by (subst rqs_rep_cong [of _ t]) (simp_all add: nextp_def fun_upd_def all_top_def [abs_def])
  ultimately show ?thesis by blast
qed
section \<open>The scheduler loop\<close>

text \<open>The state in which the scheduler hands the CPU to \<open>p\<close>, taken from queue \<open>l\<close>.\<close>

definition count_pick :: "nat \<Rightarrow> mlfq_stats \<Rightarrow> mlfq_stats" where
  "count_pick l = (\<lambda>st. st\<lparr>level_schedules := (level_schedules st)(l := level_schedules st l + 1)\<rparr>)"

definition handed_over :: "nat \<Rightarrow> nat \<Rightarrow> ('z) kern_scheme \<Rightarrow> ('z) kern_scheme" where
  "handed_over l p s = upd_proc p (\<lambda>r. r\<lparr>state := RUNNING, entered_queue_tick := sint (ticks_since_boost s)\<rparr>)
     (upd_cpu (\<lambda>c. c\<lparr>c_proc := Some p\<rparr>) (upd_stats (count_pick l) (acq (ProcLock p) s)))"




lemma forget_handed_over:
  assumes "forget_queues t = forget_queues s"
  shows "forget_queues (handed_over l p t) = forget_queues (handed_over l p s)"
  unfolding handed_over_def forget_queues_sels(6) [OF assms]
  by (rule forget_upd_proc) (simp_all add: forget_comm assms)

lemma scheduler_level_empty:
  assumes "rqs_rep s qs" and "l < MLFQ_LEVELS" and "qs l = []"
  shows "scheduler_level l s = Ok False s"
proof -
  have "dequeue (int l) s = Ok None s"
    using assms by (intro dequeue_empty) (auto simp: rqs_rep_def level_ok_def)
  then show ?thesis by (simp add: scheduler_level_def)
qed

lemma scheduler_level_pick:
  assumes rep: "rqs_rep s qs" and l: "l < MLFQ_LEVELS" and q: "qs l = p # ps"
    and st: "state (procs s p) = RUNNABLE" and wf: "irq_wf s"
    and free: "lock_free (ProcLock p) s" "lock_free StatsLock s"
  shows "\<exists>t. scheduler_level l s = Switch t \<and> rqs_rep t (qs(l := ps)) \<and>
    forget_queues t = forget_queues (handed_over l p s)"
proof -
  from dequeue_rqs [OF rep, of "int l"] l q obtain u where run: "dequeue (int l) s = Ok (Some p) u"
    and u: "rqs_rep u (qs(l := ps))" and fg: "forget_queues u = forget_queues s"
    by (auto simp: level_ok_def)
  note same = forget_queues_sels(1-3) [OF fg]
  have "irq_wf u" "lock_free (ProcLock p) u" "lock_free StatsLock u" "state (procs u p) = RUNNABLE"
    using same wf free st forget_queues_proc(1) [OF fg] by (simp_all add: irq_wf_def lock_free_def)
  note u_facts = this
  have "scheduler_level l s = Switch (handed_over l p u)"
    using run u_facts
    by (simp add: scheduler_level_def swtch_def handed_over_def count_pick_def kcomm cong: if_cong)
  moreover have "forget_queues (handed_over l p u) = forget_queues (handed_over l p s)"
    by (rule forget_handed_over [OF fg])
  moreover have "rqs_rep (handed_over l p u) (qs(l := ps))"
    using u by (simp add: handed_over_def rqs_rep_upd_proc)
  ultimately show ?thesis by blast
qed

text \<open>One turn of the scheduler when no boost is due, by levels.\<close>

lemma scheduler_levels_skip:
  assumes "rqs_rep s qs" and "\<And>k. k \<in> set ks \<Longrightarrow> k < MLFQ_LEVELS \<and> qs k = []"
  shows "scheduler_levels (ks @ ls) s = scheduler_levels ls s"
  using assms(2)
proof (induction ks)
  case (Cons k ks)
  then have "scheduler_level k s = Ok False s" by (intro scheduler_level_empty [OF assms(1)]) auto
  with Cons show ?case by simp
qed simp

lemma scheduler_levels_pick:
  assumes "rqs_rep s qs" and "\<And>k. k < l \<Longrightarrow> qs k = []" and "l < MLFQ_LEVELS" and "qs l = p # ps"
    and "state (procs s p) = RUNNABLE" and "irq_wf s" and "lock_free (ProcLock p) s" and "lock_free StatsLock s"
  shows "\<exists>t. scheduler_levels [0..<MLFQ_LEVELS] s = Switch t \<and> rqs_rep t (qs(l := ps)) \<and>
    forget_queues t = forget_queues (handed_over l p s)"
proof -
  have "[0..<MLFQ_LEVELS] = [0..<l] @ l # [Suc l..<MLFQ_LEVELS]"
    using assms(3) upt_add_eq_append [of 0 l "MLFQ_LEVELS - l"] upt_conv_Cons [of l MLFQ_LEVELS] by simp
  then have "scheduler_levels [0..<MLFQ_LEVELS] s = scheduler_levels (l # [Suc l..<MLFQ_LEVELS]) s"
    using scheduler_levels_skip [OF assms(1), of "[0..<l]"] assms(2,3) by simp
  with scheduler_level_pick [OF assms(1,3-8)] show ?thesis by auto
qed

text \<open>The state of a turn once its interrupt window is over and it has been counted.\<close>

definition turn_state :: "('z) kern_scheme \<Rightarrow> ('z) kern_scheme" where
  "turn_state s = upd_stats (\<lambda>st. st\<lparr>total_schedules := total_schedules st + 1\<rparr>)
     (upd_cpu (\<lambda>c. c\<lparr>sie := False, intena := False\<rparr>) (s\<lparr>scheduler_cycle_count := scheduler_cycle_count s + 1\<rparr>))"

lemma turn_start:
  assumes "noff (this_cpu s) = 0" and "lock_free StatsLock s"
  shows "block [intr_on, intr_off, scheduler_count] s = Ok () (turn_state s)"
proof -
  let ?u = "upd_cpu (\<lambda>c. c\<lparr>sie := False\<rparr>) s"
  let ?v = "upd_stats (\<lambda>st. st\<lparr>total_schedules := total_schedules st + 1\<rparr>) ?u"
  have c: "v\<lparr>scheduler_cycle_count := x\<rparr> = acq StatsLock (w\<lparr>scheduler_cycle_count := x\<rparr>)" if "v = acq StatsLock w"
    for v w :: "'a kern_scheme" and x
    unfolding that by (simp add: acq_def upd_cpu_def upd_lock_def)
  have "lock_free StatsLock ?u" "irq_wf ?u"
    "lock_free StatsLock (?v\<lparr>scheduler_cycle_count := scheduler_cycle_count s + 1\<rparr>)"
    "irq_wf (?v\<lparr>scheduler_cycle_count := scheduler_cycle_count s + 1\<rparr>)" using assms by (simp_all add: lock_free_def irq_wf_def)
  moreover have "settle (?v\<lparr>scheduler_cycle_count := scheduler_cycle_count s + 1\<rparr>) = turn_state s" using assms
    by (simp add: turn_state_def settle_def upd_cpu_def upd_stats_def)
  ultimately show ?thesis
    by (simp add: scheduler_count_def intr_on_def intr_off_def kcomm c)
qed


lemma turn_state_sels [simp]:
  "procs (turn_state s) = procs s" "runqueues (turn_state s) = runqueues s" "tp (turn_state s) = tp s"
  "locks (turn_state s) = locks s" "ticks_since_boost (turn_state s) = ticks_since_boost s"
  "cpus (turn_state s) = (cpus s)(tp s := (this_cpu s)\<lparr>sie := False, intena := False\<rparr>)"
  "rqs_rep (turn_state s) qs = rqs_rep s qs" "runnables (turn_state s) = runnables s"
proof -
  show "rqs_rep (turn_state s) qs = rqs_rep s qs"
    by (rule rqs_rep_cong) (simp_all add: turn_state_def nextp_def)
qed (simp_all add: turn_state_def runnables_def)

lemma turn_state_free [simp]: "lock_free l (turn_state s) = lock_free l s"
  by (simp add: lock_free_def)

text \<open>The state a turn searches the queues in: with a boost when one is due.\<close>

definition count_boost :: "mlfq_stats \<Rightarrow> mlfq_stats" where
  "count_boost = (\<lambda>st. st\<lparr>total_boosts := total_boosts st + 1\<rparr>)"

lemma scheduler_turn_start:
  assumes "noff (this_cpu s) = 0" and "lock_free StatsLock s"
  shows "scheduler_turn s = bind scheduler_boost (\<lambda>_. scheduler_levels [0..<MLFQ_LEVELS]) (turn_state s)"
proof -
  have "block [intr_on, intr_off, scheduler_count, scheduler_boost] =
      bind (block [intr_on, intr_off, scheduler_count]) (\<lambda>_. block [scheduler_boost] :: ('a kern_scheme, unit) km)"
    using block_append [of "[intr_on, intr_off, scheduler_count]" "[scheduler_boost]"] by simp
  then have "scheduler_turn s = bind (bind (block [intr_on, intr_off, scheduler_count]) (\<lambda>_. block [scheduler_boost]))
      (\<lambda>_. scheduler_levels [0..<MLFQ_LEVELS]) s" by (simp only: scheduler_turn_def)
  also have "\<dots> = bind (block [scheduler_boost]) (\<lambda>_. scheduler_levels [0..<MLFQ_LEVELS]) (turn_state s)"
    unfolding bind_assoc by (rule bind_Ok [where x = "()"]) (rule turn_start [OF assms])
  finally show ?thesis by (simp add: bind_def split: kres.splits)
qed


lemma scheduler_turn_quiet:
  assumes "noff (this_cpu s) = 0" and "lock_free StatsLock s" and "ticks_since_boost s < BOOST_INTERVAL"
  shows "scheduler_turn s = scheduler_levels [0..<MLFQ_LEVELS] (turn_state s)"
proof -
  have "scheduler_boost (turn_state s) = Ok () (turn_state s)"
    using assms(3) by (simp add: scheduler_boost_def not_le [symmetric])
  then show ?thesis by (simp add: scheduler_turn_start [OF assms(1,2)])
qed

lemma map_procs_stats: "upd_stats g (map_procs A f s) = map_procs A f (upd_stats g s)"
  by (simp add: upd_stats_def map_procs_def cong: if_cong)

lemma boost_machine [simp]:
  "irq_wf (map_procs A f s) = irq_wf s" "lock_free l (map_procs A f s) = lock_free l s"
  "irq_wf (s\<lparr>ticks_since_boost := n\<rparr>) = irq_wf s" "lock_free l (s\<lparr>ticks_since_boost := n\<rparr>) = lock_free l s"
  by (simp_all add: irq_wf_def lock_free_def)

lemma scheduler_turn_boost:
  assumes idle: "noff (this_cpu s) = 0" and "BOOST_INTERVAL \<le> ticks_since_boost s"
    and st: "lock_free StatsLock s" and free: "\<And>p. p < NPROC \<Longrightarrow> lock_free (ProcLock p) s"
  shows "\<exists>t. scheduler_turn s = scheduler_levels [0..<MLFQ_LEVELS] t \<and>
    rqs_rep t (all_top (runnables s)) \<and>
    forget_queues t = forget_queues (map_procs (set (runnables s)) (\<lambda>r. r\<lparr>queue_level := 0, time_in_queue := 0\<rparr>)
      (upd_stats count_boost ((turn_state s)\<lparr>ticks_since_boost := 0\<rparr>)))"
proof -
  let ?f = "\<lambda>r. r\<lparr>queue_level := 0, time_in_queue := 0\<rparr>"
  have wf: "irq_wf (turn_state s)" using idle by (simp add: irq_wf_def)
  from priority_boost_eq [OF wf] free obtain u where run: "priority_boost (turn_state s) = Ok () u"
    and fg: "forget_queues (settle u) = forget_queues (settle (map_procs (set (runnables s)) ?f
        ((turn_state s)\<lparr>ticks_since_boost := 0\<rparr>)))"
    and rep: "rqs_rep u (all_top (runnables s))" by auto
  have u: "irq_wf u" "lock_free StatsLock u"
    using forget_machine [OF fg] wf st by simp_all
  then have "scheduler_boost (turn_state s) = Ok () (settle (upd_stats count_boost u))"
    using assms(2) run by (simp add: scheduler_boost_def count_boost_def kcomm)
  then have "scheduler_turn s = scheduler_levels [0..<MLFQ_LEVELS] (settle (upd_stats count_boost u))"
    using scheduler_turn_start [OF idle st] by simp
  moreover have "forget_queues (settle (upd_stats count_boost u)) = upd_stats count_boost (forget_queues (settle u))"
    by (simp add: forget_comm flip: kcomm)
  then have "forget_queues (settle (upd_stats count_boost u)) = forget_queues (settle (map_procs (set (runnables s)) ?f
      (upd_stats count_boost ((turn_state s)\<lparr>ticks_since_boost := 0\<rparr>))))"
    unfolding fg by (simp add: forget_comm flip: kcomm map_procs_stats)
  moreover have "settle (map_procs (set (runnables s)) ?f (upd_stats count_boost ((turn_state s)\<lparr>ticks_since_boost := 0\<rparr>))) =
      map_procs (set (runnables s)) ?f (upd_stats count_boost ((turn_state s)\<lparr>ticks_since_boost := 0\<rparr>))"
    using idle by (simp add: settle_def upd_cpu_def)
  ultimately show ?thesis using rep by (intro exI [of _ "settle (upd_stats count_boost u)"]) simp
qed

section \<open>The scheduler's choice\<close>

text \<open>
  C20. When no boost is due, a turn of \<^verbatim>\<open>scheduler\<close> hands the CPU to the first process of the highest
  non-empty queue, marks it RUNNING with its lock held, removes it from its queue and leaves every other
  queue and process as it was.
\<close>

theorem scheduler_picks_highest:
  assumes "rqs_rep s qs" and "\<And>k. k < l \<Longrightarrow> qs k = []" and "l < MLFQ_LEVELS" and "qs l = p # ps"
    and "state (procs s p) = RUNNABLE" and "noff (this_cpu s) = 0" and "ticks_since_boost s < BOOST_INTERVAL"
    and "lock_free (ProcLock p) s" and "lock_free StatsLock s"
  shows "\<exists>t. scheduler_turn s = Switch t \<and> rqs_rep t (qs(l := ps)) \<and>
    forget_queues t = forget_queues (handed_over l p (turn_state s))"
  unfolding scheduler_turn_quiet [OF assms(6,9,7)]
  by (rule scheduler_levels_pick) (use assms in \<open>auto simp: irq_wf_def\<close>)

theorem scheduler_picks_highest_witness:
  "\<exists>t. scheduler_turn three_ready = Switch t \<and> rqs_rep t (three_queues(1 := [5])) \<and>
    forget_queues t = forget_queues (handed_over 1 3 (turn_state three_ready))"
  by (rule scheduler_picks_highest [OF three_ready_rep]) (simp_all add: MLFQ_LEVELS_def BOOST_INTERVAL_def)

text \<open>
  C19. \<^verbatim>\<open>priority_boost\<close> repairs the queues from any state, however they were linked before: afterwards queue 0
  holds every RUNNABLE process of the table exactly once, in the order of the table, the other queues are
  empty, those processes have level 0 and a fresh quantum, and no other process has changed.
\<close>

theorem priority_boost_repairs:
  assumes "irq_wf s" and "\<And>p. p < NPROC \<Longrightarrow> lock_free (ProcLock p) s"
  shows "\<exists>t. priority_boost s = Ok () t \<and> rqs_rep t (all_top (runnables s)) \<and>
    forget_queues (settle t) = forget_queues (settle (map_procs (set (runnables s))
      (\<lambda>r. r\<lparr>queue_level := 0, time_in_queue := 0\<rparr>) (s\<lparr>ticks_since_boost := 0\<rparr>)))"
  using priority_boost_eq [OF assms] by blast

text \<open>The three ready processes with their links broken: 5 points to itself, and queue 2 is lost.\<close>

definition broken_ready :: kern where
  "broken_ready = upd_proc 5 (\<lambda>r. r\<lparr>queue_next := Some 5\<rparr>) (upd_rq 2 (\<lambda>q. q\<lparr>head := None\<rparr>) three_ready)"

lemma broken_ready_sels [simp]:
  "irq_wf broken_ready" "lock_free l broken_ready" "runnables broken_ready = [3, 5, 7]"
proof -
  have "state (procs broken_ready p) = (if p = 3 \<or> p = 5 \<or> p = 7 then RUNNABLE else UNUSED)" for p
    by (simp add: broken_ready_def)
  then show "runnables broken_ready = [3, 5, 7]" by (simp add: runnables_def NPROC_def upt_rec)
qed (use three_ready_sels(3) three_ready_sels(4) [of l] in \<open>simp_all add: broken_ready_def lock_free_def irq_wf_def\<close>)

theorem priority_boost_repairs_witness:
  "\<exists>t. priority_boost broken_ready = Ok () t \<and> rqs_rep t (all_top [3, 5, 7]) \<and>
    forget_queues (settle t) = forget_queues (settle (map_procs {3, 5, 7}
      (\<lambda>r. r\<lparr>queue_level := 0, time_in_queue := 0\<rparr>) (broken_ready\<lparr>ticks_since_boost := 0\<rparr>)))"
  using priority_boost_repairs [of broken_ready] by simp

section \<open>The quantum\<close>

definition expired :: "proc \<Rightarrow> bool" where
  "expired r \<longleftrightarrow> get_quantum (queue_level r) \<le> time_in_queue r + 1"

definition charged :: "proc \<Rightarrow> proc" where
  "charged r = (if \<not> expired r then r\<lparr>time_in_queue := time_in_queue r + 1\<rparr>
     else r\<lparr>time_in_queue := 0, queue_level := min (queue_level r + 1) (int MLFQ_LEVELS - 1)\<rparr>)"

definition quantum_ok :: "proc \<Rightarrow> bool" where
  "quantum_ok r \<longleftrightarrow> level_ok (queue_level r) \<and> 0 \<le> time_in_queue r \<and> time_in_queue r < get_quantum (queue_level r)"

lemma quantum_pos: "0 < get_quantum l"
  by (simp add: get_quantum_def QUANTUM_L0_def QUANTUM_L1_def QUANTUM_L2_def QUANTUM_L3_def)

lemma charged_ok: "quantum_ok r \<Longrightarrow> quantum_ok (charged r)"
  using quantum_pos by (auto simp: quantum_ok_def charged_def expired_def level_ok_def MLFQ_LEVELS_def)

definition count_demotion :: "int \<Rightarrow> mlfq_stats \<Rightarrow> mlfq_stats" where
  "count_demotion l st = (if l < int MLFQ_LEVELS - 1 then st\<lparr>total_demotions := total_demotions st + 1\<rparr> else st)"

lemma clock_quantum_stay:
  assumes "\<not> expired (procs s p)"
  shows "clock_quantum p s = Ok () (upd_proc p charged s)"
proof -
  have "upd_proc p charged s = upd_proc p (\<lambda>r. r\<lparr>time_in_queue := time_in_queue r + 1\<rparr>) s"
    using assms by (simp add: upd_proc_def charged_def)
  then show ?thesis using assms by (simp add: clock_quantum_def expired_def)
qed

lemma clock_quantum_expire:
  assumes ex: "expired (procs s p)" and lv: "level_ok (queue_level (procs s p))"
    and c: "c_proc (this_cpu s) = Some p" and n: "noff (this_cpu s) = 0"
    and free: "lock_free (ProcLock p) s" "lock_free StatsLock s"
  shows "clock_quantum p s = Switch (upd_proc p (\<lambda>r. (charged r)\<lparr>state := RUNNABLE\<rparr>)
    (acq (ProcLock p) (settle (upd_stats (count_demotion (queue_level (procs s p))) s))))"
proof -
  let ?l = "queue_level (procs s p)"
  let ?t = "upd_stats (count_demotion ?l) (upd_proc p charged s)"
  let ?a = "\<lambda>r. r\<lparr>time_in_queue := 0\<rparr>" and ?b = "\<lambda>r. r\<lparr>queue_level := queue_level r + 1\<rparr>"
  have y: "yield (settle ?t) = Switch (upd_proc p (\<lambda>r. r\<lparr>state := RUNNABLE\<rparr>) (acq (ProcLock p) (settle (settle ?t))))"
    "yield ?t = Switch (upd_proc p (\<lambda>r. r\<lparr>state := RUNNABLE\<rparr>) (acq (ProcLock p) (settle ?t)))"
    by (rule yield_eq; use c n free in simp)+
  have wf: "irq_wf s" using n by (simp add: irq_wf_def)
  have same: "r\<lparr>time_in_queue := 0, queue_level := k\<rparr> = r\<lparr>time_in_queue := 0\<rparr>" if "queue_level r = k" for r :: proc and k
    using that by (cases r) simp
  have ch: "upd_proc p charged s = upd_proc p (\<lambda>r. if ?l < int MLFQ_LEVELS - 1 then ?b (?a r) else ?a r) s"
    using ex lv by (auto simp: upd_proc_def charged_def level_ok_def min_def same)
  show ?thesis
  proof (cases "?l < int MLFQ_LEVELS - 1")
    case True
    then have "?t = upd_stats (\<lambda>st. st\<lparr>total_demotions := total_demotions st + 1\<rparr>) (upd_proc p (\<lambda>r. ?b (?a r)) s)"
      unfolding ch by (simp add: count_demotion_def [abs_def])
    then have "clock_quantum p s = Switch (upd_proc p (\<lambda>r. r\<lparr>state := RUNNABLE\<rparr>) (acq (ProcLock p) (settle ?t)))"
      using y(1) True ex wf free by (simp add: clock_quantum_def expired_def kcomm)
    then show ?thesis by (simp add: kcomm)
  next
    case False
    then have "?t = upd_proc p ?a s"
      unfolding ch by (simp add: count_demotion_def [abs_def] upd_stats_def)
    then have "clock_quantum p s = Switch (upd_proc p (\<lambda>r. r\<lparr>state := RUNNABLE\<rparr>) (acq (ProcLock p) (settle ?t)))"
      using y(2) False ex wf free by (simp add: clock_quantum_def expired_def kcomm)
    then show ?thesis by (simp add: kcomm)
  qed
qed

text \<open>
  C21. The part of \<^verbatim>\<open>clockintr\<close> that accounts for the quantum: a tick inside the quantum only counts; the tick
  that uses it up resets the count, moves the process one level down (the lowest level keeps it), counts a
  demotion when there was one, and gives up the CPU with the process RUNNABLE and only its lock held.
  The level stays in range and the count below the quantum of the level.
\<close>

theorem clock_quantum_demotes:
  assumes "quantum_ok (procs s p)" and "c_proc (this_cpu s) = Some p" and "noff (this_cpu s) = 0"
    and "lock_free (ProcLock p) s" and "lock_free StatsLock s"
  shows "clock_quantum p s = (if expired (procs s p)
      then Switch (upd_proc p (\<lambda>r. (charged r)\<lparr>state := RUNNABLE\<rparr>)
        (acq (ProcLock p) (settle (upd_stats (count_demotion (queue_level (procs s p))) s))))
      else Ok () (upd_proc p charged s)) \<and> quantum_ok (charged (procs s p))"
  using assms charged_ok [OF assms(1)] by (auto simp: clock_quantum_stay clock_quantum_expire quantum_ok_def)

text \<open>Process 2 runs on level 1 with one tick of its quantum left.\<close>

definition last_tick :: kern where
  "last_tick = zero_sched\<lparr>cpus := (\<lambda>_. \<lparr>c_proc = Some 2, noff = 0, intena = False, sie = False\<rparr>),
     procs := (\<lambda>_. zero_proc)(2 := zero_proc\<lparr>state := RUNNING, queue_level := 1, time_in_queue := QUANTUM_L1 - 1\<rparr>)\<rparr>"

theorem clock_quantum_demotes_witness:
  "clock_quantum 2 last_tick = Switch (upd_proc 2 (\<lambda>r. (charged r)\<lparr>state := RUNNABLE\<rparr>)
      (acq (ProcLock 2) (settle (upd_stats (count_demotion 1) last_tick)))) \<and>
    charged (procs last_tick 2) = zero_proc\<lparr>state := RUNNING, queue_level := 2\<rparr>"
proof -
  have p: "procs last_tick 2 = zero_proc\<lparr>state := RUNNING, queue_level := 1, time_in_queue := QUANTUM_L1 - 1\<rparr>"
    by (simp add: last_tick_def)
  have "quantum_ok (procs last_tick 2)" "expired (procs last_tick 2)"
    by (simp_all add: p quantum_ok_def expired_def level_ok_def MLFQ_LEVELS_def get_quantum_def QUANTUM_L1_def zero_proc_def)
  moreover have "charged (procs last_tick 2) = zero_proc\<lparr>state := RUNNING, queue_level := 2\<rparr>"
    using \<open>expired _\<close> by (simp add: charged_def p MLFQ_LEVELS_def zero_proc_def)
  ultimately show ?thesis using clock_quantum_demotes [of last_tick 2]
    by (simp add: last_tick_def zero_sched_def lock_free_def p)
qed

end
