(* ===== verification/Syscall.thy ===== *)
theory Syscall
  imports Exec Mlfq
begin

text \<open>
  System calls (kernel/syscall.c, kernel/sysproc.c, kernel/sysfile.c).

  Arguments are taken from the trapframe of the current process. A string argument is the byte list
  before its NUL. Structures that are copied to the user are byte lists; where the code leaves bytes of
  a stack variable uninitialised they are taken from the parameter \<open>junk\<close>.
\<close>

section \<open>Arguments (kernel/syscall.c)\<close>

definition MAXPATH :: uint64 where "MAXPATH = 128"

definition fetchaddr :: "uint64 \<Rightarrow> ('z phys_scheme, uint64 option) km" where
  "fetchaddr addr = with_proc (\<lambda>p. bind (gets (\<lambda>s. procs s p)) (\<lambda>r.
     if addr \<ge> sz r \<or> addr + 8 > sz r then return None
     else bind (copyin (pagetable r) addr 8) (\<lambda>(c, bs). return (if c \<noteq> 0 then None else Some (le_word bs)))))"

text \<open>The return value of \<^verbatim>\<open>fetchstr\<close> and the bytes it leaves in the buffer.\<close>

definition fetchstr :: "uint64 \<Rightarrow> uint64 \<Rightarrow> ('z phys_scheme, int \<times> uchar list) km" where
  "fetchstr addr mx = with_proc (\<lambda>p. bind (gets (\<lambda>s. pagetable (procs s p))) (\<lambda>pt.
     bind (copyinstr pt addr mx) (\<lambda>(c, bs). return (if c < 0 then (-1, bs) else (int (length (cstr bs)), bs)))))"

definition argraw :: "nat \<Rightarrow> ('z phys_scheme, uint64) km" where
  "argraw n = with_proc (\<lambda>p. if n \<le> 5 then get_tf p (tf_a0 + 8 * of_nat n) else panic ''argraw'')"

definition argint :: "nat \<Rightarrow> ('z phys_scheme, int) km" where
  "argint n = bind (argraw n) (\<lambda>v. return (sint (ucast v :: 32 word)))"

definition argaddr :: "nat \<Rightarrow> ('z phys_scheme, uint64) km" where
  "argaddr n = argraw n"

text \<open>\<open>Some\<close> of the string, or \<open>None\<close> where the code returns -1.\<close>

definition argstr :: "nat \<Rightarrow> uint64 \<Rightarrow> ('z phys_scheme, uchar list option) km" where
  "argstr n mx = bind (argaddr n) (\<lambda>addr. bind (fetchstr addr mx) (\<lambda>(r, bs).
     return (if r < 0 then None else Some (cstr bs))))"

abbreviation ret_m1 :: "('s, uint64) km" where "ret_m1 \<equiv> return (-1)"

section \<open>Process system calls (kernel/sysproc.c)\<close>

definition SBRK_EAGER :: int where "SBRK_EAGER = 1"

definition sys_exit :: "('z filek_scheme, uint64) km" where
  "sys_exit = bind (argint 0) kexit"

definition sys_getpid :: "('z kern_scheme, uint64) km" where
  "sys_getpid = with_proc (\<lambda>p. gets (\<lambda>s. word_of_int (pid (procs s p))))"

definition sys_fork :: "('z prk_scheme, uint64) km" where
  "sys_fork = bind kfork (\<lambda>r. return (word_of_int r))"

definition sys_wait :: "('z phys_scheme, uint64) km" where
  "sys_wait = bind (argaddr 0) (\<lambda>a. bind (kwait a) (\<lambda>r. return (word_of_int r)))"

definition sys_sbrk :: "('z phys_scheme, uint64) km" where
  "sys_sbrk = bind (argint 0) (\<lambda>n. bind (argint 1) (\<lambda>t.
     with_proc (\<lambda>p. bind (gets (\<lambda>s. sz (procs s p))) (\<lambda>addr.
       if t = SBRK_EAGER \<or> n < 0 then bind (growproc n) (\<lambda>r. return (if r < 0 then -1 else addr))
       else if addr + word_of_int n < addr then ret_m1
       else if addr + word_of_int n > TRAPFRAME then ret_m1
       else with_proc (\<lambda>p. bind (set_proc p (\<lambda>r. r\<lparr>sz := sz r + word_of_int n\<rparr>)) (\<lambda>_. return addr))))))"

definition sys_pause_tail :: "int \<Rightarrow> uint \<Rightarrow> ('z kern_scheme, uint64) km" where
  "sys_pause_tail n ticks0 = ifm (\<lambda>s. ticks s - ticks0 < word_of_int n)
     (bind (with_proc killed) (\<lambda>k. if k then bind (release TicksLock) (\<lambda>_. ret_m1)
        else wait_on ChanTicks TicksLock))
     (bind (release TicksLock) (\<lambda>_. return 0))"

definition sys_pause :: "('z phys_scheme, uint64) km" where
  "sys_pause = bind (argint 0) (\<lambda>n0. let n = (if n0 < 0 then 0 else n0) in
     bind (acquire TicksLock) (\<lambda>_. bind (gets ticks) (\<lambda>ticks0. sys_pause_tail n ticks0)))"

definition sys_kill :: "('z phys_scheme, uint64) km" where
  "sys_kill = bind (argint 0) (\<lambda>pd. bind (kkill pd) (\<lambda>r. return (word_of_int r)))"

definition sys_uptime :: "('z kern_scheme, uint64) km" where
  "sys_uptime = bind (acquire TicksLock) (\<lambda>_. bind (gets ticks) (\<lambda>x.
     bind (release TicksLock) (\<lambda>_. return (ucast x))))"

primrec state_num :: "procstate \<Rightarrow> uint" where
  "state_num UNUSED = 0" | "state_num USED = 1" | "state_num SLEEPING = 2" | "state_num RUNNABLE = 3"
| "state_num RUNNING = 4" | "state_num ZOMBIE = 5"

definition procinfo_bytes :: "uchar list \<Rightarrow> proc \<Rightarrow> uchar list" where
  "procinfo_bytes junk r = le_bytes 4 (word_of_int (pid r) :: uint) @ le_bytes 4 (state_num (state r)) @
     le_bytes 4 (word_of_int (queue_level r) :: uint) @ le_bytes 4 (word_of_int (time_in_queue r) :: uint) @
     le_bytes 8 (time_slices r) @ set_name (name r) (take 16 junk)"

definition sys_getprocinfo :: "uchar list \<Rightarrow> ('z phys_scheme, uint64) km" where
  "sys_getprocinfo junk = with_proc (\<lambda>p. bind (argaddr 0) (\<lambda>addr. bind (gets (\<lambda>s. procs s p)) (\<lambda>r.
     bind (copyout (pagetable r) addr (procinfo_bytes junk r)) (\<lambda>c. return (if c < 0 then -1 else 0)))))"

definition sys_boostproc :: "('z phys_scheme, uint64) km" where
  "sys_boostproc = bind (argint 0) (\<lambda>pd. bind (boostproc pd) (\<lambda>r. return (word_of_int r)))"

definition stats_bytes :: "mlfq_stats \<Rightarrow> uchar list" where
  "stats_bytes st = concat (map (le_bytes 8) ([total_schedules st, total_boosts st, total_demotions st] @
     map (level_queue_count st) [0..<MLFQ_LEVELS] @ map (level_schedules st) [0..<MLFQ_LEVELS]))"

definition sys_getschedulerstats :: "('z phys_scheme, uint64) km" where
  "sys_getschedulerstats = bind (argaddr 0) (\<lambda>a. bind (acquire StatsLock) (\<lambda>_.
     bind (gets scheduler_stats) (\<lambda>st. bind (release StatsLock) (\<lambda>_.
     with_proc (\<lambda>p. bind (bind (gets (\<lambda>s. pagetable (procs s p))) (\<lambda>pt. copyout pt a (stats_bytes st))) (\<lambda>c.
       return (if c < 0 then -1 else 0)))))))"

section \<open>File system calls (kernel/sysfile.c)\<close>

definition O_RDONLY :: int where "O_RDONLY = 0"
definition O_WRONLY :: int where "O_WRONLY = 1"
definition O_RDWR :: int where "O_RDWR = 2"
definition O_CREATE :: int where "O_CREATE = 0x200"
definition O_TRUNC :: int where "O_TRUNC = 0x400"

definition argfd :: "nat \<Rightarrow> ('z phys_scheme, (int \<times> nat) option) km" where
  "argfd n = bind (argint n) (\<lambda>fd. if fd < 0 \<or> fd \<ge> int NOFILE then return None
     else with_proc (\<lambda>p. bind (gets (\<lambda>s. ofile (procs s p) (nat fd))) (\<lambda>fo. case fo of
         None \<Rightarrow> return None | Some f \<Rightarrow> return (Some (fd, f)))))"

definition fdalloc :: "nat \<Rightarrow> ('z kern_scheme, int) km" where
  "fdalloc f = with_proc (\<lambda>p. bind (gets (\<lambda>s. List.find (\<lambda>fd. ofile (procs s p) fd = None) [0..<NOFILE])) (\<lambda>r. case r of
       Some fd \<Rightarrow> bind (set_proc p (\<lambda>r. r\<lparr>ofile := (ofile r)(fd := Some f)\<rparr>)) (\<lambda>_. return (int fd))
     | None \<Rightarrow> return (-1)))"

definition sys_dup :: "('z filek_scheme, uint64) km" where
  "sys_dup = bind (argfd 0) (\<lambda>r. case r of None \<Rightarrow> ret_m1 | Some (_, f) \<Rightarrow>
     bind (fdalloc f) (\<lambda>fd. if fd < 0 then ret_m1 else bind (filedup f) (\<lambda>_. return (word_of_int fd))))"

definition sys_read :: "('z filek_scheme, uint64) km" where
  "sys_read = bind (argaddr 1) (\<lambda>p. bind (argint 2) (\<lambda>n. bind (argfd 0) (\<lambda>r. case r of
       None \<Rightarrow> ret_m1 | Some (_, f) \<Rightarrow> bind (fileread f p n) (\<lambda>v. return (word_of_int v)))))"

definition sys_write :: "('z filek_scheme, uint64) km" where
  "sys_write = bind (argaddr 1) (\<lambda>p. bind (argint 2) (\<lambda>n. bind (argfd 0) (\<lambda>r. case r of
       None \<Rightarrow> ret_m1 | Some (_, f) \<Rightarrow> bind (filewrite f p n) (\<lambda>v. return (word_of_int v)))))"

definition sys_close :: "('z filek_scheme, uint64) km" where
  "sys_close = bind (argfd 0) (\<lambda>r. case r of None \<Rightarrow> ret_m1 | Some (fd, f) \<Rightarrow>
     bind (with_proc (\<lambda>p. set_proc p (\<lambda>r. r\<lparr>ofile := (ofile r)(nat fd := None)\<rparr>))) (\<lambda>_.
     bind (fileclose f) (\<lambda>_. return 0)))"

definition sys_fstat :: "uchar list \<Rightarrow> ('z filek_scheme, uint64) km" where
  "sys_fstat junk = bind (argaddr 1) (\<lambda>st. bind (argfd 0) (\<lambda>r. case r of
       None \<Rightarrow> ret_m1 | Some (_, f) \<Rightarrow> bind (filestat (take 4 junk) f st) (\<lambda>v. return (word_of_int v))))"

definition add_nlink :: "nat \<Rightarrow> ushort \<Rightarrow> ('z fsk_scheme, unit) km" where
  "add_nlink ip d = set_inode ip (\<lambda>i. i\<lparr>i_nlink := i_nlink i + d\<rparr>)"

definition sys_link_bad :: "nat \<Rightarrow> ('z fsk_scheme, uint64) km" where
  "sys_link_bad ip = bind (block [ilock (Some ip), add_nlink ip (-1), iupdate ip, iunlockput ip, end_op]) (\<lambda>_. ret_m1)"

definition sys_link :: "('z fsk_scheme, uint64) km" where
  "sys_link = bind (argstr 0 MAXPATH) (\<lambda>o1. case o1 of None \<Rightarrow> ret_m1 | Some old \<Rightarrow>
     bind (argstr 1 MAXPATH) (\<lambda>o2. case o2 of None \<Rightarrow> ret_m1 | Some new \<Rightarrow>
     bind begin_op (\<lambda>_. bind (namei old) (\<lambda>ipo. case ipo of None \<Rightarrow> bind end_op (\<lambda>_. ret_m1) | Some ip \<Rightarrow>
     bind (ilock (Some ip)) (\<lambda>_.
     ifm (\<lambda>s. i_type (inodes s ip) = T_DIR)
       (bind (block [iunlockput ip, end_op]) (\<lambda>_. ret_m1))
       (bind (block [add_nlink ip 1, iupdate ip, iunlock (Some ip)]) (\<lambda>_.
        bind (nameiparent new) (\<lambda>r. case r of None \<Rightarrow> sys_link_bad ip | Some (dp, nm) \<Rightarrow>
        bind (ilock (Some dp)) (\<lambda>_.
        bind (ifm (\<lambda>s. i_dev (inodes s dp) \<noteq> i_dev (inodes s ip)) (return (-1))
          (bind (gets (\<lambda>s. i_inum (inodes s ip))) (dirlink dp nm))) (\<lambda>c.
        if c < 0 then bind (iunlockput dp) (\<lambda>_. sys_link_bad ip)
        else bind (block [iunlockput dp, iput ip, end_op]) (\<lambda>_. return 0)))))))))))"

primrec isdirempty_loop :: "nat \<Rightarrow> uint list \<Rightarrow> ('z fsk_scheme, bool) km" where
  "isdirempty_loop dp [] = return True"
| "isdirempty_loop dp (off # offs) = bind (readi dp DstLocal off 16) (\<lambda>(r, de).
     if r \<noteq> 16 then panic ''isdirempty: readi''
     else if de_inum de \<noteq> 0 then return False else isdirempty_loop dp offs)"

definition isdirempty :: "nat \<Rightarrow> ('z fsk_scheme, bool) km" where
  "isdirempty dp = bind (gets (\<lambda>s. drop 2 (dirent_offs (i_size (inodes s dp))))) (isdirempty_loop dp)"

definition sys_unlink_bad :: "nat \<Rightarrow> ('z fsk_scheme, uint64) km" where
  "sys_unlink_bad dp = bind (block [iunlockput dp, end_op]) (\<lambda>_. ret_m1)"

definition sys_unlink :: "('z fsk_scheme, uint64) km" where
  "sys_unlink = bind (argstr 0 MAXPATH) (\<lambda>o1. case o1 of None \<Rightarrow> ret_m1 | Some path \<Rightarrow>
     bind begin_op (\<lambda>_. bind (nameiparent path) (\<lambda>r. case r of None \<Rightarrow> bind end_op (\<lambda>_. ret_m1) | Some (dp, nm) \<Rightarrow>
     bind (ilock (Some dp)) (\<lambda>_.
     if namecmp nm (chars ''.'') = 0 \<or> namecmp nm (chars ''..'') = 0 then sys_unlink_bad dp
     else bind (dirlookup dp nm) (\<lambda>r. case r of None \<Rightarrow> sys_unlink_bad dp | Some (ip, off) \<Rightarrow>
     bind (ilock (Some ip)) (\<lambda>_.
     bind (panic_if (\<lambda>s. sint (i_nlink (inodes s ip)) < 1) ''unlink: nlink < 1'') (\<lambda>_.
     bind (ifm (\<lambda>s. i_type (inodes s ip) = T_DIR) (isdirempty ip) (return True)) (\<lambda>ok.
     if \<not> ok then bind (iunlockput ip) (\<lambda>_. sys_unlink_bad dp)
     else bind (writei dp (SrcLocal (replicate 16 0)) off 16) (\<lambda>w.
     if w \<noteq> 16 then panic ''unlink: writei''
     else bind (block [
       ifm (\<lambda>s. i_type (inodes s ip) = T_DIR) (block [add_nlink dp (-1), iupdate dp]) skip,
       iunlockput dp,
       add_nlink ip (-1),
       iupdate ip,
       iunlockput ip,
       end_op]) (\<lambda>_. return 0))))))))))"

definition create_fail :: "nat \<Rightarrow> nat \<Rightarrow> ('z fsk_scheme, nat option) km" where
  "create_fail ip dp = bind (block [
     set_inode ip (\<lambda>i. i\<lparr>i_nlink := 0\<rparr>), iupdate ip, iunlockput ip, iunlockput dp]) (\<lambda>_. return None)"

text \<open>The two entries of a new directory; the second call is made only if the first succeeds.\<close>

definition create_dots :: "nat \<Rightarrow> nat \<Rightarrow> ('z fsk_scheme, int) km" where
  "create_dots ip dp = bind (bind (gets (\<lambda>s. i_inum (inodes s ip))) (dirlink ip (chars ''.''))) (\<lambda>c.
     if c < 0 then return c else bind (gets (\<lambda>s. i_inum (inodes s dp))) (dirlink ip (chars ''..'')))"

definition create :: "uchar list \<Rightarrow> ushort \<Rightarrow> ushort \<Rightarrow> ushort \<Rightarrow> ('z fsk_scheme, nat option) km" where
  "create path type maj minr = bind (nameiparent path) (\<lambda>r. case r of None \<Rightarrow> return None | Some (dp, nm) \<Rightarrow>
     bind (ilock (Some dp)) (\<lambda>_.
     bind (dirlookup dp nm) (\<lambda>r. case r of
       Some (ip, _) \<Rightarrow> bind (block [iunlockput dp, ilock (Some ip)]) (\<lambda>_.
         ifm (\<lambda>s. type = T_FILE \<and> (i_type (inodes s ip) = T_FILE \<or> i_type (inodes s ip) = T_DEVICE))
           (return (Some ip))
           (bind (iunlockput ip) (\<lambda>_. return None)))
     | None \<Rightarrow> bind (bind (gets (\<lambda>s. i_dev (inodes s dp))) (\<lambda>dev. ialloc dev type)) (\<lambda>ipo. case ipo of
         None \<Rightarrow> bind (iunlockput dp) (\<lambda>_. return None)
       | Some ip \<Rightarrow> bind (block [
           ilock (Some ip),
           set_inode ip (\<lambda>i. i\<lparr>i_major := maj\<rparr>),
           set_inode ip (\<lambda>i. i\<lparr>i_minor := minr\<rparr>),
           set_inode ip (\<lambda>i. i\<lparr>i_nlink := 1\<rparr>),
           iupdate ip]) (\<lambda>_.
         bind (if type = T_DIR then create_dots ip dp else return 0) (\<lambda>c.
         if c < 0 then create_fail ip dp
         else bind (bind (gets (\<lambda>s. i_inum (inodes s ip))) (dirlink dp nm)) (\<lambda>c.
         if c < 0 then create_fail ip dp
         else bind (block [
           (if type = T_DIR then block [add_nlink dp 1, iupdate dp] else skip),
           iunlockput dp]) (\<lambda>_. return (Some ip)))))))))"

definition flag_set :: "int \<Rightarrow> int \<Rightarrow> bool" where "flag_set omode fl \<longleftrightarrow> omode AND fl \<noteq> 0"

definition close_ip :: "nat \<Rightarrow> ('z fsk_scheme, uint64) km" where
  "close_ip ip = bind (block [iunlockput ip, end_op]) (\<lambda>_. ret_m1)"

text \<open>The first half of \<^verbatim>\<open>sys_open\<close>: the locked inode, or \<open>None\<close> after the error return.\<close>

definition sys_open_ip :: "uchar list \<Rightarrow> int \<Rightarrow> ('z fsk_scheme, nat option) km" where
  "sys_open_ip path omode =
     (if flag_set omode O_CREATE then bind (create path T_FILE 0 0) (\<lambda>ipo. case ipo of
          None \<Rightarrow> bind end_op (\<lambda>_. return None) | Some ip \<Rightarrow> return (Some ip))
      else bind (namei path) (\<lambda>ipo. case ipo of
          None \<Rightarrow> bind end_op (\<lambda>_. return None)
        | Some ip \<Rightarrow> bind (ilock (Some ip)) (\<lambda>_.
            ifm (\<lambda>s. i_type (inodes s ip) = T_DIR \<and> omode \<noteq> O_RDONLY)
              (bind (close_ip ip) (\<lambda>_. return None))
              (return (Some ip)))))"

definition sys_open_file :: "nat \<Rightarrow> nat \<Rightarrow> int \<Rightarrow> ('z filek_scheme, unit) km" where
  "sys_open_file f ip omode = block [
     ifm (\<lambda>s. i_type (inodes s ip) = T_DEVICE)
       (bind (gets (\<lambda>s. i_major (inodes s ip))) (\<lambda>m. set_file f (\<lambda>d. d\<lparr>f_type := FD_DEVICE, f_major := m\<rparr>)))
       (set_file f (\<lambda>d. d\<lparr>f_type := FD_INODE, f_off := 0\<rparr>)),
     set_file f (\<lambda>d. d\<lparr>f_ip := Some ip\<rparr>),
     set_file f (\<lambda>d. d\<lparr>f_readable := \<not> flag_set omode O_WRONLY\<rparr>),
     set_file f (\<lambda>d. d\<lparr>f_writable := flag_set omode O_WRONLY \<or> flag_set omode O_RDWR\<rparr>),
     ifm (\<lambda>s. flag_set omode O_TRUNC \<and> i_type (inodes s ip) = T_FILE) (itrunc ip) skip,
     iunlock (Some ip),
     end_op]"

definition sys_open :: "('z filek_scheme, uint64) km" where
  "sys_open = bind (argint 1) (\<lambda>omode. bind (argstr 0 MAXPATH) (\<lambda>o1. case o1 of None \<Rightarrow> ret_m1 | Some path \<Rightarrow>
     bind begin_op (\<lambda>_. bind (sys_open_ip path omode) (\<lambda>ipo. case ipo of None \<Rightarrow> ret_m1 | Some ip \<Rightarrow>
     ifm (\<lambda>s. i_type (inodes s ip) = T_DEVICE \<and> (sint (i_major (inodes s ip)) < 0 \<or> sint (i_major (inodes s ip)) \<ge> int NDEV))
       (close_ip ip)
       (bind filealloc (\<lambda>fo. case fo of None \<Rightarrow> close_ip ip | Some f \<Rightarrow>
        bind (fdalloc f) (\<lambda>fd. if fd < 0 then bind (fileclose f) (\<lambda>_. close_ip ip)
        else bind (sys_open_file f ip omode) (\<lambda>_. return (word_of_int fd)))))))))"

definition sys_mkdir :: "('z fsk_scheme, uint64) km" where
  "sys_mkdir = bind begin_op (\<lambda>_.
     bind (bind (argstr 0 MAXPATH) (\<lambda>o1. case o1 of None \<Rightarrow> return None | Some path \<Rightarrow> create path T_DIR 0 0)) (\<lambda>ipo.
     case ipo of None \<Rightarrow> bind end_op (\<lambda>_. ret_m1)
     | Some ip \<Rightarrow> bind (block [iunlockput ip, end_op]) (\<lambda>_. return 0)))"

definition sys_mknod :: "('z fsk_scheme, uint64) km" where
  "sys_mknod = bind begin_op (\<lambda>_. bind (argint 1) (\<lambda>maj. bind (argint 2) (\<lambda>minr.
     bind (bind (argstr 0 MAXPATH) (\<lambda>o1. case o1 of None \<Rightarrow> return None
       | Some path \<Rightarrow> create path T_DEVICE (word_of_int maj) (word_of_int minr))) (\<lambda>ipo.
     case ipo of None \<Rightarrow> bind end_op (\<lambda>_. ret_m1)
     | Some ip \<Rightarrow> bind (block [iunlockput ip, end_op]) (\<lambda>_. return 0)))))"

definition sys_chdir :: "('z fsk_scheme, uint64) km" where
  "sys_chdir = with_proc (\<lambda>p. bind begin_op (\<lambda>_.
     bind (bind (argstr 0 MAXPATH) (\<lambda>o1. case o1 of None \<Rightarrow> return None | Some path \<Rightarrow> namei path)) (\<lambda>ipo.
     case ipo of None \<Rightarrow> bind end_op (\<lambda>_. ret_m1)
     | Some ip \<Rightarrow> bind (ilock (Some ip)) (\<lambda>_.
         ifm (\<lambda>s. i_type (inodes s ip) \<noteq> T_DIR)
           (bind (block [iunlockput ip, end_op]) (\<lambda>_. ret_m1))
           (bind (block [
              iunlock (Some ip),
              bind (gets (\<lambda>s. cwd (procs s p))) (\<lambda>c. deref c iput),
              end_op,
              set_proc p (\<lambda>r. r\<lparr>cwd := Some ip\<rparr>)]) (\<lambda>_. return 0))))))"

text \<open>
  The loop of \<^verbatim>\<open>sys_exec\<close> that fetches the arguments, each into a page of its own: the pages allocated and
  the strings, and whether the loop ended without a jump to \<^verbatim>\<open>bad\<close>.
\<close>

primrec exec_args :: "nat \<Rightarrow> uint64 \<Rightarrow> (uint64 \<times> uchar list) list \<Rightarrow> ('z phys_scheme, (uint64 \<times> uchar list) list \<times> bool) km" where
  "exec_args 0 uargv got = return (got, False)"
| "exec_args (Suc k) uargv got = bind (fetchaddr (uargv + 8 * of_nat (length got))) (\<lambda>a. case a of
       None \<Rightarrow> return (got, False)
     | Some uarg \<Rightarrow> if uarg = 0 then return (got, True)
       else bind kalloc (\<lambda>pg. if pg = 0 then return (got, False)
         else bind (fetchstr uarg PGSIZE) (\<lambda>(r, bs).
           bind (modify (upd_mem (\<lambda>m. blit m pg bs))) (\<lambda>_.
             if r < 0 then return (got @ [(pg, [])], False)
             else exec_args k uargv (got @ [(pg, cstr bs)])))))"

definition sys_exec :: "('z fsk_scheme, uint64) km" where
  "sys_exec = bind (argaddr 1) (\<lambda>uargv. bind (argstr 0 MAXPATH) (\<lambda>o1. case o1 of None \<Rightarrow> ret_m1 | Some path \<Rightarrow>
     bind (exec_args MAXARG uargv []) (\<lambda>(got, ok).
       if ok then bind (kexec path (map snd got)) (\<lambda>ret.
         bind (for_each (map fst got) kfree) (\<lambda>_. return (word_of_int ret)))
       else bind (for_each (map fst got) kfree) (\<lambda>_. ret_m1))))"

definition sys_pipe_fail :: "nat \<Rightarrow> nat \<Rightarrow> ('z filek_scheme, uint64) km" where
  "sys_pipe_fail rfile wfile = bind (block [fileclose rfile, fileclose wfile]) (\<lambda>_. ret_m1)"

definition clear_fd :: "nat \<Rightarrow> int \<Rightarrow> ('z kern_scheme, unit) km" where
  "clear_fd p fd = set_proc p (\<lambda>r. r\<lparr>ofile := (ofile r)(nat fd := None)\<rparr>)"

definition int_bytes :: "int \<Rightarrow> uchar list" where "int_bytes n = le_bytes 4 (word_of_int n :: uint)"

definition sys_pipe :: "('z filek_scheme, uint64) km" where
  "sys_pipe = with_proc (\<lambda>p. bind (argaddr 0) (\<lambda>fdarray. bind pipealloc (\<lambda>r. case r of None \<Rightarrow> ret_m1 | Some (rfile, wfile) \<Rightarrow>
     bind (fdalloc rfile) (\<lambda>fd0. if fd0 < 0 then sys_pipe_fail rfile wfile else
     bind (fdalloc wfile) (\<lambda>fd1. if fd1 < 0 then bind (clear_fd p fd0) (\<lambda>_. sys_pipe_fail rfile wfile) else
     bind (gets (\<lambda>s. pagetable (procs s p))) (\<lambda>pt.
     bind (bind (copyout pt fdarray (int_bytes fd0)) (\<lambda>c. if c < 0 then return c
       else copyout pt (fdarray + 4) (int_bytes fd1))) (\<lambda>c.
     if c < 0 then bind (block [clear_fd p fd0, clear_fd p fd1]) (\<lambda>_. sys_pipe_fail rfile wfile)
     else return 0)))))))"

section \<open>Dispatch (kernel/syscall.c)\<close>

definition syscall_table :: "uchar list \<Rightarrow> int \<Rightarrow> ('z prk_scheme, uint64) km option" where
  "syscall_table junk num =
     (if num = 1 then Some sys_fork
      else if num = 2 then Some sys_exit
      else if num = 3 then Some sys_wait
      else if num = 4 then Some sys_pipe
      else if num = 5 then Some sys_read
      else if num = 6 then Some sys_kill
      else if num = 7 then Some sys_exec
      else if num = 8 then Some (sys_fstat junk)
      else if num = 9 then Some sys_chdir
      else if num = 10 then Some sys_dup
      else if num = 11 then Some sys_getpid
      else if num = 12 then Some sys_sbrk
      else if num = 13 then Some sys_pause
      else if num = 14 then Some sys_uptime
      else if num = 15 then Some sys_open
      else if num = 16 then Some sys_write
      else if num = 17 then Some sys_mknod
      else if num = 18 then Some sys_unlink
      else if num = 19 then Some sys_link
      else if num = 20 then Some sys_mkdir
      else if num = 21 then Some sys_close
      else if num = 22 then Some (sys_getprocinfo junk)
      else if num = 23 then Some sys_boostproc
      else if num = 24 then Some sys_getschedulerstats
      else None)"

definition syscall :: "uchar list \<Rightarrow> ('z prk_scheme, unit) km" where
  "syscall junk = with_proc (\<lambda>p. bind (get_tf p tf_a7) (\<lambda>v. let num = sint (ucast v :: 32 word) in
     case syscall_table junk num of
       Some f \<Rightarrow> bind f (\<lambda>r. set_tf p tf_a0 r)
     | None \<Rightarrow> block [
         bind (gets (\<lambda>s. procs s p)) (\<lambda>r. printf (''%d %s: unknown sys call %d'' @ [CHR 0x0A])
           [PInt (word_of_int (pid r)), PStr (cstr (name r)), PInt (word_of_int num)]),
         set_tf p tf_a0 (-1)]))"

end
