(* ===== verification/Trap.thy ===== *)
theory Trap
  imports Syscall
begin

text \<open>
  Traps from user and kernel mode, device interrupts, and the first run of a process (kernel/trap.c,
  kernel/plic.c, \<^verbatim>\<open>forkret\<close> of kernel/proc.c, the status registers of kernel/riscv.h).

  \<^verbatim>\<open>usertrap\<close> and \<^verbatim>\<open>forkret\<close> return to the code of trampoline.S: their result is the value of \<^verbatim>\<open>satp\<close> given to
  it. What they do after a \<^verbatim>\<open>yield\<close> is the definition \<open>usertrap_rest\<close>.
\<close>

section \<open>Status registers (kernel/riscv.h)\<close>

definition SSTATUS_SPP :: uint64 where "SSTATUS_SPP = push_bit 8 1"
definition SSTATUS_SPIE :: uint64 where "SSTATUS_SPIE = push_bit 5 1"
definition SSTATUS_SIE :: uint64 where "SSTATUS_SIE = push_bit 1 1"

definition r_sstatus :: "('z) prk_scheme \<Rightarrow> uint64" where
  "r_sstatus s = (sstatus s (tp s) AND NOT SSTATUS_SIE) OR (if sie (this_cpu s) then SSTATUS_SIE else 0)"

definition w_sstatus :: "uint64 \<Rightarrow> ('z prk_scheme, unit) km" where
  "w_sstatus x = block [
     modify (\<lambda>s. s\<lparr>sstatus := (sstatus s)(tp s := x)\<rparr>),
     modify (upd_cpu (\<lambda>c. c\<lparr>sie := (x AND SSTATUS_SIE \<noteq> 0)\<rparr>))]"

definition w_sepc :: "uint64 \<Rightarrow> ('z prk_scheme, unit) km" where
  "w_sepc x = modify (\<lambda>s. s\<lparr>sepc := (sepc s)(tp s := x)\<rparr>)"

definition r_sepc :: "('z) prk_scheme \<Rightarrow> uint64" where "r_sepc s = sepc s (tp s)"

definition w_stvec :: "uint64 \<Rightarrow> ('z prk_scheme, unit) km" where
  "w_stvec x = modify (\<lambda>s. s\<lparr>stvec := (stvec s)(tp s := x)\<rparr>)"

definition r_scause :: "('z) prk_scheme \<Rightarrow> uint64" where "r_scause s = scause s (tp s)"

definition r_stval :: "('z) prk_scheme \<Rightarrow> uint64" where "r_stval s = stval s (tp s)"

definition r_satp :: "('z) phys_scheme \<Rightarrow> uint64" where "r_satp s = satp s (tp s)"

section \<open>Interrupt controller (kernel/plic.c)\<close>

definition UART0_IRQ :: uint where "UART0_IRQ = 10"
definition VIRTIO0_IRQ :: uint where "VIRTIO0_IRQ = 1"
definition PLIC_SENABLE :: "nat \<Rightarrow> uint64" where "PLIC_SENABLE hart = PLIC + 0x2080 + of_nat hart * 0x100"
definition PLIC_SPRIORITY :: "nat \<Rightarrow> uint64" where "PLIC_SPRIORITY hart = PLIC + 0x201000 + of_nat hart * 0x2000"
definition PLIC_SCLAIM :: "nat \<Rightarrow> uint64" where "PLIC_SCLAIM hart = PLIC + 0x201004 + of_nat hart * 0x2000"

definition w_plic :: "uint64 \<Rightarrow> uint \<Rightarrow> ('z prk_scheme, unit) km" where
  "w_plic a v = modify (\<lambda>s. s\<lparr>plic_regs := (plic_regs s)(a := v)\<rparr>)"

definition plicinit :: "('z prk_scheme, unit) km" where
  "plicinit = block [w_plic (PLIC + ucast UART0_IRQ * 4) 1, w_plic (PLIC + ucast VIRTIO0_IRQ * 4) 1]"

definition plicinithart :: "('z prk_scheme, unit) km" where
  "plicinithart = bind (gets cpuid) (\<lambda>hart. block [
     w_plic (PLIC_SENABLE hart) (push_bit (unat UART0_IRQ) 1 OR push_bit (unat VIRTIO0_IRQ) 1),
     w_plic (PLIC_SPRIORITY hart) 0])"

definition plic_claim :: "('z prk_scheme, uint) km" where
  "plic_claim = gets (\<lambda>s. plic_regs s (PLIC_SCLAIM (cpuid s)))"

definition plic_complete :: "uint \<Rightarrow> ('z prk_scheme, unit) km" where
  "plic_complete irq = bind (gets cpuid) (\<lambda>hart. w_plic (PLIC_SCLAIM hart) irq)"

section \<open>Traps (kernel/trap.c)\<close>

definition trapinit :: "('z machine_scheme, unit) km" where
  "trapinit = initlock TicksLock ''time''"

definition trapinithart :: "('z prk_scheme, unit) km" where
  "trapinithart = bind (gets kernelvec_sym) w_stvec"

definition devintr_irq :: "uint \<Rightarrow> ('z prk_scheme, unit) km" where
  "devintr_irq irq = block [
     (if irq = UART0_IRQ then uartintr
      else if irq = VIRTIO0_IRQ then virtio_disk_intr
      else if irq \<noteq> 0 then printf (''unexpected interrupt irq=%d'' @ [CHR 0x0A]) [PInt (scast irq)]
      else skip),
     (if irq \<noteq> 0 then plic_complete irq else skip)]"

definition devintr :: "('z prk_scheme, int) km" where
  "devintr = bind (gets r_scause) (\<lambda>cause.
     if cause = 0x8000000000000009 then bind plic_claim (\<lambda>irq. bind (devintr_irq irq) (\<lambda>_. return 1))
     else if cause = 0x8000000000000005 then bind clockintr (\<lambda>_. return 2)
     else return 0)"

definition prepare_return :: "('z prk_scheme, unit) km" where
  "prepare_return = with_proc (\<lambda>p. block [
     intr_off,
     bind (gets (\<lambda>s. TRAMPOLINE + (uservec_sym s - trampoline s))) w_stvec,
     bind (gets r_satp) (set_tf p tf_kernel_satp),
     bind (gets (\<lambda>s. kstack (procs s p) + PGSIZE)) (set_tf p tf_kernel_sp),
     bind (gets usertrap_sym) (set_tf p tf_kernel_trap),
     bind (gets (\<lambda>s. of_nat (tp s))) (set_tf p tf_kernel_hartid),
     bind (gets r_sstatus) (\<lambda>x. w_sstatus ((x AND NOT SSTATUS_SPP) OR SSTATUS_SPIE)),
     bind (get_tf p tf_epc) w_sepc])"

definition usertrap_rest :: "nat \<Rightarrow> ('z prk_scheme, uint64) km" where
  "usertrap_rest p = bind prepare_return (\<lambda>_. gets (\<lambda>s. MAKE_SATP (pagetable (procs s p))))"

text \<open>The middle of \<^verbatim>\<open>usertrap\<close>: the value is \<^verbatim>\<open>which_dev\<close>.\<close>

definition usertrap_cause :: "uchar list \<Rightarrow> nat \<Rightarrow> ('z prk_scheme, int) km" where
  "usertrap_cause junk p = bind (gets r_scause) (\<lambda>cause.
     if cause = 8 then bind (killed p) (\<lambda>k. if k then kexit (-1) else bind (block [
         bind (get_tf p tf_epc) (\<lambda>pc. set_tf p tf_epc (pc + 4)),
         intr_on,
         syscall junk]) (\<lambda>_. return 0))
     else bind devintr (\<lambda>which_dev. if which_dev \<noteq> 0 then return which_dev
     else bind (ifm (\<lambda>s. r_scause s = 15 \<or> r_scause s = 13)
         (bind (gets (\<lambda>s. (pagetable (procs s p), r_stval s))) (\<lambda>(pt, va). vmfault pt va)) (return 0)) (\<lambda>pa.
       if pa \<noteq> 0 then return 0
       else bind (block [
         bind (gets (\<lambda>s. (r_scause s, pid (procs s p)))) (\<lambda>(c, pd).
           printf (''usertrap(): unexpected scause 0x%lx pid=%d'' @ [CHR 0x0A]) [PInt c, PInt (word_of_int pd)]),
         bind (gets (\<lambda>s. (r_sepc s, r_stval s))) (\<lambda>(pc, v).
           printf (''            sepc=0x%lx stval=0x%lx'' @ [CHR 0x0A]) [PInt pc, PInt v]),
         setkilled p]) (\<lambda>_. return 0))))"

definition usertrap :: "uchar list \<Rightarrow> ('z prk_scheme, uint64) km" where
  "usertrap junk = bind (block [
       panic_if (\<lambda>s. r_sstatus s AND SSTATUS_SPP \<noteq> 0) ''usertrap: not from user mode'',
       bind (gets kernelvec_sym) w_stvec]) (\<lambda>_.
     with_proc (\<lambda>p. bind (bind (gets r_sepc) (set_tf p tf_epc)) (\<lambda>_.
     bind (usertrap_cause junk p) (\<lambda>which_dev.
     bind (killed p) (\<lambda>k. if k then kexit (-1)
     else bind (if which_dev = 2 then yield else skip) (\<lambda>_. usertrap_rest p))))))"

definition kerneltrap_rest :: "uint64 \<Rightarrow> uint64 \<Rightarrow> ('z prk_scheme, unit) km" where
  "kerneltrap_rest pc st = block [w_sepc pc, w_sstatus st]"

definition kerneltrap :: "('z prk_scheme, unit) km" where
  "kerneltrap = bind (gets (\<lambda>s. (r_sepc s, r_sstatus s, r_scause s))) (\<lambda>(pc, st, cause).
     bind (block [
       panic_if (\<lambda>_. st AND SSTATUS_SPP = 0) ''kerneltrap: not from supervisor mode'',
       panic_if intr_get ''kerneltrap: interrupts enabled'']) (\<lambda>_.
     bind devintr (\<lambda>which_dev.
     bind (if which_dev = 0 then block [
         bind (gets (\<lambda>s. (r_sepc s, r_stval s))) (\<lambda>(pc, v).
           printf (''scause=0x%lx sepc=0x%lx stval=0x%lx'' @ [CHR 0x0A]) [PInt cause, PInt pc, PInt v]),
         panic ''kerneltrap'']
       else skip) (\<lambda>_.
     bind (if which_dev = 2 then bind myproc (\<lambda>po. if po \<noteq> None then yield else skip) else skip) (\<lambda>_.
     kerneltrap_rest pc st)))))"

section \<open>The first run of a process (kernel/proc.c)\<close>

definition forkret_first :: "nat \<Rightarrow> ('z prk_scheme, unit) km" where
  "forkret_first p = block [
     fsinit ROOTDEV,
     modify (\<lambda>s. s\<lparr>first := False\<rparr>),
     bind (kexec (chars ''/init'') [chars ''/init'']) (\<lambda>r. set_tf p tf_a0 (word_of_int r)),
     bind (get_tf p tf_a0) (\<lambda>v. if v = -1 then panic ''exec'' else skip)]"

definition forkret :: "('z prk_scheme, uint64 \<times> uint64) km" where
  "forkret = with_proc (\<lambda>p. bind (block [
     release (ProcLock p),
     ifm (\<lambda>s. first s) (forkret_first p) skip,
     prepare_return]) (\<lambda>_.
     gets (\<lambda>s. (TRAMPOLINE + (userret_sym s - trampoline s), MAKE_SATP (pagetable (procs s p))))))"

end
