(* ===== verification/Boot.thy ===== *)
theory Boot
  imports Trap
begin

text \<open>
  Starting the machine (kernel/start.c, kernel/main.c).

  \<^verbatim>\<open>start\<close> runs in machine mode before anything else and only sets control registers, so it has a state of
  its own. \<^verbatim>\<open>main\<close> initialises the components; the definition stops where it calls \<^verbatim>\<open>scheduler\<close>.
\<close>

section \<open>Machine mode (kernel/start.c)\<close>

record mmode =
  mhartid :: uint64
  mstatus :: uint64
  mepc :: uint64
  m_satp :: uint64
  medeleg :: uint64
  mideleg :: uint64
  m_sie :: uint64
  pmpaddr0 :: uint64
  pmpcfg0 :: uint64
  mie :: uint64
  menvcfg :: uint64
  mcounteren :: uint64
  m_stimecmp :: uint64
  m_time :: uint64
  m_tp :: uint64

definition MSTATUS_MPP_MASK :: uint64 where "MSTATUS_MPP_MASK = push_bit 11 3"
definition MSTATUS_MPP_S :: uint64 where "MSTATUS_MPP_S = push_bit 11 1"
definition SIE_SEIE :: uint64 where "SIE_SEIE = push_bit 9 1"
definition SIE_STIE :: uint64 where "SIE_STIE = push_bit 5 1"
definition MIE_STIE :: uint64 where "MIE_STIE = push_bit 5 1"

definition timerinit :: "mmode \<Rightarrow> mmode" where
  "timerinit m =
     (let m = m\<lparr>mie := mie m OR MIE_STIE\<rparr>;
          m = m\<lparr>menvcfg := menvcfg m OR push_bit 63 1\<rparr>;
          m = m\<lparr>mcounteren := mcounteren m OR 2\<rparr>
      in m\<lparr>m_stimecmp := m_time m + 1000000\<rparr>)"

text \<open>The argument is the address of \<^verbatim>\<open>main\<close>, where \<^verbatim>\<open>mret\<close> goes.\<close>

definition start :: "uint64 \<Rightarrow> mmode \<Rightarrow> mmode" where
  "start main_sym m =
     (let m = m\<lparr>mstatus := (mstatus m AND NOT MSTATUS_MPP_MASK) OR MSTATUS_MPP_S\<rparr>;
          m = m\<lparr>mepc := main_sym\<rparr>;
          m = m\<lparr>m_satp := 0\<rparr>;
          m = m\<lparr>medeleg := 0xffff\<rparr>;
          m = m\<lparr>mideleg := 0xffff\<rparr>;
          m = m\<lparr>m_sie := m_sie m OR SIE_SEIE OR SIE_STIE\<rparr>;
          m = m\<lparr>pmpaddr0 := 0x3fffffffffffff\<rparr>;
          m = m\<lparr>pmpcfg0 := 0xf\<rparr>;
          m = timerinit m
      in m\<lparr>m_tp := mhartid m\<rparr>)"

section \<open>Supervisor mode (kernel/main.c)\<close>

definition main :: "('z prk_scheme, unit) km" where
  "main = block [
     ifm (\<lambda>s. cpuid s = 0)
       (block [
          consoleinit,
          printfinit,
          printf [CHR 0x0A] [],
          printf (''xv6 kernel is booting'' @ [CHR 0x0A]) [],
          printf [CHR 0x0A] [],
          kinit,
          kvminit,
          kvminithart,
          procinit,
          trapinit,
          trapinithart,
          plicinit,
          plicinithart,
          binit,
          iinit,
          fileinit,
          virtio_disk_init,
          userinit,
          modify (\<lambda>s. s\<lparr>started := True\<rparr>)])
       (block [
          ifm (\<lambda>s. \<not> started s) (spin ''started'') skip,
          bind (gets cpuid) (\<lambda>c. printf (''hart %d starting'' @ [CHR 0x0A]) [PInt (of_nat c)]),
          kvminithart,
          trapinithart,
          plicinithart])]"

end
