(* ===== verification/Levels.thy ===== *)
theory Levels
  imports Mlfq Proc
begin

text \<open>
  The invariant of the run queues and its preservation by the kernel code that touches them while a CPU is out of the
  scheduler: \<^verbatim>\<open>wakeup\<close>, \<^verbatim>\<open>kkill\<close>, \<^verbatim>\<open>boostproc\<close>, the timer interrupt and the parts of \<^verbatim>\<open>kfork\<close>, \<^verbatim>\<open>kexit\<close> and \<^verbatim>\<open>kwait\<close> that
  move a process between its states.
\<close>

section \<open>The invariant of the queues\<close>

text \<open>
  \<open>A\<close> are the processes in the hands of a CPU: RUNNING or just switching back. Every queued process is RUNNABLE and in one
  place; \<open>exact\<close> says that it is in the queue of its level, and without \<open>exact\<close> it may also be one whose level
  \<^verbatim>\<open>boostproc\<close> has set to 0. Every RUNNABLE process is queued, or it is marked as killed: \<^verbatim>\<open>kkill\<close> makes a sleeper
  RUNNABLE without queueing it.
\<close>

definition mlfq_inv :: "bool \<Rightarrow> nat set \<Rightarrow> (nat \<Rightarrow> nat list) \<Rightarrow> ('z) kern_scheme \<Rightarrow> bool" where
  "mlfq_inv exact A qs s \<longleftrightarrow> rqs_rep s qs \<and>
     (\<forall>l < MLFQ_LEVELS. \<forall>p \<in> set (qs l). p < NPROC \<and> p \<notin> A \<and> state (procs s p) = RUNNABLE \<and>
        (queue_level (procs s p) = int l \<or> \<not> exact \<and> queue_level (procs s p) = 0)) \<and>
     (\<forall>p < NPROC. p \<notin> A \<longrightarrow> state (procs s p) = RUNNABLE \<longrightarrow> p \<in> queued qs \<or> p_killed (procs s p)) \<and>
     (\<forall>p < NPROC. level_ok (queue_level (procs s p)))"

definition idle_cpu :: "('z) kern_scheme \<Rightarrow> bool" where
  "idle_cpu s \<longleftrightarrow> noff (this_cpu s) = 0 \<and> (\<forall>l. lock_free l s)"

text \<open>The CPU runs kernel code with no lock held, for the process of \<open>A\<close> or, when \<open>A\<close> is empty, for none.\<close>

definition live :: "nat set \<Rightarrow> ('z) kern_scheme \<Rightarrow> bool" where
  "live A s \<longleftrightarrow> A = set_option (c_proc (this_cpu s)) \<and> A \<subseteq> {..<NPROC} \<and> idle_cpu s \<and> (\<forall>p \<in> A. state (procs s p) = RUNNING)"

text \<open>\<open>extends qs ps\<close>: the queues \<open>ps\<close> are \<open>qs\<close> with processes appended.\<close>

definition extends :: "(nat \<Rightarrow> nat list) \<Rightarrow> (nat \<Rightarrow> nat list) \<Rightarrow> bool" where
  "extends qs ps \<longleftrightarrow> (\<forall>l. \<exists>zs. ps l = qs l @ zs)"

lemma extends_refl [simp]: "extends qs qs"
  by (simp add: extends_def)

lemma extends_add [simp]: "extends qs (add_queued ps lv qs)"
  by (simp add: extends_def add_queued_def)

lemma extends_snoc [simp]: "extends qs (qs(k := qs k @ zs))"
  by (auto simp: extends_def)

lemma extends_trans: "extends qs ps \<Longrightarrow> extends ps rs \<Longrightarrow> extends qs rs"
  unfolding extends_def by (metis append_assoc)

lemma mlfq_invI:
  assumes "rqs_rep s qs"
    and "\<And>l p. l < MLFQ_LEVELS \<Longrightarrow> p \<in> set (qs l) \<Longrightarrow> p < NPROC \<and> p \<notin> A \<and> state (procs s p) = RUNNABLE \<and>
        (queue_level (procs s p) = int l \<or> \<not> exact \<and> queue_level (procs s p) = 0)"
    and "\<And>p. p < NPROC \<Longrightarrow> p \<notin> A \<Longrightarrow> state (procs s p) = RUNNABLE \<Longrightarrow> p \<in> queued qs \<or> p_killed (procs s p)"
    and "\<And>p. p < NPROC \<Longrightarrow> level_ok (queue_level (procs s p))"
  shows "mlfq_inv exact A qs s"
  using assms by (simp add: mlfq_inv_def)

lemma mlfq_invD:
  assumes "mlfq_inv exact A qs s"
  shows "rqs_rep s qs"
    "l < MLFQ_LEVELS \<Longrightarrow> p \<in> set (qs l) \<Longrightarrow> p < NPROC \<and> p \<notin> A \<and> state (procs s p) = RUNNABLE \<and>
       (queue_level (procs s p) = int l \<or> \<not> exact \<and> queue_level (procs s p) = 0)"
    "p < NPROC \<Longrightarrow> p \<notin> A \<Longrightarrow> state (procs s p) = RUNNABLE \<Longrightarrow> p \<in> queued qs \<or> p_killed (procs s p)"
    "p < NPROC \<Longrightarrow> level_ok (queue_level (procs s p))"
    "p \<in> queued qs \<Longrightarrow> p < NPROC \<and> p \<notin> A \<and> state (procs s p) = RUNNABLE"
  using assms by (auto simp: mlfq_inv_def queued_def)

text \<open>The invariant sees of a process its state, its level and its mark, and of the processes in hand only the level.\<close>

lemma mlfq_inv_cong:
  assumes inv: "mlfq_inv exact A qs s" and rep: "rqs_rep t qs"
    and same: "\<And>p. p \<notin> A \<Longrightarrow> state (procs t p) = state (procs s p) \<and> queue_level (procs t p) = queue_level (procs s p) \<and>
      p_killed (procs t p) = p_killed (procs s p)"
    and lv: "\<And>p. p \<in> A \<Longrightarrow> level_ok (queue_level (procs s p)) \<Longrightarrow> level_ok (queue_level (procs t p))"
  shows "mlfq_inv exact A qs t"
proof (rule mlfq_invI [OF rep])
  fix p
  assume p: "p < NPROC"
  show "level_ok (queue_level (procs t p))" using mlfq_invD(4) [OF inv p] same [of p] lv [of p] by (cases "p \<in> A") auto
  show "p \<in> queued qs \<or> p_killed (procs t p)" if "p \<notin> A" "state (procs t p) = RUNNABLE"
    using mlfq_invD(3) [OF inv p that(1)] same [OF that(1)] that(2) by auto
next
  fix l p
  assume "l < MLFQ_LEVELS" "p \<in> set (qs l)"
  from mlfq_invD(2) [OF inv this] same [of p] show "p < NPROC \<and> p \<notin> A \<and> state (procs t p) = RUNNABLE \<and>
      (queue_level (procs t p) = int l \<or> \<not> exact \<and> queue_level (procs t p) = 0)" by auto
qed

lemma mlfq_inv_machine [simp]:
  "mlfq_inv exact A qs (acq l s) = mlfq_inv exact A qs s" "mlfq_inv exact A qs (rel l s) = mlfq_inv exact A qs s"
  "mlfq_inv exact A qs (settle s) = mlfq_inv exact A qs s" "mlfq_inv exact A qs (upd_cpu f s) = mlfq_inv exact A qs s"
  "mlfq_inv exact A qs (upd_stats h s) = mlfq_inv exact A qs s" "mlfq_inv exact A qs (turn_state s) = mlfq_inv exact A qs s"
  by (simp_all add: mlfq_inv_def)

lemma rqs_rep_upd_out: "p \<notin> queued qs \<Longrightarrow> rqs_rep (upd_proc p f s) qs = rqs_rep s qs"
proof -
  assume "p \<notin> queued qs"
  then have "chain (nextp (upd_proc p f s)) h (qs l) = chain (nextp s) h (qs l)" if "l < MLFQ_LEVELS" for l h
    using that by (intro chain_cong) (auto simp: queued_def nextp_def)
  then show ?thesis by (simp add: rqs_rep_def rq_rep_def cong: conj_cong)
qed

text \<open>A change of one process.\<close>

lemma mlfq_inv_upd:
  assumes inv: "mlfq_inv exact A qs s"
    and lv: "level_ok (queue_level (procs s p)) \<Longrightarrow> level_ok (queue_level (f (procs s p)))"
    and q: "p \<in> queued qs \<Longrightarrow> (\<forall>r. queue_next (f r) = queue_next r) \<and> state (f (procs s p)) = RUNNABLE \<and>
      (queue_level (f (procs s p)) = queue_level (procs s p) \<or> \<not> exact \<and> queue_level (f (procs s p)) = 0)"
    and o: "p \<notin> A \<Longrightarrow> p \<notin> queued qs \<Longrightarrow> state (f (procs s p)) = RUNNABLE \<Longrightarrow> p_killed (f (procs s p))"
  shows "mlfq_inv exact A qs (upd_proc p f s)"
proof (rule mlfq_invI)
  show "rqs_rep (upd_proc p f s) qs"
    using mlfq_invD(1) [OF inv] q rqs_rep_upd_proc [of f p s qs] rqs_rep_upd_out [of p qs f s] by (cases "p \<in> queued qs") auto
  fix l r
  assume l: "l < MLFQ_LEVELS" and r: "r \<in> set (qs l)"
  note d = mlfq_invD(2) [OF inv l r]
  show "r < NPROC \<and> r \<notin> A \<and> state (procs (upd_proc p f s) r) = RUNNABLE \<and> (queue_level (procs (upd_proc p f s) r) = int l \<or>
      \<not> exact \<and> queue_level (procs (upd_proc p f s) r) = 0)"
  proof (cases "r = p")
    case True
    then have "p \<in> queued qs" using l r by (auto simp: queued_def)
    with d q True show ?thesis by auto
  qed (use d in simp)
next
  fix r
  assume r: "r < NPROC"
  show "level_ok (queue_level (procs (upd_proc p f s) r))" using mlfq_invD(4) [OF inv r] lv by (cases "r = p") auto
  assume "r \<notin> A" "state (procs (upd_proc p f s) r) = RUNNABLE"
  with mlfq_invD(3) [OF inv r] o show "r \<in> queued qs \<or> p_killed (procs (upd_proc p f s) r)" by (cases "r = p") auto
qed

lemma mlfq_inv_hand:
  assumes "mlfq_inv exact A qs s" and "p \<in> A" and "level_ok (queue_level (procs s p)) \<Longrightarrow> level_ok (queue_level (f (procs s p)))"
  shows "mlfq_inv exact A qs (upd_proc p f s)"
  by (rule mlfq_inv_upd [OF assms(1)]) (use assms(2,3) mlfq_invD(5) [OF assms(1), of p] in auto)

section \<open>Taking the first process of a queue and putting one back\<close>

lemma queued_split: "l < MLFQ_LEVELS \<Longrightarrow> queued rs = set (rs l) \<union> (\<Union>k \<in> {..<MLFQ_LEVELS} - {l}. set (rs k))"
  by (auto simp: queued_def)

lemma queued_cut:
  assumes "rqs_rep s qs" and "l < MLFQ_LEVELS" and "qs l = p # ps"
  shows "queued (qs(l := ps)) = queued qs - {p}"
proof -
  have "distinct (p # ps)" using rqs_repD(1) [OF assms(1,2)] assms(3) chain_distinct by (metis rq_rep_def)
  moreover have "p \<notin> set (qs k)" if "k < MLFQ_LEVELS" "k \<noteq> l" for k
    using rqs_repD(2) [OF assms(1) that(1) assms(2) that(2)] assms(3) by auto
  moreover note queued_split [OF assms(2)]
  ultimately show ?thesis using assms(3) by auto
qed

lemma mlfq_inv_pick:
  assumes inv: "mlfq_inv exact {} qs s" and l: "l < MLFQ_LEVELS" and q: "qs l = p # ps" and rep: "rqs_rep t (qs(l := ps))"
    and st: "\<And>q. q \<noteq> p \<Longrightarrow> state (procs t q) = state (procs s q)"
    and lv: "\<And>q. queue_level (procs t q) = queue_level (procs s q)" "\<And>q. p_killed (procs t q) = p_killed (procs s q)"
  shows "mlfq_inv exact {p} (qs(l := ps)) t"
proof (rule mlfq_invI [OF rep])
  note cut = queued_cut [OF mlfq_invD(1) [OF inv] l q]
  fix k r
  assume k: "k < MLFQ_LEVELS" and r: "r \<in> set ((qs(l := ps)) k)"
  then have "r \<in> queued (qs(l := ps))" by (auto simp: queued_def split: if_splits)
  then have np: "r \<noteq> p" unfolding cut by blast
  have "r \<in> set (qs k)" using r q by (auto split: if_splits)
  from mlfq_invD(2) [OF inv k this] np st [OF np] lv show "r < NPROC \<and> r \<notin> {p} \<and> state (procs t r) = RUNNABLE \<and>
      (queue_level (procs t r) = int k \<or> \<not> exact \<and> queue_level (procs t r) = 0)" by simp
next
  fix r
  assume r: "r < NPROC"
  show "level_ok (queue_level (procs t r))" using mlfq_invD(4) [OF inv r] lv by simp
  assume "r \<notin> {p}" "state (procs t r) = RUNNABLE"
  with mlfq_invD(3) [OF inv r] st [of r] lv show "r \<in> queued (qs(l := ps)) \<or> p_killed (procs t r)"
    unfolding queued_cut [OF mlfq_invD(1) [OF inv] l q] by auto
qed

text \<open>Appending a process that nobody has queued, to the queue of its level.\<close>

lemma mlfq_inv_append:
  assumes inv: "mlfq_inv exact A qs s" and p: "p < NPROC" "p \<notin> queued qs"
    and k: "k = nat (queue_level (procs t p))" and lvp: "level_ok (queue_level (procs t p))"
    and rep: "rqs_rep t (qs(k := qs k @ [p]))" and st: "state (procs t p) = RUNNABLE"
    and same: "\<And>q. q \<noteq> p \<Longrightarrow> state (procs t q) = state (procs s q) \<and> queue_level (procs t q) = queue_level (procs s q) \<and>
      p_killed (procs t q) = p_killed (procs s q)"
  shows "mlfq_inv exact (A - {p}) (qs(k := qs k @ [p])) t"
proof (rule mlfq_invI [OF rep])
  have kl: "k < MLFQ_LEVELS" unfolding k by (rule nat_level [OF lvp])
  have qd: "queued (qs(k := qs k @ [p])) = insert p (queued qs)" using queued_split [OF kl] by auto
  fix l q
  assume l: "l < MLFQ_LEVELS" and q: "q \<in> set ((qs(k := qs k @ [p])) l)"
  show "q < NPROC \<and> q \<notin> A - {p} \<and> state (procs t q) = RUNNABLE \<and>
      (queue_level (procs t q) = int l \<or> \<not> exact \<and> queue_level (procs t q) = 0)"
  proof (cases "q = p")
    case True
    then have "l = k" using q p(2) l by (auto simp: queued_def split: if_splits)
    with True p(1) st lvp k show ?thesis by (simp add: level_ok_def)
  next
    case False
    then have "q \<in> set (qs l)" using q by (auto split: if_splits)
    with mlfq_invD(2) [OF inv l] same [OF False] show ?thesis by simp
  qed
next
  have kl: "k < MLFQ_LEVELS" unfolding k by (rule nat_level [OF lvp])
  have qd: "queued (qs(k := qs k @ [p])) = insert p (queued qs)" using queued_split [OF kl] by auto
  fix q
  assume q: "q < NPROC"
  show "level_ok (queue_level (procs t q))" using mlfq_invD(4) [OF inv q] same [of q] lvp by (cases "q = p") auto
  assume "q \<notin> A - {p}" "state (procs t q) = RUNNABLE"
  then show "q \<in> queued (qs(k := qs k @ [p])) \<or> p_killed (procs t q)"
    using mlfq_invD(3) [OF inv q] same [of q] unfolding qd by (cases "q = p") auto
qed

lemma mlfq_inv_put:
  assumes inv: "mlfq_inv exact {p} qs s" and p: "p < NPROC" and st: "state (procs s p) = RUNNABLE"
  shows "\<exists>t. enqueue p s = Ok () t \<and> forget_queues t = forget_queues s \<and>
    mlfq_inv exact {} (qs(nat (queue_level (procs s p)) := qs (nat (queue_level (procs s p))) @ [p])) t"
proof -
  let ?k = "nat (queue_level (procs s p))"
  have lv: "level_ok (queue_level (procs s p))" by (rule mlfq_invD(4) [OF inv p])
  have out: "p \<notin> queued qs" using mlfq_invD(5) [OF inv, of p] by auto
  from enqueue_rqs [OF mlfq_invD(1) [OF inv] lv out] obtain t where
    t: "enqueue p s = Ok () t" "rqs_rep t (qs(?k := qs ?k @ [p]))" and fg: "forget_queues t = forget_queues s" by blast
  have "mlfq_inv exact ({p} - {p}) (qs(?k := qs ?k @ [p])) t"
    by (rule mlfq_inv_append [OF inv p out _ _ t(2)]) (use st lv in \<open>simp_all add: forget_queues_proc [OF fg]\<close>)
  with t fg show ?thesis by auto
qed

lemma mlfq_inv_drop:
  assumes inv: "mlfq_inv exact {p} qs s" and "state (procs s p) \<noteq> RUNNABLE"
  shows "mlfq_inv exact {} qs s"
  using assms by (auto simp: mlfq_inv_def)

section \<open>Code that keeps the invariant\<close>

lemma live_settle [simp]: "live A (settle s) = live A s"
  by (simp add: live_def idle_cpu_def)

lemma liveD:
  assumes "live A s"
  shows "A = set_option (c_proc (this_cpu s))" "noff (this_cpu s) = 0" "lock_free l s" "irq_wf s" "p \<in> A \<Longrightarrow> p < NPROC"
    "p \<in> A \<Longrightarrow> state (procs s p) = RUNNING" "p \<in> A \<Longrightarrow> c_proc (this_cpu s) = Some p"
  using assms by (auto simp: live_def idle_cpu_def irq_wf_def)

lemma live_cong:
  assumes "live A s" and "tp t = tp s" and "cpus t = cpus s" and "locks t = locks s" and "\<And>p. p \<in> A \<Longrightarrow> state (procs t p) = state (procs s p)"
  shows "live A t"
  using assms unfolding live_def idle_cpu_def lock_free_def by auto

text \<open>
  \<open>step_ok\<close>: run with no lock held, the code comes back that way with the invariant, and where \<open>keep\<close> holds the queues have at most
  grown at their ends. \<open>body_ok\<close>: the same inside a critical section.
\<close>

definition step_ok :: "bool \<Rightarrow> bool \<Rightarrow> nat set \<Rightarrow> ('z kern_scheme, unit) km \<Rightarrow> bool" where
  "step_ok exact keep A m \<longleftrightarrow> (\<forall>s qs. live A s \<longrightarrow> mlfq_inv exact A qs s \<longrightarrow>
     (\<exists>t qs'. m s = Ok () t \<and> live A t \<and> mlfq_inv exact A qs' t \<and> (keep \<longrightarrow> extends qs qs')))"

definition inside :: "nat set \<Rightarrow> ('z) kern_scheme \<Rightarrow> bool" where
  "inside A s \<longleftrightarrow> A = set_option (c_proc (this_cpu s)) \<and> noff (this_cpu s) = 1 \<and> \<not> sie (this_cpu s) \<and> (\<forall>q. lock_free (ProcLock q) s) \<and>
     (\<forall>p \<in> A. state (procs s p) = RUNNING)"

definition same_cpu :: "nat set \<Rightarrow> ('z) kern_scheme \<Rightarrow> ('z) kern_scheme \<Rightarrow> bool" where
  "same_cpu A s t \<longleftrightarrow> tp t = tp s \<and> cpus t = cpus s \<and> locks t = locks s \<and> (\<forall>p \<in> A. state (procs t p) = state (procs s p))"

definition body_ok :: "bool \<Rightarrow> nat set \<Rightarrow> ('z kern_scheme, unit) km \<Rightarrow> bool" where
  "body_ok exact A m \<longleftrightarrow> (\<forall>s qs. inside A s \<longrightarrow> mlfq_inv exact A qs s \<longrightarrow>
     (\<exists>t qs'. m s = Ok () t \<and> same_cpu A s t \<and> mlfq_inv exact A qs' t \<and> extends qs qs'))"

lemma step_okD:
  assumes "step_ok exact keep A m" and "live A s" and "mlfq_inv exact A qs s"
  obtains t qs' where "m s = Ok () t" "live A t" "mlfq_inv exact A qs' t" "keep \<longrightarrow> extends qs qs'"
  using assms unfolding step_ok_def by blast

lemma body_okD:
  assumes "body_ok exact A m" and "inside A s" and "mlfq_inv exact A qs s"
  obtains t qs' where "m s = Ok () t" "same_cpu A s t" "mlfq_inv exact A qs' t" "extends qs qs'"
  using assms unfolding body_ok_def by blast

lemma same_cpu_trans: "same_cpu A s t \<Longrightarrow> same_cpu A t u \<Longrightarrow> same_cpu A s u"
  by (simp add: same_cpu_def)

lemma same_cpu_inside: "same_cpu A s t \<Longrightarrow> inside A t = inside A s"
  by (simp add: same_cpu_def inside_def lock_free_def)

lemma step_ok_skip [simp]: "step_ok exact keep A skip"
  unfolding step_ok_def by (intro allI impI exI conjI) (assumption | simp)+

lemma step_ok_block: "(\<And>m. m \<in> set ms \<Longrightarrow> step_ok exact keep A m) \<Longrightarrow> step_ok exact keep A (block ms)"
proof (induction ms)
  case (Cons m ms)
  then have m: "step_ok exact keep A m" and ms: "step_ok exact keep A (block ms)" by auto
  show ?case unfolding step_ok_def
  proof (intro allI impI)
    fix s :: "'a kern_scheme" and qs
    assume "live A s" "mlfq_inv exact A qs s"
    then obtain t ps where t: "m s = Ok () t" "live A t" "mlfq_inv exact A ps t" "keep \<longrightarrow> extends qs ps" by (rule step_okD [OF m])
    from ms t(2,3) obtain u rs where "block ms t = Ok () u" "live A u" "mlfq_inv exact A rs u" "keep \<longrightarrow> extends ps rs" by (rule step_okD)
    with t show "\<exists>u rs. block (m # ms) s = Ok () u \<and> live A u \<and> mlfq_inv exact A rs u \<and> (keep \<longrightarrow> extends qs rs)"
      by (auto intro: extends_trans)
  qed
next
  case Nil
  have "step_ok exact keep A skip" by simp
  then show ?case by (simp only: block.simps)
qed

lemma for_each_block: "for_each xs f = block (map f xs)"
  by (induction xs) simp_all

lemma body_ok_skip [simp]: "body_ok exact A skip"
  unfolding body_ok_def by (intro allI impI exI conjI) (assumption | simp add: same_cpu_def)+

lemma body_ok_block: "(\<And>m. m \<in> set ms \<Longrightarrow> body_ok exact A m) \<Longrightarrow> body_ok exact A (block ms)"
proof (induction ms)
  case (Cons m ms)
  then have m: "body_ok exact A m" and ms: "body_ok exact A (block ms)" by auto
  show ?case unfolding body_ok_def
  proof (intro allI impI)
    fix s :: "'a kern_scheme" and qs
    assume i: "inside A s" and "mlfq_inv exact A qs s"
    with m obtain t ps where t: "m s = Ok () t" "same_cpu A s t" "mlfq_inv exact A ps t" "extends qs ps" by (rule body_okD)
    then have "inside A t" using i same_cpu_inside by blast
    from ms this t(3) obtain u rs where "block ms t = Ok () u" "same_cpu A t u" "mlfq_inv exact A rs u" "extends ps rs" by (rule body_okD)
    with t show "\<exists>u rs. block (m # ms) s = Ok () u \<and> same_cpu A s u \<and> mlfq_inv exact A rs u \<and> extends qs rs"
      by (auto intro: extends_trans same_cpu_trans)
  qed
next
  case Nil
  have "body_ok exact A skip" by simp
  then show ?case by (simp only: block.simps)
qed

lemma body_ok_ifm: "body_ok exact A a \<Longrightarrow> body_ok exact A b \<Longrightarrow> body_ok exact A (ifm c a b)"
  by (simp add: body_ok_def)

lemma body_ok_gets: "(\<And>x. body_ok exact A (f x)) \<Longrightarrow> body_ok exact A (bind (gets r) f)"
  by (simp add: body_ok_def)

lemma body_ok_modify:
  assumes "\<And>s qs. mlfq_inv exact A qs s \<Longrightarrow> mlfq_inv exact A qs (g s)" and "\<And>s. same_cpu A s (g s)"
  shows "body_ok exact A (modify g)"
  unfolding body_ok_def using assms extends_refl by (auto intro!: exI)

lemma live_inside:
  assumes "live A s" and "\<And>q. lk \<noteq> ProcLock q"
  shows "inside A (acq lk s)"
proof -
  have "ProcLock q \<noteq> lk" for q using assms(2) [of q] by simp
  then show ?thesis using liveD(1-3,6) [OF assms(1)] by (simp add: inside_def)
qed

lemma leave_section:
  assumes s: "live A s" and t: "same_cpu A (acq lk s) t"
  shows "release lk t = Ok () (rel lk t)" "live A (rel lk t)"
proof -
  note c = t [unfolded same_cpu_def] and d = liveD [OF s]
  show "release lk t = Ok () (rel lk t)" by (rule release_eq) (use c d(2) in \<open>auto simp: holding_def cpuid_def\<close>)
  have "lock_free l (rel lk t)" for l using c d(3) [of l] by (auto simp: lock_free_def)
  then show "live A (rel lk t)" using c d(1,2,5,6) by (auto simp: live_def idle_cpu_def)
qed

lemma section_ok:
  assumes body: "body_ok exact A m" and lk: "\<And>q. lk \<noteq> ProcLock q"
  shows "step_ok exact keep A (block [acquire lk, m, release lk])"
  unfolding step_ok_def
proof (intro allI impI)
  fix s :: "'a kern_scheme" and qs
  assume s: "live A s" and "mlfq_inv exact A qs s"
  then have inv: "mlfq_inv exact A qs (acq lk s)" by simp
  from body live_inside [OF s lk] inv obtain t qs' where
    t: "m (acq lk s) = Ok () t" "same_cpu A (acq lk s) t" "mlfq_inv exact A qs' t" "extends qs qs'" by (rule body_okD)
  note e = leave_section [OF s t(2)]
  have "block [acquire lk, m, release lk] s = Ok () (rel lk t)" using t(1) e(1) liveD(3) [OF s] by simp
  with e(2) t(3,4) show "\<exists>t qs'. block [acquire lk, m, release lk] s = Ok () t \<and> live A t \<and> mlfq_inv exact A qs' t \<and> (keep \<longrightarrow> extends qs qs')"
    by auto
qed

section \<open>Waking up\<close>

lemma wakeup_ok: "body_ok exact A (wakeup cn)"
  unfolding body_ok_def
proof (intro allI impI)
  fix s :: "'a kern_scheme" and qs
  assume ins: "inside A s" and inv: "mlfq_inv exact A qs s"
  let ?W = "{q. q < NPROC \<and> wakes cn s q}" and ?lv = "\<lambda>q. nat (queue_level (procs s q))"
  let ?ps = "filter (wakes cn s) [0..<NPROC]"
  let ?qs = "add_queued ?ps ?lv qs"
  have np: "q \<notin> A" if "wakes cn s q" for q using ins that by (auto simp: wakes_def inside_def)
  have nq: "q \<notin> queued qs" if "wakes cn s q" for q using mlfq_invD(5) [OF inv, of q] that by (auto simp: wakes_def)
  have lv: "level_ok (queue_level (procs s q))" if "q < NPROC" for q by (rule mlfq_invD(4) [OF inv that])
  have "\<exists>t. wakeup cn s = Ok () t \<and> forget_queues t = forget_queues (map_procs ?W (\<lambda>r. r\<lparr>state := RUNNABLE\<rparr>) s) \<and> rqs_rep t ?qs"
    by (rule wakeup_eq [OF mlfq_invD(1) [OF inv]]) (use ins nq lv in \<open>auto simp: inside_def\<close>)
  then obtain t where t: "wakeup cn s = Ok () t" and rep: "rqs_rep t ?qs"
    and fg: "forget_queues t = forget_queues (map_procs ?W (\<lambda>r. r\<lparr>state := RUNNABLE\<rparr>) s)" by blast
  note pr = forget_queues_proc(1,2,6) [OF fg]
  have "mlfq_inv exact A ?qs t"
  proof (rule mlfq_invI [OF rep])
    fix l q
    assume l: "l < MLFQ_LEVELS" and q: "q \<in> set (?qs l)"
    show "q < NPROC \<and> q \<notin> A \<and> state (procs t q) = RUNNABLE \<and> (queue_level (procs t q) = int l \<or> \<not> exact \<and> queue_level (procs t q) = 0)"
    proof (cases "q \<in> set (qs l)")
      case True
      from mlfq_invD(2) [OF inv l True] show ?thesis by (simp add: pr)
    next
      case False
      with q have w: "wakes cn s q" "q < NPROC" "?lv q = l" by (auto simp: add_queued_def)
      then show ?thesis using np [OF w(1)] lv [OF w(2)] by (auto simp: pr level_ok_def)
    qed
  next
    fix q
    assume q: "q < NPROC"
    show "level_ok (queue_level (procs t q))" using lv [OF q] by (simp add: pr)
    assume nA: "q \<notin> A" and st: "state (procs t q) = RUNNABLE"
    show "q \<in> queued ?qs \<or> p_killed (procs t q)"
    proof (cases "wakes cn s q")
      case True
      with q nat_level [OF lv [OF q]] show ?thesis by (auto simp: queued_def add_queued_def)
    next
      case False
      with st have "state (procs s q) = RUNNABLE" by (simp add: pr)
      from mlfq_invD(3) [OF inv q nA this] show ?thesis by (auto simp: queued_def add_queued_def pr)
    qed
  qed
  moreover have "same_cpu A s t" using forget_queues_sels(1-3) [OF fg] np by (auto simp: same_cpu_def pr)
  ultimately show "\<exists>t qs'. wakeup cn s = Ok () t \<and> same_cpu A s t \<and> mlfq_inv exact A qs' t \<and> extends qs qs'" using t extends_add by blast
qed

lemma wakeups_ok: "body_ok exact A (for_each cns wakeup)"
  unfolding for_each_block by (rule body_ok_block) (auto intro: wakeup_ok)

section \<open>Killing and boosting\<close>

definition slain :: "proc \<Rightarrow> proc" where
  "slain r = r\<lparr>p_killed := True, state := (if state r = SLEEPING then RUNNABLE else state r)\<rparr>"

definition boosted :: "proc \<Rightarrow> proc" where
  "boosted r = r\<lparr>queue_level := 0, time_in_queue := 0\<rparr>"

lemma kkill_loop_finds:
  assumes "irq_wf s" and "\<And>l. lock_free l s" and "\<And>q. q \<in> set xs \<Longrightarrow> pid (procs s q) \<noteq> pd" and "pid (procs s p) = pd"
  shows "kkill_loop pd (xs @ p # ys) s = Ok 0 (settle (upd_proc p slain s))"
  using assms
proof (induction xs arbitrary: s)
  case Nil
  have "upd_proc p slain s = (if state (procs s p) = SLEEPING
      then upd_proc p (\<lambda>r. r\<lparr>p_killed := True, state := RUNNABLE\<rparr>) s else upd_proc p (\<lambda>r. r\<lparr>p_killed := True\<rparr>) s)"
    by (simp add: slain_def upd_proc_def)
  with Nil show ?case by (simp add: kcomm)
next
  case (Cons x xs)
  then have "kkill_loop pd (xs @ p # ys) (settle s) = Ok 0 (settle (upd_proc p slain (settle s)))"
    by (intro Cons.IH) (auto simp: irq_wf_def)
  with Cons.prems show ?case by (simp add: kcomm)
qed

lemma kkill_loop_misses:
  "irq_wf s \<Longrightarrow> (\<And>l. lock_free l s) \<Longrightarrow> (\<And>q. q \<in> set xs \<Longrightarrow> pid (procs s q) \<noteq> pd) \<Longrightarrow>
    kkill_loop pd xs s = Ok (-1) (if xs = [] then s else settle s)"
proof (induction xs arbitrary: s)
  case (Cons x xs)
  then have "kkill_loop pd xs (settle s) = Ok (-1) (settle s)" by simp
  with Cons.prems show ?case by (simp add: kcomm)
qed simp

lemma boostproc_loop_finds:
  assumes "irq_wf s" and "\<And>l. lock_free l s" and "\<And>q. q \<in> set xs \<Longrightarrow> pid (procs s q) \<noteq> pd" and "pid (procs s p) = pd"
  shows "boostproc_loop pd (xs @ p # ys) s = Ok 0 (settle (upd_proc p boosted s))"
  using assms
proof (induction xs arbitrary: s)
  case Nil
  have "upd_proc p boosted s = upd_proc p (\<lambda>r. r\<lparr>queue_level := 0, time_in_queue := 0\<rparr>) s"
    by (simp add: boosted_def upd_proc_def)
  with Nil show ?case by (simp add: kcomm)
next
  case (Cons x xs)
  then have "boostproc_loop pd (xs @ p # ys) (settle s) = Ok 0 (settle (upd_proc p boosted (settle s)))"
    by (intro Cons.IH) (auto simp: irq_wf_def)
  with Cons.prems show ?case by (simp add: kcomm)
qed

lemma boostproc_loop_misses:
  "irq_wf s \<Longrightarrow> (\<And>l. lock_free l s) \<Longrightarrow> (\<And>q. q \<in> set xs \<Longrightarrow> pid (procs s q) \<noteq> pd) \<Longrightarrow>
    boostproc_loop pd xs s = Ok (-1) (if xs = [] then s else settle s)"
proof (induction xs arbitrary: s)
  case (Cons x xs)
  then have "boostproc_loop pd xs (settle s) = Ok (-1) (settle s)" by simp
  with Cons.prems show ?case by (simp add: kcomm)
qed simp

text \<open>Both loops change the first process with the number, if there is one.\<close>

lemma pid_cases:
  obtains "\<And>q. q \<in> set xs \<Longrightarrow> pid (procs s q) \<noteq> pd"
  | us p vs where "xs = us @ p # vs" "\<And>q. q \<in> set us \<Longrightarrow> pid (procs s q) \<noteq> pd" "pid (procs s p) = pd"
  using split_list_first_prop [of xs "\<lambda>q. pid (procs s q) = pd"] by blast

lemma kkill_ok: "step_ok exact keep A (bind (kkill pd) (\<lambda>_. skip))"
  unfolding step_ok_def
proof (intro allI impI)
  fix s :: "'a kern_scheme" and qs
  assume s: "live A s" and inv: "mlfq_inv exact A qs s"
  note d = liveD [OF s]
  show "\<exists>t qs'. bind (kkill pd) (\<lambda>_. skip) s = Ok () t \<and> live A t \<and> mlfq_inv exact A qs' t \<and> (keep \<longrightarrow> extends qs qs')"
  proof (cases rule: pid_cases [of "[0..<NPROC]" s pd])
    case 1
    from kkill_loop_misses [OF d(4,3), of "[0..<NPROC]" pd] 1 have "kkill pd s = Ok (-1) (settle s)" by (simp add: kkill_def NPROC_def)
    with s inv show ?thesis by (intro exI [of _ "settle s"] exI [of _ qs]) simp
  next
    case (2 us p vs)
    from kkill_loop_finds [OF d(4,3), of us pd p vs] 2 have k: "kkill pd s = Ok 0 (settle (upd_proc p slain s))" by (simp add: kkill_def)
    have "live A (upd_proc p slain s)" by (rule live_cong [OF s]) (use d(6) in \<open>auto simp: slain_def\<close>)
    moreover have "mlfq_inv exact A qs (upd_proc p slain s)"
      by (rule mlfq_inv_upd [OF inv]) (use mlfq_invD(5) [OF inv, of p] in \<open>auto simp: slain_def\<close>)
    ultimately show ?thesis using k by (intro exI [of _ "settle (upd_proc p slain s)"] exI [of _ qs]) simp
  qed
qed

lemma boost_inv:
  assumes inv: "\<And>p. p < NPROC \<Longrightarrow> level_ok (queue_level (procs s p))" and rep: "rqs_rep t (all_top (runnables s))"
    and A: "\<And>p. p \<in> A \<Longrightarrow> state (procs s p) \<noteq> RUNNABLE"
    and st: "\<And>p. state (procs t p) = state (procs s p)"
    and lv: "\<And>p. queue_level (procs t p) = (if p \<in> set (runnables s) then 0 else queue_level (procs s p))"
  shows "mlfq_inv exact A (all_top (runnables s)) t"
proof (rule mlfq_invI [OF rep])
  fix l p
  assume "l < MLFQ_LEVELS" "p \<in> set (all_top (runnables s) l)"
  then have p: "l = 0" "p \<in> set (runnables s)" by (auto simp: all_top_def split: if_splits)
  then have "p < NPROC" "state (procs s p) = RUNNABLE" by (auto simp: runnables_def)
  with p A [of p] st lv show "p < NPROC \<and> p \<notin> A \<and> state (procs t p) = RUNNABLE \<and>
      (queue_level (procs t p) = int l \<or> \<not> exact \<and> queue_level (procs t p) = 0)" by auto
next
  fix p
  assume p: "p < NPROC"
  show "level_ok (queue_level (procs t p))" using inv [OF p] lv by (simp add: level_ok_def MLFQ_LEVELS_def)
  assume "p \<notin> A" "state (procs t p) = RUNNABLE"
  with p st show "p \<in> queued (all_top (runnables s)) \<or> p_killed (procs t p)"
    by (auto simp: queued_def all_top_def runnables_def MLFQ_LEVELS_def)
qed

lemma boost_all_ok: "step_ok exact False A (bind (boostproc 0) (\<lambda>_. skip))"
  unfolding step_ok_def
proof (intro allI impI)
  fix s :: "'a kern_scheme" and qs
  assume s: "live A s" and inv: "mlfq_inv exact A qs s"
  note d = liveD [OF s]
  from priority_boost_eq [OF d(4)] d(3) obtain t where t: "priority_boost s = Ok () t" "rqs_rep t (all_top (runnables s))"
    and fg: "forget_queues (settle t) = forget_queues (settle (map_procs (set (runnables s))
      (\<lambda>r. r\<lparr>queue_level := 0, time_in_queue := 0\<rparr>) (s\<lparr>ticks_since_boost := 0\<rparr>)))" by blast
  note pr = forget_queues_proc(1,2) [OF fg, simplified] and m = forget_queues_sels(1-3) [OF fg, simplified]
  have "mlfq_inv exact A (all_top (runnables s)) t"
    by (rule boost_inv [OF mlfq_invD(4) [OF inv] t(2)]) (use d(6) pr in auto)
  moreover have "live A (settle t)" by (rule live_cong [of A "settle s"]) (use s m pr in auto)
  ultimately show "\<exists>t qs'. bind (boostproc 0) (\<lambda>_. skip) s = Ok () t \<and> live A t \<and> mlfq_inv exact A qs' t \<and> (False \<longrightarrow> extends qs qs')"
    using t(1) by (auto simp: boostproc_def)
qed

lemma boost_one_ok:
  assumes pd: "pd \<noteq> 0"
  shows "step_ok False keep A (bind (boostproc pd) (\<lambda>_. skip))"
  unfolding step_ok_def
proof (intro allI impI)
  fix s :: "'a kern_scheme" and qs
  assume s: "live A s" and inv: "mlfq_inv False A qs s"
  note d = liveD [OF s]
  show "\<exists>t qs'. bind (boostproc pd) (\<lambda>_. skip) s = Ok () t \<and> live A t \<and> mlfq_inv False A qs' t \<and> (keep \<longrightarrow> extends qs qs')"
  proof (cases rule: pid_cases [of "[0..<NPROC]" s pd])
    case 1
    from boostproc_loop_misses [OF d(4,3), of "[0..<NPROC]" pd] 1 have "boostproc pd s = Ok (-1) (settle s)" using pd by (simp add: boostproc_def NPROC_def)
    with s inv show ?thesis by (intro exI [of _ "settle s"] exI [of _ qs]) simp
  next
    case (2 us p vs)
    from boostproc_loop_finds [OF d(4,3), of us pd p vs] 2 pd have k: "boostproc pd s = Ok 0 (settle (upd_proc p boosted s))"
      by (simp add: boostproc_def)
    have "p \<in> set [0..<NPROC]" unfolding 2(1) by simp
    then have p: "p < NPROC" by simp
    have "live A (upd_proc p boosted s)" by (rule live_cong [OF s]) (auto simp: boosted_def)
    moreover have "mlfq_inv False A qs (upd_proc p boosted s)"
      by (rule mlfq_inv_upd [OF inv])
        (use mlfq_invD(5) [OF inv, of p] mlfq_invD(3) [OF inv p] in \<open>auto simp: boosted_def level_ok_def MLFQ_LEVELS_def\<close>)
    ultimately show ?thesis using k by (intro exI [of _ "settle (upd_proc p boosted s)"] exI [of _ qs]) simp
  qed
qed

section \<open>Starting and reaping processes\<close>

text \<open>
  The part of \<^verbatim>\<open>kfork\<close> that concerns the scheduler: \<^verbatim>\<open>allocproc\<close> finds an unused process and marks it, and \<open>kfork_start\<close> makes it
  RUNNABLE. Left out is what fills the process: its number, its memory and its files.
\<close>

definition fork_part :: "nat \<Rightarrow> ('z kern_scheme, unit) km" where
  "fork_part p = bind (find_unused [0..<NPROC]) (\<lambda>npo. case npo of
     None \<Rightarrow> skip
   | Some np \<Rightarrow> block [set_proc np (\<lambda>r. r\<lparr>state := USED\<rparr>), reset_queue np, kfork_start p np])"

text \<open>What \<^verbatim>\<open>kwait\<close> does with a zombie.\<close>

definition reap_part :: "nat \<Rightarrow> ('z kern_scheme, unit) km" where
  "reap_part pp = block [
     acquire WaitLock,
     block [acquire (ProcLock pp), ifm (\<lambda>s. state (procs s pp) = ZOMBIE) (clear_proc pp) skip, release (ProcLock pp)],
     release WaitLock]"

lemma find_unused_cases:
  assumes "irq_wf s" and "\<And>l. lock_free l s"
  shows "(\<exists>t. find_unused xs s = Ok None t \<and> (t = s \<or> t = settle s)) \<or>
    (\<exists>q \<in> set xs. find_unused xs s = Ok (Some q) (acq (ProcLock q) (settle s)) \<and> state (procs s q) = UNUSED)"
  using assms
proof (induction xs arbitrary: s)
  case (Cons x xs)
  have a: "acq (ProcLock x) (settle s) = acq (ProcLock x) s"
    by (cases "noff (this_cpu s) = 0") (simp_all add: acq_def settle_def upd_cpu_def upd_lock_def)
  show ?case
  proof (cases "state (procs s x) = UNUSED")
    case True
    with Cons.prems a show ?thesis by simp
  next
    case False
    then have "find_unused (x # xs) s = find_unused xs (settle s)" using Cons.prems by simp
    moreover have "(\<exists>t. find_unused xs (settle s) = Ok None t \<and> (t = settle s \<or> t = settle (settle s))) \<or>
      (\<exists>q \<in> set xs. find_unused xs (settle s) = Ok (Some q) (acq (ProcLock q) (settle (settle s))) \<and> state (procs (settle s) q) = UNUSED)"
      by (rule Cons.IH) (use Cons.prems in auto)
    ultimately show ?thesis by auto
  qed
qed simp

lemma bind_skip: "bind skip h = h ()"
  by (rule ext) simp

lemma kfork_start_ok:
  assumes s: "live A s" and inv: "mlfq_inv exact A qs s" and q: "q < NPROC" "q \<notin> queued qs" "q \<notin> A"
    and lv: "queue_level (procs s q) = 0" and st: "state (procs s q) \<noteq> RUNNABLE"
  shows "\<exists>t qs'. kfork_start p q (acq (ProcLock q) s) = Ok () t \<and> live A t \<and> mlfq_inv exact A qs' t \<and> extends qs qs'"
proof -
  let ?R = "\<lambda>r. r\<lparr>state := RUNNABLE\<rparr>" and ?u = "settle (upd_proc q (\<lambda>r. r\<lparr>parent := Some p\<rparr>) s)"
  note d = liveD [OF s]
  have u: "live A ?u" unfolding live_settle by (rule live_cong [OF s]) auto
  have i: "mlfq_inv exact A qs ?u"
    using mlfq_inv_upd [OF inv, of q "\<lambda>r. r\<lparr>parent := Some p\<rparr>"] q(2) st by simp
  have l: "level_ok (queue_level (?R (procs ?u q)))" "nat (queue_level (?R (procs ?u q))) = 0"
    using lv by (simp_all add: level_ok_def MLFQ_LEVELS_def)
  have "\<exists>t. block [acquire (ProcLock q), block [modify (upd_proc q ?R), enqueue q], release (ProcLock q)] ?u = Ok () t \<and>
    forget_queues t = forget_queues (settle (upd_proc q ?R ?u)) \<and> rqs_rep t (qs(0 := qs 0 @ [q]))"
    using enqueue_section [of q ?u qs ?R, OF liveD(3,4) [OF u] mlfq_invD(1) [OF i] _ l(1) q(2)] unfolding l(2) by simp
  then obtain t where t: "block [acquire (ProcLock q), block [modify (upd_proc q ?R), enqueue q], release (ProcLock q)] ?u = Ok () t"
      "rqs_rep t (qs(0 := qs 0 @ [q]))" and fg: "forget_queues t = forget_queues (settle (upd_proc q ?R ?u))" by blast
  note pr = forget_queues_proc [OF fg] and m = forget_queues_sels(1-3) [OF fg]
  have "kfork_start p q (acq (ProcLock q) s) = Ok () t"
    using t(1) d(3,4) by (simp add: kfork_start_def set_proc_def kcomm bind_skip)
  moreover have "live A t" by (rule live_cong [OF u]) (use m pr(1) q(3) in auto)
  moreover have "mlfq_inv exact (A - {q}) (qs(0 := qs 0 @ [q])) t"
    by (rule mlfq_inv_append [OF i q(1,2) _ _ t(2)]) (use pr lv in \<open>auto simp: level_ok_def MLFQ_LEVELS_def\<close>)
  ultimately show ?thesis using q(3) by (intro exI [of _ t] exI [of _ "qs(0 := qs 0 @ [q])"]) simp
qed

lemma fork_ok: "step_ok exact keep A (fork_part p :: ('a kern_scheme, unit) km)"
  unfolding step_ok_def
proof (intro allI impI)
  fix s :: "'a kern_scheme" and qs
  assume s: "live A s" and inv: "mlfq_inv exact A qs s"
  note d = liveD [OF s]
  consider t where "find_unused [0..<NPROC] s = Ok None t" "t = s \<or> t = settle s"
    | q where "q < NPROC" "find_unused [0..<NPROC] s = Ok (Some q) (acq (ProcLock q) (settle s))" "state (procs s q) = UNUSED"
    using find_unused_cases [OF d(4,3), of "[0..<NPROC]"] by auto
  then show "\<exists>t qs'. fork_part p s = Ok () t \<and> live A t \<and> mlfq_inv exact A qs' t \<and> (keep \<longrightarrow> extends qs qs')"
  proof cases
    case (1 t)
    with s inv show ?thesis by (intro exI [of _ t] exI [of _ qs]) (auto simp: fork_part_def)
  next
    case (2 q)
    note q = 2(1) and f = 2(2) and un = 2(3)
    let ?f = "\<lambda>r. r\<lparr>state := USED, queue_level := 0, time_in_queue := 0, time_slices := 0, entered_queue_tick := 0, queue_next := None\<rparr>"
    let ?u = "settle (upd_proc q ?f s)"
    have nq: "q \<notin> queued qs" "q \<notin> A" using un mlfq_invD(5) [OF inv, of q] d(6) [of q] by auto
    have "live A ?u" unfolding live_settle by (rule live_cong [OF s]) (use nq in auto)
    moreover have "mlfq_inv exact A qs ?u"
      using mlfq_inv_upd [OF inv, of q ?f] nq by (simp add: level_ok_def MLFQ_LEVELS_def)
    ultimately obtain t qs' where t: "kfork_start p q (acq (ProcLock q) ?u) = Ok () t" "live A t" "mlfq_inv exact A qs' t" "extends qs qs'"
      using kfork_start_ok [of A ?u exact qs q p] q nq by auto
    have "fork_part p s = Ok () t" using f t(1) by (simp add: fork_part_def set_proc_def reset_queue_def kcomm)
    with t(2-4) show ?thesis by blast
  qed
qed

lemma reap_ok: "step_ok exact keep A (reap_part pp :: ('a kern_scheme, unit) km)"
  unfolding reap_part_def
proof (rule section_ok)
  show "body_ok exact A (block [acquire (ProcLock pp), ifm (\<lambda>s. state (procs s pp) = ZOMBIE) (clear_proc pp) skip, release (ProcLock pp)] :: ('a kern_scheme, unit) km)"
    unfolding body_ok_def
  proof (intro allI impI)
    fix s :: "'a kern_scheme" and qs
    assume i: "inside A s" and inv: "mlfq_inv exact A qs s"
    let ?m = "block [acquire (ProcLock pp), ifm (\<lambda>s. state (procs s pp) = ZOMBIE) (clear_proc pp) skip, release (ProcLock pp)]"
    let ?f = "\<lambda>r. r\<lparr>pid := 0, parent := None, name := (name r)[0 := 0], chan := None, p_killed := False, xstate := 0, state := UNUSED,
      queue_level := 0, time_in_queue := 0, time_slices := 0, entered_queue_tick := 0, queue_next := None\<rparr>"
    have wf: "irq_wf s" "lock_free (ProcLock pp) s" and st: "settle t = t" if "cpus t = cpus s" "tp t = tp s" for t :: "'a kern_scheme"
      using i that by (auto simp: inside_def irq_wf_def)
    show "\<exists>t qs'. ?m s = Ok () t \<and> same_cpu A s t \<and> mlfq_inv exact A qs' t \<and> extends qs qs'"
    proof (cases "state (procs s pp) = ZOMBIE")
      case False
      then have "?m s = Ok () s" using wf st [of s] by simp
      with inv show ?thesis by (intro exI [of _ s] exI [of _ qs]) (simp add: same_cpu_def)
    next
      case True
      then have nq: "pp \<notin> queued qs" using mlfq_invD(5) [OF inv, of pp] by auto
      have "?m s = Ok () (upd_proc pp ?f s)"
        using True wf st [of "upd_proc pp ?f s"] by (simp add: clear_proc_def reset_queue_def set_proc_def kcomm)
      moreover have "mlfq_inv exact A qs (upd_proc pp ?f s)"
        by (rule mlfq_inv_upd [OF inv]) (use nq in \<open>auto simp: level_ok_def MLFQ_LEVELS_def\<close>)
      moreover have "same_cpu A s (upd_proc pp ?f s)" using i True by (auto simp: same_cpu_def inside_def)
      ultimately show ?thesis by (intro exI [of _ "upd_proc pp ?f s"] exI [of _ qs]) simp
    qed
  qed
qed simp

end
