(* ===== verification/Rounds.thy ===== *)
theory Rounds
  imports Levels
begin

text \<open>
  The rounds of one CPU: a turn of \<^verbatim>\<open>scheduler\<close> picks a process, the process goes on where it left the CPU and runs kernel code
  until it switches back, and the rest of the turn puts it where it belongs; when nothing is picked the CPU idles, and interrupts
  come in between. Shown here: the invariant of the queues over any number of rounds, that a boost makes the scheduler work
  conserving whatever the queues were, and that queue 0 is served in order.
\<close>

section \<open>A turn of the scheduler\<close>



lemma handed_over_sels [simp]:
  "procs (handed_over l p s) = (procs s)(p := (procs s p)\<lparr>state := RUNNING, entered_queue_tick := sint (ticks_since_boost s)\<rparr>)"
  "tp (handed_over l p s) = tp s" "locks (handed_over l p s) = locks (acq (ProcLock p) s)"
  "cpus (handed_over l p s) = (cpus (acq (ProcLock p) s))(tp s := (this_cpu (acq (ProcLock p) s))\<lparr>c_proc := Some p\<rparr>)"
  by (simp_all add: handed_over_def)





lemma levels_none:
  assumes "rqs_rep s qs" and "queued qs = {}"
  shows "scheduler_levels [0..<MLFQ_LEVELS] s = Ok False s"
  using scheduler_levels_skip [OF assms(1), of "[0..<MLFQ_LEVELS]" "[]"] assms(2) by (auto simp: queued_def)



lemma queued_all_top [simp]: "queued (all_top ps) = set ps"
  by (auto simp: queued_def all_top_def MLFQ_LEVELS_def)







section \<open>Coming back to the scheduler\<close>


section \<open>What a process does with the CPU\<close>

text \<open>
  Where a process goes on when it gets the CPU: a new one in \<^verbatim>\<open>forkret\<close>, of which only the release of its lock concerns the
  scheduler; one that has yielded behind \<^verbatim>\<open>sched\<close> in \<^verbatim>\<open>yield\<close>; one whose quantum has expired there too, and then in the rest of
  \<^verbatim>\<open>clockintr\<close>; one that slept behind \<^verbatim>\<open>sched\<close> in \<^verbatim>\<open>sleep\<close>, which takes the lock of the sleep again. The flag is the value of
  \<^verbatim>\<open>intena\<close> that \<^verbatim>\<open>sched\<close> has saved.
\<close>

datatype resume_point = Fresh | Yielded bool | Ticked bool | Slept lock_id bool

definition resume :: "nat \<Rightarrow> resume_point \<Rightarrow> ('z kern_scheme, unit) km" where
  "resume p k = (case k of
     Fresh \<Rightarrow> release (ProcLock p)
   | Yielded ie \<Rightarrow> yield_rest p ie
   | Ticked ie \<Rightarrow> block [yield_rest p ie, clock_next]
   | Slept lk ie \<Rightarrow> sleep_rest p lk ie)"

text \<open>
  The things a process does that concern the scheduler, each any number of times: it wakes the sleepers on some channels, under
  the lock that goes with them, it kills, it boosts one process or all, it forks, and it waits for a child that has ended.
\<close>

datatype act = Wake lock_id "chan option list" | Kill int | Boost int | Fork | Reap nat

definition plain_lock :: "lock_id \<Rightarrow> bool" where
  "plain_lock lk \<longleftrightarrow> (case lk of ProcLock _ \<Rightarrow> False | _ \<Rightarrow> True)"

definition run_act :: "nat \<Rightarrow> act \<Rightarrow> ('z kern_scheme, unit) km" where
  "run_act p a = (case a of
     Wake lk cns \<Rightarrow> block [acquire lk, for_each cns wakeup, release lk]
   | Kill pd \<Rightarrow> bind (kkill pd) (\<lambda>_. skip)
   | Boost pd \<Rightarrow> bind (boostproc pd) (\<lambda>_. skip)
   | Fork \<Rightarrow> fork_part p
   | Reap pp \<Rightarrow> reap_part pp)"

definition act_ok :: "act \<Rightarrow> bool" where
  "act_ok a \<longleftrightarrow> (case a of Wake lk _ \<Rightarrow> plain_lock lk | _ \<Rightarrow> True)"

definition plain_point :: "resume_point \<Rightarrow> bool" where
  "plain_point k \<longleftrightarrow> (case k of Slept lk _ \<Rightarrow> plain_lock lk | _ \<Rightarrow> True)"

text \<open>A process that was asleep may wake others before it gives the lock back.\<close>

definition work :: "nat \<Rightarrow> resume_point \<Rightarrow> chan option list \<Rightarrow> act list \<Rightarrow> ('z kern_scheme, unit) km" where
  "work p k cns acts = block [
     resume p k,
     (case k of Slept lk _ \<Rightarrow> block [for_each cns wakeup, release lk] | _ \<Rightarrow> skip),
     for_each acts (run_act p)]"

text \<open>
  A process has the CPU from a switch to the next: it goes on, works, and then yields, takes a timer interrupt and yields, is
  out of its quantum in the timer interrupt, sleeps, or exits; or it finds that it has to sleep on under the same lock. \<open>G\<close> says
  which actions may occur.
\<close>

inductive burst :: "(act \<Rightarrow> bool) \<Rightarrow> nat \<Rightarrow> resume_point \<Rightarrow> ('z) kern_scheme \<Rightarrow> resume_point \<Rightarrow> ('z) kern_scheme \<Rightarrow> bool"
  for G :: "act \<Rightarrow> bool" and p :: nat where
  yields: "work p k cns acts t = Ok () x \<Longrightarrow> \<forall>a \<in> set acts. G a \<and> act_ok a \<Longrightarrow> yield x = Switch u \<Longrightarrow>
    burst G p k t (Yielded (intena (this_cpu u))) u"
| ticks: "work p k cns acts t = Ok () x \<Longrightarrow> \<forall>a \<in> set acts. G a \<and> act_ok a \<Longrightarrow> clockintr x = Ok () y \<Longrightarrow> yield y = Switch u \<Longrightarrow>
    burst G p k t (Yielded (intena (this_cpu u))) u"
| expires: "work p k cns acts t = Ok () x \<Longrightarrow> \<forall>a \<in> set acts. G a \<and> act_ok a \<Longrightarrow> clockintr x = Switch u \<Longrightarrow>
    burst G p k t (Ticked (intena (this_cpu u))) u"
| sleeps: "work p k cns acts t = Ok () x \<Longrightarrow> \<forall>a \<in> set acts. G a \<and> act_ok a \<Longrightarrow> plain_lock lk \<Longrightarrow>
    block [acquire lk, for_each ws wakeup, sleep cn lk] x = Switch u \<Longrightarrow> burst G p k t (Slept lk (intena (this_cpu u))) u"
| sleeps_on: "block [sleep_rest p lk ie, for_each ws wakeup, sleep cn lk] t = Switch u \<Longrightarrow>
    burst G p (Slept lk ie) t (Slept lk (intena (this_cpu u))) u"
| exits: "work p k cns acts t = Ok () x \<Longrightarrow> \<forall>a \<in> set acts. G a \<and> act_ok a \<Longrightarrow> kexit_end p st x = Switch u \<Longrightarrow>
    burst G p k t Fresh u"






lemma inv_fields:
  "mlfq_inv exact A qs (s\<lparr>ticks := a\<rparr>) = mlfq_inv exact A qs s" "mlfq_inv exact A qs (s\<lparr>ticks_since_boost := b\<rparr>) = mlfq_inv exact A qs s"
  "mlfq_inv exact A qs (s\<lparr>stimecmp := c\<rparr>) = mlfq_inv exact A qs s" "live A (s\<lparr>stimecmp := c\<rparr>) = live A s"
  by (simp_all add: mlfq_inv_def live_def idle_cpu_def lock_free_def rqs_rep_def rq_rep_def nextp_def)

lemma clock_next_ok: "step_ok exact keep A clock_next"
proof -
  have "clock_next s = Ok () (s\<lparr>stimecmp := (stimecmp s)(tp s := mtime s + 1000000)\<rparr>)" for s :: "'a kern_scheme"
    by (simp add: clock_next_def w_stimecmp_def)
  then show ?thesis unfolding step_ok_def by (metis inv_fields(3,4) extends_refl)
qed



section \<open>Giving the CPU back\<close>








section \<open>The timer interrupt\<close>





section \<open>Rounds\<close>

text \<open>A turn of the scheduler, with all that happens until it comes back; \<open>ks\<close> says where each process goes on.\<close>

inductive cpu_turn :: "(act \<Rightarrow> bool) \<Rightarrow> (nat \<Rightarrow> resume_point) \<Rightarrow> ('z) kern_scheme \<Rightarrow> nat option \<Rightarrow> (nat \<Rightarrow> resume_point) \<Rightarrow> ('z) kern_scheme \<Rightarrow> bool"
  for G :: "act \<Rightarrow> bool" where
  picks: "scheduler_turn s = Switch t \<Longrightarrow> c_proc (this_cpu t) = Some p \<Longrightarrow> plain_point (ks p) \<Longrightarrow> burst G p (ks p) t k u \<Longrightarrow>
    scheduler_rest p u = Ok () v \<Longrightarrow> cpu_turn G ks s (Some p) (ks(p := k)) v"
| idles: "scheduler_turn s = Ok False v \<Longrightarrow> cpu_turn G ks s None ks v"


text \<open>An interrupt while the CPU has no process: the timer, or a device whose handler wakes sleepers.\<close>

inductive interrupt :: "('z) kern_scheme \<Rightarrow> ('z) kern_scheme \<Rightarrow> bool" where
  timer: "clockintr s = Ok () v \<Longrightarrow> interrupt s v"
| device: "plain_lock lk \<Longrightarrow> block [acquire lk, for_each cns wakeup, release lk] s = Ok () v \<Longrightarrow> interrupt s v"

text \<open>Turns, each from a state with \<open>Q\<close>, and interrupts between them; the list has the processes that got the CPU.\<close>

inductive cpu_rounds :: "(('z) kern_scheme \<Rightarrow> bool) \<Rightarrow> (act \<Rightarrow> bool) \<Rightarrow> (nat \<Rightarrow> resume_point) \<Rightarrow> ('z) kern_scheme \<Rightarrow> nat list \<Rightarrow>
    (nat \<Rightarrow> resume_point) \<Rightarrow> ('z) kern_scheme \<Rightarrow> bool" for Q :: "('z) kern_scheme \<Rightarrow> bool" and G :: "act \<Rightarrow> bool" where
  none: "cpu_rounds Q G ks s [] ks s"
| turn: "Q s \<Longrightarrow> cpu_turn G ks s x ks' t \<Longrightarrow> cpu_rounds Q G ks' t ps ks'' v \<Longrightarrow>
    cpu_rounds Q G ks s (case x of None \<Rightarrow> ps | Some p \<Rightarrow> p # ps) ks'' v"
| intr: "interrupt s t \<Longrightarrow> cpu_rounds Q G ks t ps ks' v \<Longrightarrow> cpu_rounds Q G ks s ps ks' v"









section \<open>Processes that only yield\<close>



section \<open>The invariant, the work and the order\<close>












section \<open>Killing a sleeper\<close>

text \<open>
  C23. \<^verbatim>\<open>kkill\<close> of a sleeping process makes it RUNNABLE without putting it in a queue, so the
  process that should wake up to die is not scheduled: if it is the only RUNNABLE one, the next turn finds
  nothing to run, and this lasts until a boost.
\<close>

theorem kkill_strands_sleeper:
  assumes "mlfq_inv exact {} qs s" and "idle_cpu s" and "ticks_since_boost s < BOOST_INTERVAL"
    and "p < NPROC" and "pid (procs s p) = pd" and "\<And>q. q < p \<Longrightarrow> pid (procs s q) \<noteq> pd"
    and "state (procs s p) = SLEEPING" and "\<And>q. q < NPROC \<Longrightarrow> state (procs s q) \<noteq> RUNNABLE"
  shows "\<exists>t u. kkill pd s = Ok 0 t \<and> state (procs t p) = RUNNABLE \<and> p_killed (procs t p) \<and>
    scheduler_turn t = Ok False u \<and> state (procs u p) = RUNNABLE"
proof -
  let ?t = "settle (upd_proc p slain s)"
  have wf: "irq_wf s" and free: "\<And>l. lock_free l s" and n: "noff (this_cpu s) = 0"
    using assms(2) by (auto simp: idle_cpu_def irq_wf_def)
  have sp: "[0..<NPROC] = [0..<p] @ p # [Suc p..<NPROC]"
    using assms(4) upt_add_eq_append [of 0 p "NPROC - p"] upt_conv_Cons [of p NPROC] by simp
  have k: "kkill pd s = Ok 0 ?t" unfolding kkill_def sp
    by (rule kkill_loop_finds [OF wf free]) (use assms(5,6) in auto)
  have rep: "rqs_rep ?t qs" using mlfq_invD(1) [OF assms(1)] by (simp add: rqs_rep_upd_proc slain_def)
  have "q \<notin> queued qs" for q using mlfq_invD(5) [OF assms(1), of q] assms(8) [of q] by auto
  then have "queued qs = {}" by blast
  with rep levels_none [of "turn_state ?t" qs] have "scheduler_levels [0..<MLFQ_LEVELS] (turn_state ?t) = Ok False (turn_state ?t)"
    by simp
  with scheduler_turn_quiet [of ?t] n free assms(3) have "scheduler_turn ?t = Ok False (turn_state ?t)" by simp
  moreover have "state (procs ?t p) = RUNNABLE" "p_killed (procs ?t p)" using assms(7) by (simp_all add: slain_def)
  ultimately show ?thesis using k by auto
qed

definition one_asleep :: kern where
  "one_asleep = zero_sched\<lparr>procs := (\<lambda>_. zero_proc)(4 := zero_proc\<lparr>state := SLEEPING, chan := Some ChanTicks, pid := 7\<rparr>)\<rparr>"

theorem kkill_strands_sleeper_witness:
  "\<exists>t u. kkill 7 one_asleep = Ok 0 t \<and> state (procs t 4) = RUNNABLE \<and> p_killed (procs t 4) \<and>
    scheduler_turn t = Ok False u \<and> state (procs u 4) = RUNNABLE"
proof -
  have "mlfq_inv True {} (\<lambda>_. []) one_asleep"
    by (auto simp: mlfq_inv_def rqs_rep_def rq_rep_def one_asleep_def zero_sched_def zero_proc_def level_ok_def MLFQ_LEVELS_def)
  then show ?thesis
    by (rule kkill_strands_sleeper)
      (auto simp: idle_cpu_def lock_free_def one_asleep_def zero_sched_def zero_proc_def BOOST_INTERVAL_def NPROC_def)
qed

end
