(* ===== verification/Cache.thy ===== *)
theory Cache
  imports Bio
begin

text \<open>
  Correctness of the buffer cache (kernel/bio.c), for a process that runs alone: the list of buffers, the
  invariant \<open>cache_ok\<close>, what every operation does to the blocks as the kernel sees them (\<open>view\<close>) and to the
  disk, and the interface \<open>block_store\<close> that the file system relies on, interpreted on the operations of bio.c.
\<close>

section \<open>The list of buffers\<close>

text \<open>\<open>seg nx pv a xs z\<close>: the links lead from \<open>a\<close> through \<open>xs\<close> to \<open>z\<close> and back.\<close>

primrec seg :: "(nat \<Rightarrow> nat) \<Rightarrow> (nat \<Rightarrow> nat) \<Rightarrow> nat \<Rightarrow> nat list \<Rightarrow> nat \<Rightarrow> bool" where
  "seg nx pv a [] z \<longleftrightarrow> nx a = z \<and> pv z = a"
| "seg nx pv a (x # xs) z \<longleftrightarrow> nx a = x \<and> pv x = a \<and> seg nx pv x xs z"

lemma seg_append: "seg nx pv a (xs @ b # ys) z \<longleftrightarrow> seg nx pv a xs b \<and> seg nx pv b ys z"
  by (induction xs arbitrary: a) auto

lemma seg_ends: "seg nx pv a xs z \<Longrightarrow> nx a = hd (xs @ [z]) \<and> pv z = last (a # xs)"
  by (induction xs arbitrary: a) auto

lemma seg_cong:
  assumes "seg nx pv a xs z" and "\<And>x. x \<in> set (a # xs) \<Longrightarrow> nx' x = nx x" and "\<And>x. x \<in> set (xs @ [z]) \<Longrightarrow> pv' x = pv x"
  shows "seg nx' pv' a xs z"
  using assms by (induction xs arbitrary: a) auto

lemma seg_mirror: "seg nx pv a xs z \<Longrightarrow> seg pv nx z (rev xs) a"
proof (induction xs arbitrary: a)
  case (Cons x xs)
  then have "seg pv nx z (rev xs) x" "pv x = a" "nx a = x" by auto
  then show ?case by (simp add: seg_append)
qed simp


text \<open>Taking a buffer out of the list, and putting one at its front.\<close>

lemma seg_retarget:
  assumes "seg nx pv a xs b" and "nx' (last (a # xs)) = y" and "pv' y = last (a # xs)"
    and "\<And>x. x \<in> set (butlast (a # xs)) \<Longrightarrow> nx' x = nx x" and "\<And>x. x \<in> set xs \<Longrightarrow> pv' x = pv x"
  shows "seg nx' pv' a xs y"
  using assms by (induction xs arbitrary: a) auto

lemma seg_unlink:
  assumes "seg nx pv a xs b" and "seg nx pv b ys z" and "distinct (a # xs @ b # ys)" and "distinct (xs @ b # ys @ [z])"
  shows "seg (nx(pv b := nx b)) (pv(nx b := pv b)) a (xs @ ys) z"
proof -
  let ?nx = "nx(pv b := nx b)" and ?pv = "pv(nx b := pv b)"
  have p: "pv b = last (a # xs)" using seg_ends [OF assms(1)] by simp
  have n: "nx b = hd (ys @ [z])" using seg_ends [OF assms(2)] by simp
  have dis: "distinct (a # xs)" using assms(3) by simp
  then have bl: "last (a # xs) \<notin> set (butlast (a # xs))"
    by (metis append_butlast_last_id distinct_append disjoint_iff list.set_intros(1) list.simps(3))
  have nin: "nx b \<in> set (ys @ [z])" unfolding n by (cases ys) auto
  have left: "seg ?nx ?pv a xs (nx b)"
  proof (rule seg_retarget [OF assms(1)])
    show "?nx x = nx x" if "x \<in> set (butlast (a # xs))" for x using that bl p by auto
    show "?pv x = pv x" if "x \<in> set xs" for x using that nin assms(4) by auto
  qed (simp_all only: p [symmetric] fun_upd_same)
  show ?thesis
  proof (cases ys)
    case Nil
    with left n show ?thesis by simp
  next
    case (Cons y zs)
    have pin: "pv b \<in> set (a # xs)" unfolding p by (rule last_in_set) simp
    have y: "nx b = y" "seg nx pv y zs z" using n Cons assms(2) by simp_all
    have "seg ?nx ?pv y zs z"
    proof (rule seg_cong [OF y(2)])
      show "?nx x = nx x" if "x \<in> set (y # zs)" for x using that pin assms(3) Cons by auto
      show "?pv x = pv x" if "x \<in> set (zs @ [z])" for x using that y(1) assms(4) Cons by auto
    qed
    with left Cons y(1) show ?thesis by (simp add: seg_append)
  qed
qed

lemma seg_push:
  assumes "seg nx pv h ls z" and "b \<notin> set (h # ls)" and "b \<noteq> z" and "h \<notin> set ls" and "distinct (ls @ [z])"
  shows "seg (nx(b := nx h, h := b)) (pv(b := h, nx h := b)) h (b # ls) z"
proof (cases ls)
  case Nil
  with assms show ?thesis by auto
next
  case (Cons y ys)
  then have y: "nx h = y" "seg nx pv y ys z" using assms(1) by auto
  have "seg (nx(b := y, h := b)) (pv(b := h, y := b)) y ys z"
    by (rule seg_cong [OF y(2)]) (use assms Cons in auto)
  with y Cons assms show ?thesis by auto
qed

text \<open>The scans of \<^verbatim>\<open>bget\<close> find the first buffer of the list that satisfies the condition.\<close>

lemma scan_seg:
  assumes "seg nx pv a xs bhead" and "bhead \<notin> set xs" and "length xs < k"
  shows "scan_bufs k nx P (nx a) = Some (find P xs)"
  using assms
proof (induction xs arbitrary: a k)
  case Nil
  then show ?case by (cases k) auto
next
  case (Cons x xs)
  then obtain j where "k = Suc j" by (cases k) auto
  with Cons show ?case by (auto simp: Cons.IH)
qed

section \<open>The cache of a process that runs alone\<close>

abbreviation nxt :: "('z) bio_scheme \<Rightarrow> nat \<Rightarrow> nat" where "nxt s \<equiv> \<lambda>b. b_next (bufs s b)"
abbreviation prv :: "('z) bio_scheme \<Rightarrow> nat \<Rightarrow> nat" where "prv s \<equiv> \<lambda>b. b_prev (bufs s b)"

definition ring :: "(nat \<Rightarrow> buf) \<Rightarrow> nat list \<Rightarrow> bool" where
  "ring bs ls \<longleftrightarrow> seg (\<lambda>b. b_next (bs b)) (\<lambda>b. b_prev (bs b)) bhead ls bhead \<and> distinct ls \<and> set ls = {..<NBUF}"

text \<open>What a buffer says about a block, without its place in the list and its reference count.\<close>

definition content :: "buf \<Rightarrow> bool \<times> uint \<times> uint \<times> blk" where
  "content r = (b_valid r, b_dev r, b_blockno r, b_data r)"

abbreviation caches :: "buf \<Rightarrow> uint \<Rightarrow> bool" where
  "caches r n \<equiv> b_dev r = ROOTDEV \<and> b_blockno r = n"

text \<open>
  \<open>cache_ok Q H s\<close>: the buffers of \<open>Q\<close> are pinned, those of \<open>H\<close> locked by the running process. No block of the
  root device has two buffers, the buffers in use are valid, and the other valid ones agree with the disk.
\<close>

definition buf_ok :: "nat set \<Rightarrow> nat set \<Rightarrow> (uint \<Rightarrow> blk) \<Rightarrow> nat \<Rightarrow> buf \<Rightarrow> bool" where
  "buf_ok Q H dk b r \<longleftrightarrow> b_refcnt r = of_bool (b \<in> Q) + of_bool (b \<in> H) \<and>
     (if b \<in> Q \<union> H then b_valid r \<and> b_dev r = ROOTDEV
      else b_valid r \<longrightarrow> b_dev r = ROOTDEV \<longrightarrow> b_data r = dk (b_blockno r))"

definition cache_ok :: "nat set \<Rightarrow> nat set \<Rightarrow> ('z) bio_scheme \<Rightarrow> bool" where
  "cache_ok Q H s \<longleftrightarrow> calm {} s \<and> Q \<union> H \<subseteq> {..<NBUF} \<and> (\<exists>ls. ring (bufs s) ls) \<and>
     (\<forall>b < NBUF. buf_ok Q H (disk s) b (bufs s b)) \<and>
     (\<forall>b < NBUF. \<forall>c < NBUF. \<forall>n. caches (bufs s b) n \<longrightarrow> caches (bufs s c) n \<longrightarrow> b = c) \<and>
     (\<forall>b < NBUF. sl_locked (slocks s (BufLock b)) = (b \<in> H)) \<and>
     (\<forall>b \<in> H. sl_pid (slocks s (BufLock b)) = pid (procs s (cur s)))"

text \<open>The contents of a block as the kernel sees it: the cached copy if there is one.\<close>

definition view :: "('z) bio_scheme \<Rightarrow> uint \<Rightarrow> blk" where
  "view s n = (case find (\<lambda>b. b_valid (bufs s b) \<and> caches (bufs s b) n) [0..<NBUF] of
     Some b \<Rightarrow> b_data (bufs s b) | None \<Rightarrow> disk s n)"

definition zero_buf :: buf where
  "zero_buf = \<lparr>b_valid = False, b_disk = False, b_dev = 0, b_blockno = 0, b_refcnt = 0, b_prev = 0, b_next = 0, b_data = (\<lambda>_. 0)\<rparr>"

definition zero_slock :: sleeplock where
  "zero_slock = \<lparr>sl_locked = False, sl_name = [], sl_pid = 0\<rparr>"

text \<open>Everything but the cache.\<close>

definition forget_cache :: "('z) bio_scheme \<Rightarrow> ('z) bio_scheme" where
  "forget_cache s = s\<lparr>bufs := (\<lambda>_. zero_buf),
     slocks := (\<lambda>k. case k of BufLock b \<Rightarrow> zero_slock | InodeLock i \<Rightarrow> slocks s (InodeLock i))\<rparr>"

lemma upd_buf_sels [simp]:
  "bufs (upd_buf b f s) = (bufs s)(b := f (bufs s b))" "disk (upd_buf b f s) = disk s" "slocks (upd_buf b f s) = slocks s"
  "tp (upd_buf b f s) = tp s" "cpus (upd_buf b f s) = cpus s" "locks (upd_buf b f s) = locks s" "procs (upd_buf b f s) = procs s"
  "dtrace (upd_buf b f s) = dtrace s"
  by (simp_all add: upd_buf_def)

lemma bio_acq [simp]: "bufs (acq l s) = bufs s" "disk (acq l s) = disk s" "dtrace (acq l s) = dtrace s"
  by (simp_all add: acq_def upd_cpu_def upd_lock_def)

lemma bio_slock [simp]: "bufs (upd_slock k f s) = bufs s" "disk (upd_slock k f s) = disk s" "dtrace (upd_slock k f s) = dtrace s"
  by (simp_all add: upd_slock_def)

lemma upd_buf_comm [kcomm]:
  "upd_buf b f (acq l s) = acq l (upd_buf b f s)" "upd_buf b g (upd_buf b f s) = upd_buf b (\<lambda>r. g (f r)) s"
  "upd_buf b f (upd_slock k h s) = upd_slock k h (upd_buf b f s)"
  by (simp_all add: upd_buf_def acq_def upd_cpu_def upd_lock_def upd_slock_def)

lemma calm_bio [simp]:
  "calm H (upd_buf b f s) = calm H s" "cur (upd_buf b f s) = cur s"
  "calm H (s\<lparr>disk := d, dtrace := x\<rparr>) = calm H s" "cur (s\<lparr>disk := d, dtrace := x\<rparr>) = cur s"
  by (rule calm_cong; simp)+

lemma forget_cache_upd [simp]:
  "forget_cache (upd_buf b f s) = forget_cache s" "forget_cache (upd_slock (BufLock b) g s) = forget_cache s"
  by (auto simp: forget_cache_def upd_buf_def upd_slock_def fun_eq_iff split: sleeplock_id.splits)

lemma ring_length: "ring bs ls \<Longrightarrow> length ls = NBUF"
  unfolding ring_def using distinct_card [of ls] by simp

lemma scan_ring:
  assumes "ring (bufs s) ls"
  shows "scan_bufs (Suc NBUF) (nxt s) P (nxt s bhead) = Some (find P ls)"
    "scan_bufs (Suc NBUF) (prv s) P (prv s bhead) = Some (find P (rev ls))"
proof -
  have n: "bhead \<notin> set ls" "length ls < Suc NBUF" using ring_length [OF assms] assms by (auto simp: ring_def bhead_def)
  from assms have sg: "seg (nxt s) (prv s) bhead ls bhead" by (simp add: ring_def)
  show "scan_bufs (Suc NBUF) (nxt s) P (nxt s bhead) = Some (find P ls)" by (rule scan_seg [OF sg n])
  show "scan_bufs (Suc NBUF) (prv s) P (prv s bhead) = Some (find P (rev ls))"
    by (rule scan_seg [OF seg_mirror [OF sg]]) (use n in simp_all)
qed

lemma ring_cong:
  assumes "ring bs ls" and "\<And>b. b_next (bs' b) = b_next (bs b)" and "\<And>b. b_prev (bs' b) = b_prev (bs b)"
  shows "ring bs' ls"
  using assms by (simp add: ring_def)

lemma cache_okD:
  assumes "cache_ok Q H s"
  shows "calm {} s" "b < NBUF \<Longrightarrow> buf_ok Q H (disk s) b (bufs s b)" "b \<in> H \<Longrightarrow> b < NBUF" "b \<in> Q \<Longrightarrow> b < NBUF"
    "b < NBUF \<Longrightarrow> c < NBUF \<Longrightarrow> caches (bufs s b) n \<Longrightarrow> caches (bufs s c) n \<Longrightarrow> b = c"
    "b < NBUF \<Longrightarrow> sl_locked (slocks s (BufLock b)) = (b \<in> H)"
    "b \<in> H \<Longrightarrow> sl_pid (slocks s (BufLock b)) = pid (procs s (cur s))"
    "b \<in> H \<Longrightarrow> b_valid (bufs s b) \<and> b_dev (bufs s b) = ROOTDEV"
    "b \<in> Q \<Longrightarrow> b_valid (bufs s b) \<and> b_dev (bufs s b) = ROOTDEV"
  using assms by (auto simp: cache_ok_def buf_ok_def)

lemma view_cached:
  assumes "cache_ok Q H s" and "b < NBUF" and "b_valid (bufs s b)" and "caches (bufs s b) n"
  shows "view s n = b_data (bufs s b)"
proof -
  let ?P = "\<lambda>b. b_valid (bufs s b) \<and> caches (bufs s b) n"
  have "find ?P [0..<NBUF] \<noteq> None" unfolding find_None_iff using assms(2-4) by auto
  then obtain c where c: "find ?P [0..<NBUF] = Some c" by blast
  then have "c < NBUF" "?P c" unfolding find_Some_iff by auto
  then have "c = b" using cache_okD(5) [OF assms(1)] assms(2,4) by blast
  with c show ?thesis by (simp add: view_def)
qed

lemma view_uncached:
  assumes "\<And>b. b < NBUF \<Longrightarrow> b_valid (bufs s b) \<Longrightarrow> \<not> caches (bufs s b) n"
  shows "view s n = disk s n"
proof -
  have "find (\<lambda>b. b_valid (bufs s b) \<and> caches (bufs s b) n) [0..<NBUF] = None"
    unfolding find_None_iff using assms by auto
  then show ?thesis by (simp add: view_def)
qed

text \<open>The view depends on the contents of the buffers and the disk only.\<close>

lemma view_cong:
  assumes "\<And>b. b < NBUF \<Longrightarrow> content (bufs t b) = content (bufs s b)" and "disk t n = disk s n"
  shows "view t n = view s n"
proof -
  have f: "b_valid (bufs t b) = b_valid (bufs s b)" "b_dev (bufs t b) = b_dev (bufs s b)"
    "b_blockno (bufs t b) = b_blockno (bufs s b)" "b_data (bufs t b) = b_data (bufs s b)" if "b < NBUF" for b
    using assms(1) [OF that] by (simp_all add: content_def)
  have e: "find (\<lambda>b. b_valid (bufs t b) \<and> caches (bufs t b) n) [0..<NBUF] = find (\<lambda>b. b_valid (bufs s b) \<and> caches (bufs s b) n) [0..<NBUF]"
    by (rule find_cong [OF refl]) (use f in auto)
  show ?thesis
  proof (cases "find (\<lambda>b. b_valid (bufs s b) \<and> caches (bufs s b) n) [0..<NBUF]")
    case None
    with e assms(2) show ?thesis by (simp add: view_def)
  next
    case (Some b)
    then have "b < NBUF" unfolding find_Some_iff by auto
    with e Some f show ?thesis by (simp add: view_def)
  qed
qed

text \<open>Changing one buffer that stays the only one of its block.\<close>

lemma cache_ok_upd:
  assumes ok: "cache_ok Q H s" and b: "b < NBUF" and sub: "Q' \<union> H' \<subseteq> {..<NBUF}"
    and links: "b_next (f (bufs s b)) = b_next (bufs s b)" "b_prev (f (bufs s b)) = b_prev (bufs s b)"
    and new: "buf_ok Q' H' (disk s) b (f (bufs s b))"
    and same: "\<And>c. c \<noteq> b \<Longrightarrow> (c \<in> Q') = (c \<in> Q) \<and> (c \<in> H') = (c \<in> H)"
    and uniq: "\<And>c n. c < NBUF \<Longrightarrow> c \<noteq> b \<Longrightarrow> caches (bufs s c) n \<Longrightarrow> \<not> caches (f (bufs s b)) n"
    and lock: "sl_locked (g (slocks s (BufLock b))) = (b \<in> H')"
      "b \<in> H' \<Longrightarrow> sl_pid (g (slocks s (BufLock b))) = pid (procs s (cur s))"
  shows "cache_ok Q' H' (upd_slock (BufLock b) g (upd_buf b f s))"
proof -
  let ?t = "upd_slock (BufLock b) g (upd_buf b f s)"
  obtain ls where "ring (bufs s) ls" using ok by (auto simp: cache_ok_def)
  then have "ring (bufs ?t) ls" by (rule ring_cong) (use links in auto)
  moreover have "buf_ok Q' H' (disk ?t) c (bufs ?t c)" if "c < NBUF" for c
    using cache_okD(2) [OF ok that] new same [of c] by (auto simp: buf_ok_def)
  moreover have "c = d" if "c < NBUF" "d < NBUF" "caches (bufs ?t c) n" "caches (bufs ?t d) n" for c d n
    using cache_okD(5) [OF ok that(1,2)] that uniq [of c n] uniq [of d n] by (auto split: if_splits)
  moreover have "sl_locked (slocks ?t (BufLock c)) = (c \<in> H')" if "c < NBUF" for c
    using cache_okD(6) [OF ok that] same [of c] lock(1) by auto
  moreover have "sl_pid (slocks ?t (BufLock c)) = pid (procs ?t (cur ?t))" if "c \<in> H'" for c
    using cache_okD(7) [OF ok, of c] same [of c] lock(2) that by auto
  ultimately show ?thesis using cache_okD(1) [OF ok] sub by (auto simp: cache_ok_def)
qed

lemma upd_slock_id [simp]: "upd_slock k (\<lambda>x. x) s = s" "upd_slock k id s = s"
  by (simp_all add: upd_slock_def)

section \<open>What the operations do\<close>

abbreviation hold_by :: "int \<Rightarrow> sleeplock \<Rightarrow> sleeplock" where
  "hold_by i k \<equiv> k\<lparr>sl_locked := True, sl_pid := i\<rparr>"

lemma bget_cached:
  assumes ok: "cache_ok Q H s" and b: "b < NBUF" and n: "caches (bufs s b) n" and free: "b \<notin> H"
  shows "bget ROOTDEV n s = Ok b (upd_slock (BufLock b) (hold_by (pid (procs s (cur s))))
    (upd_buf b (\<lambda>r. r\<lparr>b_refcnt := b_refcnt r + 1\<rparr>) s))"
proof -
  let ?P = "\<lambda>b. b_dev (bufs s b) = ROOTDEV \<and> b_blockno (bufs s b) = n"
  let ?u = "upd_buf b (\<lambda>r. r\<lparr>b_refcnt := b_refcnt r + 1\<rparr>) s"
  obtain ls where ls: "ring (bufs s) ls" using ok by (auto simp: cache_ok_def)
  have "find ?P ls \<noteq> None" unfolding find_None_iff using ls b n by (auto simp: ring_def)
  then obtain c where c: "find ?P ls = Some c" by blast
  then have "c \<in> set ls" "?P c" unfolding find_Some_iff by auto
  then have "c = b" using cache_okD(5) [OF ok] b n ls by (auto simp: ring_def)
  with c have scan: "scan_bufs (Suc NBUF) (nxt s) ?P (nxt s bhead) = Some (Some b)" by (simp only: scan_ring(1) [OF ls])
  note calm = cache_okD(1) [OF ok]
  have rel: "release BcacheLock (acq BcacheLock ?u) = Ok () ?u" by (rule calm_release [of "{}"]) (use calm in simp_all)
  have sl: "acquiresleep (BufLock b) ?u = Ok () (upd_slock (BufLock b) (hold_by (pid (procs ?u (cur ?u)))) ?u)"
    by (rule acquiresleep_free [of "{}"]) (use calm cache_okD(6) [OF ok b] free in simp_all)
  show ?thesis
    unfolding bget_def using calm scan rel sl by (simp add: calm_acquire kcomm del: scan_bufs.simps)
qed

lemma bget_fresh:
  assumes ok: "cache_ok Q H s" and n: "\<And>b. b < NBUF \<Longrightarrow> \<not> caches (bufs s b) n" and free: "c < NBUF" "c \<notin> Q \<union> H"
  shows "\<exists>b. b < NBUF \<and> b \<notin> Q \<union> H \<and> bget ROOTDEV n s = Ok b (upd_slock (BufLock b) (hold_by (pid (procs s (cur s))))
    (upd_buf b (\<lambda>r. r\<lparr>b_dev := ROOTDEV, b_blockno := n, b_valid := False, b_refcnt := 1\<rparr>) s))"
proof -
  let ?P = "\<lambda>b. b_dev (bufs s b) = ROOTDEV \<and> b_blockno (bufs s b) = n" and ?R = "\<lambda>b. b_refcnt (bufs s b) = 0"
  obtain ls where ls: "ring (bufs s) ls" using ok by (auto simp: cache_ok_def)
  have "find ?P ls = None" unfolding find_None_iff using ls n by (auto simp: ring_def)
  then have scan1: "scan_bufs (Suc NBUF) (nxt s) ?P (nxt s bhead) = Some None" by (simp only: scan_ring(1) [OF ls])
  have ref: "?R b \<longleftrightarrow> b \<notin> Q \<union> H" if "b < NBUF" for b
    using cache_okD(2) [OF ok that] by (auto simp: buf_ok_def of_bool_def)
  have "find ?R (rev ls) \<noteq> None" unfolding find_None_iff using ls free ref [OF free(1)] by (auto simp: ring_def)
  then obtain b where b: "find ?R (rev ls) = Some b" by blast
  then have "b \<in> set (rev ls)" "?R b" unfolding find_Some_iff by (metis nth_mem)+
  then have bn: "b < NBUF" "b \<notin> Q \<union> H" using ls ref by (auto simp: ring_def)
  from b have scan2: "scan_bufs (Suc NBUF) (prv s) ?R (prv s bhead) = Some (Some b)" by (simp only: scan_ring(2) [OF ls])
  let ?u = "upd_buf b (\<lambda>r. r\<lparr>b_dev := ROOTDEV, b_blockno := n, b_valid := False, b_refcnt := 1\<rparr>) s"
  note calm = cache_okD(1) [OF ok]
  have rel: "release BcacheLock (acq BcacheLock ?u) = Ok () ?u" by (rule calm_release [of "{}"]) (use calm in simp_all)
  have sl: "acquiresleep (BufLock b) ?u = Ok () (upd_slock (BufLock b) (hold_by (pid (procs ?u (cur ?u)))) ?u)"
    by (rule acquiresleep_free [of "{}"]) (use calm cache_okD(6) [OF ok bn(1)] bn(2) in simp_all)
  have "bget ROOTDEV n s = Ok b (upd_slock (BufLock b) (hold_by (pid (procs s (cur s)))) ?u)"
    unfolding bget_def using calm scan1 scan2 rel sl by (simp add: calm_acquire kcomm del: scan_bufs.simps)
  with bn show ?thesis by blast
qed

text \<open>No buffer is free: the disk block cannot be read.\<close>

lemma bget_full:
  assumes ok: "cache_ok Q H s" and n: "\<And>b. b < NBUF \<Longrightarrow> \<not> caches (bufs s b) n" and full: "Q \<union> H = {..<NBUF}"
  shows "bget ROOTDEV n s = Panic ''bget: no buffers''"
proof -
  let ?P = "\<lambda>b. b_dev (bufs s b) = ROOTDEV \<and> b_blockno (bufs s b) = n" and ?R = "\<lambda>b. b_refcnt (bufs s b) = 0"
  obtain ls where ls: "ring (bufs s) ls" using ok by (auto simp: cache_ok_def)
  have "find ?P ls = None" unfolding find_None_iff using ls n by (auto simp: ring_def)
  then have scan1: "scan_bufs (Suc NBUF) (nxt s) ?P (nxt s bhead) = Some None" by (simp only: scan_ring(1) [OF ls])
  have ref: "\<not> ?R b" if "b < NBUF" for b
    using cache_okD(2) [OF ok that] full that by (auto simp: buf_ok_def of_bool_def)
  then have "find ?R (rev ls) = None" unfolding find_None_iff using ls by (auto simp: ring_def)
  then have scan2: "scan_bufs (Suc NBUF) (prv s) ?R (prv s bhead) = Some None" by (simp only: scan_ring(2) [OF ls])
  show ?thesis
    unfolding bget_def using cache_okD(1) [OF ok] scan1 scan2 by (simp add: calm_acquire del: scan_bufs.simps)
qed

text \<open>\<open>held s b n d\<close>: buffer \<open>b\<close> is the one of block \<open>n\<close> and holds \<open>d\<close>.\<close>

definition has_block :: "('z) bio_scheme \<Rightarrow> nat \<Rightarrow> uint \<Rightarrow> blk \<Rightarrow> bool" where
  "has_block s b n d \<longleftrightarrow> content (bufs s b) = (True, ROOTDEV, n, d)"

lemma has_block_sels:
  "has_block s b n d \<longleftrightarrow> b_valid (bufs s b) \<and> b_dev (bufs s b) = ROOTDEV \<and> b_blockno (bufs s b) = n \<and> b_data (bufs s b) = d"
  by (auto simp: has_block_def content_def)

lemma has_block_view: "cache_ok Q H s \<Longrightarrow> b < NBUF \<Longrightarrow> has_block s b n d \<Longrightarrow> view s n = d"
  using view_cached [of Q H s b n] by (simp add: has_block_sels)

lemma view_load:
  assumes ok: "cache_ok Q H s" and ok': "cache_ok Q' H' t" and b: "b < NBUF" and new: "has_block t b n (view s n)"
    and clean: "caches (bufs s b) n \<or> b \<notin> Q \<union> H" and dk: "disk t = disk s"
    and same: "\<And>c. c \<noteq> b \<Longrightarrow> content (bufs t c) = content (bufs s c)"
  shows "view t = view s"
proof
  fix m
  have c: "b_valid (bufs t c) = b_valid (bufs s c)" "b_dev (bufs t c) = b_dev (bufs s c)"
    "b_blockno (bufs t c) = b_blockno (bufs s c)" "b_data (bufs t c) = b_data (bufs s c)" if "c \<noteq> b" for c
    using same [OF that] by (simp_all add: content_def)
  show "view t m = view s m"
  proof (cases "m = n")
    case True
    with has_block_view [OF ok' b new] show ?thesis by simp
  next
    case False
    have nb: "\<not> caches (bufs t b) m" using new False by (simp add: has_block_sels)
    show ?thesis
    proof (cases "\<exists>c < NBUF. c \<noteq> b \<and> b_valid (bufs s c) \<and> caches (bufs s c) m")
      case True
      then obtain d where "d < NBUF" "d \<noteq> b" "b_valid (bufs s d)" "caches (bufs s d) m" by blast
      with view_cached [OF ok, of d m] view_cached [OF ok', of d m] c [of d] show ?thesis by simp
    next
      case no: False
      then have "view t m = disk t m" using nb c by (intro view_uncached) metis
      moreover have "view s m = disk s m"
      proof (cases "b_valid (bufs s b) \<and> caches (bufs s b) m")
        case True
        with clean False have "b \<notin> Q \<union> H" by auto
        with True cache_okD(2) [OF ok b] view_cached [OF ok b] show ?thesis by (auto simp: buf_ok_def)
      next
        case nob: False
        show ?thesis by (rule view_uncached) (use no nob in blast)
      qed
      ultimately show ?thesis using dk by simp
    qed
  qed
qed

lemma bread_finish:
  assumes ok: "cache_ok Q H s" and b: "b < NBUF" "b \<notin> H"
    and links: "b_next (f (bufs s b)) = b_next (bufs s b)" "b_prev (f (bufs s b)) = b_prev (bufs s b)"
    and ref: "b_refcnt (f (bufs s b)) = of_bool (b \<in> Q) + 1" and cont: "content (f (bufs s b)) = (True, ROOTDEV, n, view s n)"
    and clean: "caches (bufs s b) n \<or> b \<notin> Q \<union> H" and uniq: "\<And>c. c < NBUF \<Longrightarrow> c \<noteq> b \<Longrightarrow> \<not> caches (bufs s c) n"
    and t: "t = upd_slock (BufLock b) (hold_by (pid (procs s (cur s)))) (upd_buf b f s)"
  shows "cache_ok Q (insert b H) t \<and> has_block t b n (view s n) \<and> view t = view s \<and> disk t = disk s \<and>
    forget_cache t = forget_cache s \<and> (\<forall>c. c \<noteq> b \<longrightarrow> content (bufs t c) = content (bufs s c)) \<and>
    (\<forall>c \<in> Q. b_blockno (bufs s c) = n \<longrightarrow> b = c) \<and> (caches (bufs s b) n \<or> b \<notin> Q \<union> H)"
proof -
  have f: "b_valid (f (bufs s b))" "b_dev (f (bufs s b)) = ROOTDEV" "b_blockno (f (bufs s b)) = n" using cont by (simp_all add: content_def)
  have okt: "cache_ok Q (insert b H) t" unfolding t
  proof (rule cache_ok_upd [OF ok b(1)])
    show "Q \<union> insert b H \<subseteq> {..<NBUF}" using cache_okD(3,4) [OF ok] b(1) by auto
    show "buf_ok Q (insert b H) (disk s) b (f (bufs s b))" using ref f by (simp add: buf_ok_def)
    show "\<not> caches (f (bufs s b)) m" if "c < NBUF" "c \<noteq> b" "caches (bufs s c) m" for c m
      using uniq [of c] that f by auto
  qed (use links in auto)
  have hb: "has_block t b n (view s n)" using cont by (simp add: has_block_def t)
  have same: "content (bufs t c) = content (bufs s c)" if "c \<noteq> b" for c using that by (simp add: t)
  have "view t = view s" by (rule view_load [OF ok okt b(1) hb clean _ same]) (simp_all add: t)
  moreover have "b = c" if "c \<in> Q" "b_blockno (bufs s c) = n" for c
    using that uniq [of c] cache_okD(4,9) [OF ok that(1)] by auto
  ultimately show ?thesis using okt hb same clean by (simp add: t)
qed

lemma bread_ok:
  assumes ok: "cache_ok Q H s" and nh: "\<And>b. b \<in> H \<Longrightarrow> b_blockno (bufs s b) \<noteq> n"
    and room: "(\<exists>b < NBUF. caches (bufs s b) n) \<or> (\<exists>c < NBUF. c \<notin> Q \<union> H)"
  shows "\<exists>b t. bread ROOTDEV n s = Ok b t \<and> b < NBUF \<and> b \<notin> H \<and> cache_ok Q (insert b H) t \<and> has_block t b n (view s n) \<and>
    view t = view s \<and> disk t = disk s \<and> forget_cache t = forget_cache s \<and>
    (\<forall>c. c \<noteq> b \<longrightarrow> content (bufs t c) = content (bufs s c)) \<and> (\<forall>c \<in> Q. b_blockno (bufs s c) = n \<longrightarrow> b = c) \<and> (caches (bufs s b) n \<or> b \<notin> Q \<union> H)"
proof (cases "\<exists>b < NBUF. caches (bufs s b) n")
  case True
  then obtain b where b: "b < NBUF" and n: "caches (bufs s b) n" by blast
  have bH: "b \<notin> H" using nh n by blast
  let ?r = "bufs s b"
  let ?f = "\<lambda>r. if b_valid ?r then r\<lparr>b_refcnt := b_refcnt r + 1\<rparr>
    else r\<lparr>b_refcnt := b_refcnt r + 1, b_data := disk s (b_blockno r), b_valid := True\<rparr>"
  let ?t = "upd_slock (BufLock b) (hold_by (pid (procs s (cur s)))) (upd_buf b ?f s)"
  have run: "bread ROOTDEV n s = Ok b ?t"
    unfolding bread_def using bget_cached [OF ok b n bH] by (simp add: disk_rw_def kcomm)
  have uniq: "\<not> caches (bufs s c) n" if "c < NBUF" "c \<noteq> b" for c using cache_okD(5) [OF ok that(1) b _ n] that(2) by blast
  have vw: "view s n = (if b_valid ?r then b_data ?r else disk s n)"
  proof (cases "b_valid ?r")
    case True
    with view_cached [OF ok b True n] show ?thesis by simp
  next
    case False
    have "view s n = disk s n" by (rule view_uncached) (use uniq False in blast)
    with False show ?thesis by simp
  qed
  have "b_refcnt ?r = of_bool (b \<in> Q)" using cache_okD(2) [OF ok b] bH by (simp add: buf_ok_def)
  then have "cache_ok Q (insert b H) ?t \<and> has_block ?t b n (view s n) \<and> view ?t = view s \<and> disk ?t = disk s \<and>
    forget_cache ?t = forget_cache s \<and> (\<forall>c. c \<noteq> b \<longrightarrow> content (bufs ?t c) = content (bufs s c)) \<and>
    (\<forall>c \<in> Q. b_blockno (bufs s c) = n \<longrightarrow> b = c) \<and> (caches (bufs s b) n \<or> b \<notin> Q \<union> H)"
    by (intro bread_finish [where f = ?f, OF ok b bH]) (use n uniq vw in \<open>auto simp: content_def\<close>)
  with run b bH show ?thesis by blast
next
  case False
  then have no: "\<not> caches (bufs s b) n" if "b < NBUF" for b using that by blast
  from room False obtain c where "c < NBUF" "c \<notin> Q \<union> H" by blast
  from bget_fresh [OF ok no this] obtain b where b: "b < NBUF" "b \<notin> Q \<union> H"
    and bg: "bget ROOTDEV n s = Ok b (upd_slock (BufLock b) (hold_by (pid (procs s (cur s))))
      (upd_buf b (\<lambda>r. r\<lparr>b_dev := ROOTDEV, b_blockno := n, b_valid := False, b_refcnt := 1\<rparr>) s))" by blast
  let ?f = "\<lambda>r. r\<lparr>b_dev := ROOTDEV, b_blockno := n, b_refcnt := 1, b_data := disk s n, b_valid := True\<rparr>"
  let ?t = "upd_slock (BufLock b) (hold_by (pid (procs s (cur s)))) (upd_buf b ?f s)"
  have run: "bread ROOTDEV n s = Ok b ?t"
    unfolding bread_def using bg by (simp add: disk_rw_def kcomm)
  have "view s n = disk s n" by (rule view_uncached) (use no in blast)
  then have "cache_ok Q (insert b H) ?t \<and> has_block ?t b n (view s n) \<and> view ?t = view s \<and> disk ?t = disk s \<and>
    forget_cache ?t = forget_cache s \<and> (\<forall>c. c \<noteq> b \<longrightarrow> content (bufs ?t c) = content (bufs s c)) \<and>
    (\<forall>c \<in> Q. b_blockno (bufs s c) = n \<longrightarrow> b = c) \<and> (caches (bufs s b) n \<or> b \<notin> Q \<union> H)"
    by (intro bread_finish [where f = ?f, OF ok b(1)]) (use b(2) no in \<open>auto simp: content_def\<close>)
  with run b show ?thesis by blast
qed

lemma cache_ok_unique:
  assumes "cache_ok Q H s" and "b \<in> H" and "c < NBUF" and "b_dev (bufs s c) = ROOTDEV"
    and "b_blockno (bufs s c) = b_blockno (bufs s b)"
  shows "c = b"
  using cache_okD(5) [OF assms(1,3) cache_okD(3) [OF assms(1,2)]] cache_okD(8) [OF assms(1,2)] assms(4,5) by metis

lemma upd_data_ok:
  assumes ok: "cache_ok Q H s" and b: "b \<in> H" and hb: "has_block s b n d"
  shows "\<exists>t. upd_data b g s = Ok () t \<and> cache_ok Q H t \<and> has_block t b n (g d) \<and> view t = (view s)(n := g d) \<and>
    disk t = disk s \<and> forget_cache t = forget_cache s \<and> (\<forall>c. c \<noteq> b \<longrightarrow> content (bufs t c) = content (bufs s c))"
proof -
  let ?f = "\<lambda>r. r\<lparr>b_data := g (b_data r)\<rparr>"
  let ?t = "upd_buf b ?f s"
  have bn: "b < NBUF" by (rule cache_okD(3) [OF ok b])
  note uq = cache_ok_unique [OF ok b]
  have okt: "cache_ok Q H (upd_slock (BufLock b) id ?t)"
  proof (rule cache_ok_upd [OF ok bn])
    show "Q \<union> H \<subseteq> {..<NBUF}" using cache_okD(3,4) [OF ok] by auto
    show "buf_ok Q H (disk s) b (?f (bufs s b))" using cache_okD(2) [OF ok bn] b by (simp add: buf_ok_def)
  qed (use cache_okD(6) [OF ok bn] cache_okD(7) [OF ok] in \<open>auto dest: uq\<close>)
  then have okt: "cache_ok Q H ?t" by simp
  have hbt: "has_block ?t b n (g d)" using hb by (simp add: has_block_sels)
  have "view ?t m = view s m" if "m \<noteq> n" for m
  proof -
    have "find (\<lambda>c. b_valid (bufs ?t c) \<and> caches (bufs ?t c) m) [0..<NBUF] = find (\<lambda>c. b_valid (bufs s c) \<and> caches (bufs s c) m) [0..<NBUF]"
      by (rule find_cong) (auto)
    moreover have "c \<noteq> b" if "find (\<lambda>c. b_valid (bufs s c) \<and> caches (bufs s c) m) [0..<NBUF] = Some c" for c
      using that hb \<open>m \<noteq> n\<close> unfolding find_Some_iff by (auto simp: has_block_sels)
    ultimately show ?thesis by (auto simp: view_def split: option.splits)
  qed
  then have "view ?t = (view s)(n := g d)" using has_block_view [OF okt bn hbt] by auto
  with okt hbt show ?thesis by (intro exI [of _ ?t]) (simp add: upd_data_def)
qed

lemma holds_buf:
  assumes "cache_ok Q H s" and "b \<in> H"
  shows "holdingsleep (BufLock b) s = Ok True s"
  using holdingsleep_calm [OF cache_okD(1) [OF assms(1)], of "BufLock b"] cache_okD(3,6,7) [OF assms(1)] assms(2) by simp

definition wrote_disk :: "uint \<Rightarrow> blk \<Rightarrow> ('z) bio_scheme \<Rightarrow> ('z) bio_scheme" where
  "wrote_disk n d s = s\<lparr>disk := (disk s)(n := d), dtrace := dtrace s @ [(n, d)]\<rparr>"

lemma wrote_disk_sels [simp]:
  "bufs (wrote_disk n d s) = bufs s" "slocks (wrote_disk n d s) = slocks s" "disk (wrote_disk n d s) = (disk s)(n := d)"
  "dtrace (wrote_disk n d s) = dtrace s @ [(n, d)]" "procs (wrote_disk n d s) = procs s" "cur (wrote_disk n d s) = cur s"
  "calm K (wrote_disk n d s) = calm K s"
  by (simp_all add: wrote_disk_def)

lemma bwrite_ok:
  assumes ok: "cache_ok Q H s" and b: "b \<in> H" and hb: "has_block s b n d"
  shows "bwrite b s = Ok () (wrote_disk n d s)" "cache_ok Q H (wrote_disk n d s)" "view (wrote_disk n d s) = view s"
proof -
  have bn: "b < NBUF" by (rule cache_okD(3) [OF ok b])
  have n: "b_blockno (bufs s b) = n" "b_data (bufs s b) = d" "b_valid (bufs s b)" "caches (bufs s b) n"
    using hb by (simp_all add: has_block_sels)
  show "bwrite b s = Ok () (wrote_disk n d s)"
    using holds_buf [OF ok b] n by (simp add: bwrite_def disk_rw_def wrote_disk_def)
  have uq: "c = b" if "c < NBUF" "caches (bufs s c) n" for c using cache_okD(5) [OF ok that(1) bn that(2) n(4)] .
  show okt: "cache_ok Q H (wrote_disk n d s)"
    using ok b uq n(2) unfolding cache_ok_def by (auto simp: buf_ok_def)
  show "view (wrote_disk n d s) = view s"
  proof
    fix m
    show "view (wrote_disk n d s) m = view s m"
    proof (cases "m = n")
      case True
      with view_cached [OF ok bn n(3,4)] view_cached [OF okt bn] n show ?thesis by simp
    next
      case False
      then show ?thesis by (intro view_cong) simp_all
    qed
  qed
qed

lemma refcnt_ok:
  assumes ok: "cache_ok Q H s" and b: "b \<in> H" and sub: "Q' \<subseteq> {..<NBUF}"
    and ref: "g (b_refcnt (bufs s b)) = of_bool (b \<in> Q') + 1" and same: "\<And>c. c \<noteq> b \<Longrightarrow> (c \<in> Q') = (c \<in> Q)"
  defines "t \<equiv> upd_buf b (\<lambda>r. r\<lparr>b_refcnt := g (b_refcnt r)\<rparr>) s"
  shows "cache_ok Q' H t" "view t = view s" "forget_cache t = forget_cache s" "\<And>c. content (bufs t c) = content (bufs s c)"
    "disk t = disk s"
proof -
  let ?f = "\<lambda>r. r\<lparr>b_refcnt := g (b_refcnt r)\<rparr>"
  have bn: "b < NBUF" by (rule cache_okD(3) [OF ok b])
  note uq = cache_ok_unique [OF ok b]
  have "cache_ok Q' H (upd_slock (BufLock b) id (upd_buf b ?f s))"
  proof (rule cache_ok_upd [OF ok bn])
    show "Q' \<union> H \<subseteq> {..<NBUF}" using cache_okD(3) [OF ok] sub by auto
    show "buf_ok Q' H (disk s) b (?f (bufs s b))" using cache_okD(8) [OF ok b] b ref by (simp add: buf_ok_def)
  qed (use cache_okD(6) [OF ok bn] cache_okD(7) [OF ok] same in \<open>auto dest: uq\<close>)
  then show "cache_ok Q' H t" by (simp add: t_def)
  show c: "content (bufs t c) = content (bufs s c)" for c by (simp add: t_def content_def)
  show dk: "disk t = disk s" by (simp add: t_def)
  show "forget_cache t = forget_cache s" by (simp add: t_def)
  show "view t = view s" by (rule ext, rule view_cong) (simp_all add: c dk)
qed

lemma bpin_ok:
  assumes ok: "cache_ok Q H s" and b: "b \<in> H" and "b \<notin> Q"
  shows "\<exists>t. bpin b s = Ok () t \<and> cache_ok (insert b Q) H t \<and> view t = view s \<and> disk t = disk s \<and>
    forget_cache t = forget_cache s \<and> (\<forall>c. content (bufs t c) = content (bufs s c))"
proof -
  let ?t = "upd_buf b (\<lambda>r. r\<lparr>b_refcnt := b_refcnt r + 1\<rparr>) s"
  have "b_refcnt (bufs s b) + 1 = of_bool (b \<in> insert b Q) + 1"
    using cache_okD(2,3) [OF ok] b assms(3) by (simp add: buf_ok_def)
  note r = refcnt_ok [where g = "\<lambda>x. x + 1", OF ok b _ this]
  have "insert b Q \<subseteq> {..<NBUF}" using cache_okD(3,4) [OF ok] b by auto
  moreover have "bpin b s = Ok () ?t"
    using cache_okD(1) [OF ok] calm_release [of "{}" ?t BcacheLock] by (simp add: bpin_def calm_acquire kcomm)
  ultimately show ?thesis using r by (intro exI [of _ ?t]) auto
qed

lemma bunpin_ok:
  assumes ok: "cache_ok Q H s" and b: "b \<in> H" and "b \<in> Q"
  shows "\<exists>t. bunpin b s = Ok () t \<and> cache_ok (Q - {b}) H t \<and> view t = view s \<and> disk t = disk s \<and>
    forget_cache t = forget_cache s \<and> (\<forall>c. content (bufs t c) = content (bufs s c))"
proof -
  let ?t = "upd_buf b (\<lambda>r. r\<lparr>b_refcnt := b_refcnt r - 1\<rparr>) s"
  have "b_refcnt (bufs s b) - 1 = of_bool (b \<in> Q - {b}) + 1"
    using cache_okD(2,3) [OF ok] b assms(3) by (simp add: buf_ok_def)
  note r = refcnt_ok [where g = "\<lambda>x. x - 1", OF ok b _ this]
  have "Q - {b} \<subseteq> {..<NBUF}" using cache_okD(4) [OF ok] by auto
  moreover have "bunpin b s = Ok () ?t"
    using cache_okD(1) [OF ok] calm_release [of "{}" ?t BcacheLock] by (simp add: bunpin_def calm_acquire kcomm)
  ultimately show ?thesis using r by (intro exI [of _ ?t]) auto
qed

text \<open>Moving a released buffer to the front of the list.\<close>

definition relink :: "nat \<Rightarrow> ('z) bio_scheme \<Rightarrow> ('z) bio_scheme" where
  "relink b s0 = (
     let s1 = upd_buf (b_next (bufs s0 b)) (\<lambda>r. r\<lparr>b_prev := b_prev (bufs s0 b)\<rparr>) s0;
         s2 = upd_buf (b_prev (bufs s1 b)) (\<lambda>r. r\<lparr>b_next := b_next (bufs s1 b)\<rparr>) s1;
         s3 = upd_buf b (\<lambda>r. r\<lparr>b_next := b_next (bufs s2 bhead)\<rparr>) s2;
         s4 = upd_buf b (\<lambda>r. r\<lparr>b_prev := bhead\<rparr>) s3;
         s5 = upd_buf (b_next (bufs s4 bhead)) (\<lambda>r. r\<lparr>b_prev := b\<rparr>) s4
     in upd_buf bhead (\<lambda>r. r\<lparr>b_next := b\<rparr>) s5)"

lemma relink_block:
  "block [
      modify (\<lambda>s. upd_buf (b_next (bufs s b)) (\<lambda>r. r\<lparr>b_prev := b_prev (bufs s b)\<rparr>) s),
      modify (\<lambda>s. upd_buf (b_prev (bufs s b)) (\<lambda>r. r\<lparr>b_next := b_next (bufs s b)\<rparr>) s),
      modify (\<lambda>s. upd_buf b (\<lambda>r. r\<lparr>b_next := b_next (bufs s bhead)\<rparr>) s),
      modify (upd_buf b (\<lambda>r. r\<lparr>b_prev := bhead\<rparr>)),
      modify (\<lambda>s. upd_buf (b_next (bufs s bhead)) (\<lambda>r. r\<lparr>b_prev := b\<rparr>) s),
      modify (upd_buf bhead (\<lambda>r. r\<lparr>b_next := b\<rparr>))] = modify (relink b)"
  by (rule ext) (simp only: block.simps bind_simps kstep_simps relink_def Let_def)

lemma brelse_relink:
  "brelse b = bind (holdingsleep (BufLock b)) (\<lambda>h. if \<not> h then panic ''brelse'' else block [
     releasesleep (BufLock b), acquire BcacheLock, modify (upd_buf b (\<lambda>r. r\<lparr>b_refcnt := b_refcnt r - 1\<rparr>)),
     ifm (\<lambda>s. b_refcnt (bufs s b) = 0) (modify (relink b)) skip, release BcacheLock])"
  by (simp only: brelse_def relink_block)

lemma relink_acq: "relink b (acq l s) = acq l (relink b s)"
  by (simp only: relink_def Let_def bio_acq upd_buf_comm(1))

lemma set_links:
  "nxt (upd_buf c (\<lambda>r. r\<lparr>b_prev := x\<rparr>) s) = nxt s" "prv (upd_buf c (\<lambda>r. r\<lparr>b_prev := x\<rparr>) s) = (prv s)(c := x)"
  "nxt (upd_buf c (\<lambda>r. r\<lparr>b_next := x\<rparr>) s) = (nxt s)(c := x)" "prv (upd_buf c (\<lambda>r. r\<lparr>b_next := x\<rparr>) s) = prv s"
  by (auto simp: fun_eq_iff)

lemma relink_links:
  assumes "b \<noteq> bhead" and "b_next (bufs s b) \<noteq> b"
  shows "nxt (relink b s) = (let nx1 = (nxt s)(prv s b := nxt s b) in nx1(b := nx1 bhead, bhead := b))"
    "prv (relink b s) = (let nx1 = (nxt s)(prv s b := nxt s b); pv1 = (prv s)(nxt s b := prv s b) in pv1(b := bhead, nx1 bhead := b))"
proof -
  define s1 where "s1 = upd_buf (nxt s b) (\<lambda>r. r\<lparr>b_prev := prv s b\<rparr>) s"
  define s2 where "s2 = upd_buf (prv s1 b) (\<lambda>r. r\<lparr>b_next := nxt s1 b\<rparr>) s1"
  define s3 where "s3 = upd_buf b (\<lambda>r. r\<lparr>b_next := nxt s2 bhead\<rparr>) s2"
  define s4 where "s4 = upd_buf b (\<lambda>r. r\<lparr>b_prev := bhead\<rparr>) s3"
  define s5 where "s5 = upd_buf (nxt s4 bhead) (\<lambda>r. r\<lparr>b_prev := b\<rparr>) s4"
  note d = s1_def s2_def s3_def s4_def s5_def
  have r: "relink b s = upd_buf bhead (\<lambda>r. r\<lparr>b_next := b\<rparr>) s5" unfolding relink_def Let_def d ..
  let ?nx1 = "(nxt s)(prv s b := nxt s b)" and ?pv1 = "(prv s)(nxt s b := prv s b)"
  have 1: "nxt s1 = nxt s" "prv s1 = ?pv1" unfolding s1_def by (rule set_links)+
  have "prv s1 b = prv s b" using assms(2) fun_cong [OF 1(2), of b] by simp
  then have 2: "nxt s2 = ?nx1" "prv s2 = ?pv1" unfolding s2_def set_links 1 fun_cong [OF 1(1)] by simp_all
  have 3: "nxt s3 = ?nx1(b := ?nx1 bhead)" "prv s3 = ?pv1"
    unfolding s3_def set_links fun_cong [OF 2(1), of bhead] 2 by (rule refl)+
  have 4: "nxt s4 = ?nx1(b := ?nx1 bhead)" "prv s4 = ?pv1(b := bhead)" unfolding s4_def set_links 3 by simp_all
  have h: "nxt s4 bhead = ?nx1 bhead" using fun_cong [OF 4(1), of bhead] assms(1) by simp
  have 5: "nxt s5 = ?nx1(b := ?nx1 bhead)" "prv s5 = ?pv1(b := bhead, ?nx1 bhead := b)" unfolding s5_def set_links 4 h by simp_all
  show "nxt (relink b s) = (let nx1 = ?nx1 in nx1(b := nx1 bhead, bhead := b))"
    "prv (relink b s) = (let nx1 = ?nx1; pv1 = ?pv1 in pv1(b := bhead, nx1 bhead := b))"
    unfolding r set_links 5 Let_def by simp_all
qed

lemma relink_frame:
  "content (bufs (relink b s) c) = content (bufs s c)" "b_refcnt (bufs (relink b s) c) = b_refcnt (bufs s c)"
  "forget_cache (relink b s) = forget_cache s" "disk (relink b s) = disk s" "slocks (relink b s) = slocks s"
  "procs (relink b s) = procs s" "calm K (relink b s) = calm K s" "cur (relink b s) = cur s"
proof -
  have c: "content (bufs (upd_buf a (\<lambda>r. r\<lparr>b_prev := x\<rparr>) u) c) = content (bufs u c)"
    "content (bufs (upd_buf a (\<lambda>r. r\<lparr>b_next := x\<rparr>) u) c) = content (bufs u c)"
    "b_refcnt (bufs (upd_buf a (\<lambda>r. r\<lparr>b_prev := x\<rparr>) u) c) = b_refcnt (bufs u c)"
    "b_refcnt (bufs (upd_buf a (\<lambda>r. r\<lparr>b_next := x\<rparr>) u) c) = b_refcnt (bufs u c)" for a x c and u :: "'a bio_scheme"
    by (simp_all add: content_def)
  show "content (bufs (relink b s) c) = content (bufs s c)" "b_refcnt (bufs (relink b s) c) = b_refcnt (bufs s c)"
    unfolding relink_def Let_def c by (rule refl)+
qed (simp_all only: relink_def Let_def forget_cache_upd upd_buf_sels calm_bio)

lemma ring_relink:
  assumes "ring (bufs s) ls" and "b < NBUF"
  shows "\<exists>ls'. ring (bufs (relink b s)) ls'"
proof -
  from assms obtain xs ys where ls: "ls = xs @ b # ys" by (metis ring_def lessThan_iff split_list)
  have sg: "seg (nxt s) (prv s) bhead xs b" "seg (nxt s) (prv s) b ys bhead" and dis: "distinct ls" and st: "set ls = {..<NBUF}"
    using assms(1) by (simp_all add: ring_def ls seg_append)
  have nh: "bhead \<notin> set ls" using st by (simp add: bhead_def)
  have "nxt s b = hd (ys @ [bhead])" using seg_ends [OF sg(2)] by simp
  then have nb: "b_next (bufs s b) \<noteq> b" using dis nh ls by (cases ys) auto
  have u: "seg ((nxt s)(prv s b := nxt s b)) ((prv s)(nxt s b := prv s b)) bhead (xs @ ys) bhead"
    by (rule seg_unlink [OF sg]) (use dis nh ls in auto)
  have "seg (nxt (relink b s)) (prv (relink b s)) bhead (b # xs @ ys) bhead"
    using seg_push [OF u, of b] relink_links [of b s] nb dis nh ls by (simp add: Let_def)
  moreover have "set (b # xs @ ys) = {..<NBUF}" "distinct (b # xs @ ys)" using st dis ls by auto
  ultimately show ?thesis unfolding ring_def by blast
qed

lemma cache_ok_relink:
  assumes ok: "cache_ok Q H s" and b: "b < NBUF"
  shows "cache_ok Q H (relink b s)"
proof -
  have f: "b_valid (bufs (relink b s) c) = b_valid (bufs s c)" "b_dev (bufs (relink b s) c) = b_dev (bufs s c)"
    "b_blockno (bufs (relink b s) c) = b_blockno (bufs s c)" "b_data (bufs (relink b s) c) = b_data (bufs s c)" for c
    using relink_frame(1) [of b s c] by (simp_all add: content_def)
  obtain ls where "ring (bufs s) ls" using ok by (auto simp: cache_ok_def)
  then have "\<exists>ls'. ring (bufs (relink b s)) ls'" by (rule ring_relink [OF _ b])
  with ok show ?thesis by (simp add: cache_ok_def buf_ok_def f relink_frame)
qed

lemma brelse_ok:
  assumes ok: "cache_ok Q H s" and b: "b \<in> H" and hb: "has_block s b n d" and clean: "b \<in> Q \<or> d = disk s n"
  shows "\<exists>t. brelse b s = Ok () t \<and> cache_ok Q (H - {b}) t \<and> view t = view s \<and> disk t = disk s \<and>
    forget_cache t = forget_cache s \<and> (\<forall>c. content (bufs t c) = content (bufs s c))"
proof -
  let ?g = "\<lambda>k. k\<lparr>sl_locked := False, sl_pid := 0\<rparr>" and ?f = "\<lambda>r. r\<lparr>b_refcnt := b_refcnt r - 1\<rparr>"
  let ?u = "upd_slock (BufLock b) ?g (upd_buf b ?f s)"
  have bn: "b < NBUF" by (rule cache_okD(3) [OF ok b])
  note calm = cache_okD(1) [OF ok] and uq = cache_ok_unique [OF ok b]
  have r: "b_refcnt (bufs s b) - 1 = of_bool (b \<in> Q)" using cache_okD(2) [OF ok bn] b by (simp add: buf_ok_def)
  have oku: "cache_ok Q (H - {b}) ?u"
  proof (rule cache_ok_upd [OF ok bn])
    show "Q \<union> (H - {b}) \<subseteq> {..<NBUF}" using cache_okD(3,4) [OF ok] by auto
    show "buf_ok Q (H - {b}) (disk s) b (?f (bufs s b))"
      using cache_okD(8) [OF ok b] r clean hb by (auto simp: buf_ok_def has_block_sels)
  qed (auto dest: uq)
  have relu: "release BcacheLock (acq BcacheLock w) = Ok () w" if "calm {} w" for w :: "'a bio_scheme"
    by (rule calm_release [OF that]) simp
  note start = holds_buf [OF ok b] releasesleep_calm [OF calm, of "BufLock b"]
  show ?thesis
  proof (cases "b \<in> Q")
    case True
    have "brelse b s = Ok () ?u"
      using start calm relu [of ?u] r True by (simp add: brelse_def calm_acquire kcomm)
    moreover have "view ?u = view s" by (rule ext, rule view_cong) (simp_all add: content_def)
    ultimately show ?thesis using oku by (intro exI [of _ ?u]) (simp add: content_def)
  next
    case False
    let ?t = "relink b ?u"
    have "brelse b s = Ok () ?t"
      using start calm relu [of ?t] r False by (simp add: brelse_relink calm_acquire kcomm relink_acq relink_frame)
    moreover have "cache_ok Q (H - {b}) ?t" 
      by (rule cache_ok_relink [OF oku bn])
    moreover have "view ?t = view s" by (rule ext, rule view_cong) (simp_all add: relink_frame, simp_all add: content_def)
    ultimately show ?thesis by (intro exI [of _ ?t]) (simp add: relink_frame, simp add: content_def)
  qed
qed

section \<open>binit\<close>

definition unused_buf :: "buf \<Rightarrow> bool" where
  "unused_buf r \<longleftrightarrow> \<not> b_valid r \<and> b_refcnt r = 0 \<and> b_dev r \<noteq> ROOTDEV"

definition binit_inv :: "('z) bio_scheme \<Rightarrow> nat \<Rightarrow> ('z) bio_scheme \<Rightarrow> bool" where
  "binit_inv s i t \<longleftrightarrow> calm {} t \<and> seg (nxt t) (prv t) bhead (rev [0..<i]) bhead \<and> (\<forall>b < NBUF. unused_buf (bufs t b)) \<and>
     (\<forall>b < i. \<not> sl_locked (slocks t (BufLock b))) \<and> disk t = disk s \<and> dtrace t = dtrace s \<and>
     bio.more t = bio.more s \<and> console_ready t = console_ready s"

lemma calm_initlock:
  assumes "calm {} s"
  shows "\<exists>t. initlock l nm s = Ok () t \<and> calm {} t \<and> bufs t = bufs s \<and> slocks t = slocks s \<and> disk t = disk s \<and> dtrace t = dtrace s \<and>
     bio.more t = bio.more s \<and> console_ready t = console_ready s"
proof -
  let ?t = "upd_lock l (\<lambda>k. k\<lparr>lk_name := nm, locked := False, lk_cpu := None\<rparr>) s"
  have "initlock l nm s = Ok () ?t" by (simp add: initlock_def upd_lock_def)
  moreover have "calm {} ?t" using assms by (auto simp: calm_def irq_wf_def settle_id_iff lock_free_def upd_lock_def)
  ultimately show ?thesis by (intro exI [of _ ?t]) (simp add: upd_lock_def console_ready_def)
qed

lemma upd_rest [simp]:
  "bio.more (upd_buf b f s) = bio.more s" "bio.more (upd_slock k g s) = bio.more s"
  "console_ready (upd_buf b f s) = console_ready s" "console_ready (upd_slock k g t) = console_ready t"
  by (simp_all add: upd_buf_def upd_slock_def console_ready_def)

lemma binit_one_step:
  assumes inv: "binit_inv s0 i s" and i: "i < NBUF"
  shows "\<exists>t. binit_one i s = Ok () t \<and> binit_inv s0 (Suc i) t"
proof -
  have ne: "i \<noteq> bhead" using i by (simp add: bhead_def)
  define s1 where "s1 = upd_buf i (\<lambda>r. r\<lparr>b_next := nxt s bhead\<rparr>) s"
  define s2 where "s2 = upd_buf i (\<lambda>r. r\<lparr>b_prev := bhead\<rparr>) s1"
  have "calm {} s2" using inv by (simp add: binit_inv_def s1_def s2_def)
  from calm_initlock [OF this, of "SleepLk (BufLock i)" "''sleep lock''"] obtain s3 where
    s3: "initlock (SleepLk (BufLock i)) ''sleep lock'' s2 = Ok () s3" "calm {} s3" "bufs s3 = bufs s2" "slocks s3 = slocks s2"
      "disk s3 = disk s2" "dtrace s3 = dtrace s2" "bio.more s3 = bio.more s2" "console_ready s3 = console_ready s2" by blast
  define s4 where "s4 = upd_slock (BufLock i) (\<lambda>k. k\<lparr>sl_name := ''buffer'', sl_locked := False, sl_pid := 0\<rparr>) s3"
  have init: "initsleeplock (BufLock i) ''buffer'' s2 = Ok () s4" using s3(1) by (simp add: initsleeplock_def s4_def kcomm)
  define s5 where "s5 = upd_buf (nxt s4 bhead) (\<lambda>r. r\<lparr>b_prev := i\<rparr>) s4"
  define t where "t = upd_buf bhead (\<lambda>r. r\<lparr>b_next := i\<rparr>) s5"
  have run: "binit_one i s = Ok () t" using init by (simp add: binit_one_def s1_def s2_def s5_def t_def)
  have 2: "nxt s2 = (nxt s)(i := nxt s bhead)" "prv s2 = (prv s)(i := bhead)" unfolding s2_def s1_def set_links by (rule refl)+
  have 4: "nxt s4 = nxt s2" "prv s4 = prv s2" by (simp_all add: s4_def s3(3))
  have h: "nxt s4 bhead = nxt s bhead" using fun_cong [OF 2(1), of bhead] ne by (simp add: s4_def s3(3))
  have t: "nxt t = (nxt s)(i := nxt s bhead, bhead := i)" "prv t = (prv s)(i := bhead, nxt s bhead := i)"
    unfolding t_def s5_def set_links h 4 2 by (rule refl)+
  have "seg (nxt t) (prv t) bhead (i # rev [0..<i]) bhead"
    unfolding t by (rule seg_push) (use inv ne i in \<open>auto simp: binit_inv_def bhead_def\<close>)
  moreover have un: "unused_buf ((bufs u) b) \<Longrightarrow> unused_buf (bufs (upd_buf c (\<lambda>r. r\<lparr>b_next := x\<rparr>) u) b)"
    "unused_buf ((bufs u) b) \<Longrightarrow> unused_buf (bufs (upd_buf c (\<lambda>r. r\<lparr>b_prev := x\<rparr>) u) b)" for u :: "'a bio_scheme" and b c x
    by (auto simp: unused_buf_def)
  have "unused_buf (bufs t b)" if "b < NBUF" for b
    unfolding t_def s5_def by (intro un) (use inv that in \<open>simp add: s4_def s3(3) s2_def s1_def un binit_inv_def del: upd_buf_sels(1)\<close>)
  moreover have "calm {} t" using s3(2) by (simp add: t_def s5_def s4_def)
  ultimately show ?thesis using run inv
    by (intro exI [of _ t]) (auto simp: binit_inv_def t_def s5_def s4_def s3 s2_def s1_def less_Suc_eq simp del: upd_buf_sels(1))
qed

lemma binit_loop:
  assumes "binit_inv s0 0 s" and "k \<le> NBUF"
  shows "\<exists>t. for_each [0..<k] binit_one s = Ok () t \<and> binit_inv s0 k t"
  using assms(2)
proof (induction k)
  case 0
  with assms(1) show ?case by simp
next
  case (Suc k)
  then obtain t where t: "for_each [0..<k] binit_one s = Ok () t" "binit_inv s0 k t" by auto
  from binit_one_step [OF t(2)] Suc.prems obtain u where "binit_one k t = Ok () u" "binit_inv s0 (Suc k) u" by auto
  with t(1) show ?case by (auto simp: for_each_append)
qed

lemma binit_ok:
  assumes "calm {} s" and "\<And>b. b < NBUF \<Longrightarrow> unused_buf (bufs s b)"
  shows "\<exists>t. binit s = Ok () t \<and> cache_ok {} {} t \<and> view t = disk s \<and> disk t = disk s \<and> dtrace t = dtrace s \<and>
     bio.more t = bio.more s \<and> console_ready t = console_ready s"
proof -
  from calm_initlock [OF assms(1), of BcacheLock "''bcache''"] obtain s1 where
    s1: "initlock BcacheLock ''bcache'' s = Ok () s1" "calm {} s1" "bufs s1 = bufs s" "slocks s1 = slocks s" "disk s1 = disk s"
      "dtrace s1 = dtrace s" "bio.more s1 = bio.more s" "console_ready s1 = console_ready s" by blast
  let ?s2 = "upd_buf bhead (\<lambda>r. r\<lparr>b_prev := bhead, b_next := bhead\<rparr>) s1"
  have "binit_inv s 0 ?s2" using s1 assms(2) by (auto simp: binit_inv_def bhead_def)
  from binit_loop [OF this, of NBUF] obtain t where t: "for_each [0..<NBUF] binit_one ?s2 = Ok () t" "binit_inv s NBUF t" by auto
  have run: "binit s = Ok () t" using s1(1) t(1) by (simp add: binit_def kcomm)
  have "ring (bufs t) (rev [0..<NBUF])" using t(2) by (auto simp: binit_inv_def ring_def)
  then have "cache_ok {} {} t" using t(2) by (auto simp: binit_inv_def cache_ok_def buf_ok_def unused_buf_def)
  moreover have "view t m = disk t m" for m by (rule view_uncached) (use t(2) in \<open>auto simp: binit_inv_def unused_buf_def\<close>)
  then have "view t = disk s" using t(2) by (auto simp: binit_inv_def fun_eq_iff)
  ultimately show ?thesis using run t(2) by (auto simp: binit_inv_def)
qed

section \<open>The interface of the cache\<close>

text \<open>
  What the file system relies on: \<open>ok H\<close> with \<open>H\<close> the buffers in use, \<open>seen\<close> the blocks as the kernel sees them,
  \<open>stored\<close> the blocks on the disk, \<open>at s b n d\<close> that buffer \<open>b\<close> holds block \<open>n\<close> with the data \<open>d\<close>.
\<close>

locale block_store =
  fixes ok :: "nat set \<Rightarrow> 's \<Rightarrow> bool" and seen stored :: "'s \<Rightarrow> uint \<Rightarrow> blk" and at :: "'s \<Rightarrow> nat \<Rightarrow> uint \<Rightarrow> blk \<Rightarrow> bool"
    and get :: "uint \<Rightarrow> ('s, nat) km" and change :: "nat \<Rightarrow> (blk \<Rightarrow> blk) \<Rightarrow> ('s, unit) km"
    and put give :: "nat \<Rightarrow> ('s, unit) km"
  assumes get_law: "ok {} s \<Longrightarrow> \<exists>b t. get n s = Ok b t \<and> ok {b} t \<and> at t b n (seen s n) \<and> seen t = seen s \<and> stored t = stored s"
    and change_law: "ok {b} s \<Longrightarrow> at s b n d \<Longrightarrow>
      \<exists>t. change b g s = Ok () t \<and> ok {b} t \<and> at t b n (g d) \<and> seen t = (seen s)(n := g d) \<and> stored t = stored s"
    and put_law: "ok {b} s \<Longrightarrow> at s b n d \<Longrightarrow>
      \<exists>t. put b s = Ok () t \<and> ok {b} t \<and> at t b n d \<and> seen t = seen s \<and> stored t = (stored s)(n := d)"
    and give_law: "ok {b} s \<Longrightarrow> at s b n d \<Longrightarrow> stored s n = d \<Longrightarrow>
      \<exists>t. give b s = Ok () t \<and> ok {} t \<and> seen t = seen s \<and> stored t = stored s"
begin

lemma write_through:
  assumes "ok {} s"
  shows "\<exists>t. bind (get n) (\<lambda>b. block [change b g, put b, give b]) s = Ok () t \<and> ok {} t \<and>
    seen t = (seen s)(n := g (seen s n)) \<and> stored t = (stored s)(n := g (seen s n))"
proof -
  from get_law [OF assms] obtain b s1 where
    1: "get n s = Ok b s1" "ok {b} s1" "at s1 b n (seen s n)" "seen s1 = seen s" "stored s1 = stored s" by blast
  from change_law [OF 1(2,3), of g] obtain s2 where
    2: "change b g s1 = Ok () s2" "ok {b} s2" "at s2 b n (g (seen s n))" "seen s2 = (seen s)(n := g (seen s n))" "stored s2 = stored s"
    using 1 by auto
  from put_law [OF 2(2,3)] obtain s3 where
    3: "put b s2 = Ok () s3" "ok {b} s3" "at s3 b n (g (seen s n))" "seen s3 = seen s2" "stored s3 = (stored s)(n := g (seen s n))"
    using 2 by auto
  from give_law [OF 3(2,3)] obtain s4 where
    4: "give b s3 = Ok () s4" "ok {} s4" "seen s4 = seen s3" "stored s4 = stored s3" using 3 by auto
  with 1 2 3 show ?thesis by auto
qed

text \<open>A block written through the cache is read back by everyone after, and no other block changes.\<close>

lemma write_then_read:
  assumes "ok {} s"
  shows "\<exists>c t. bind (bind (get n) (\<lambda>b. block [change b g, put b, give b])) (\<lambda>_. get n) s = Ok c t \<and>
    at t c n (g (seen s n)) \<and> (\<forall>m. m \<noteq> n \<longrightarrow> seen t m = seen s m) \<and> stored t = (stored s)(n := g (seen s n))"
proof -
  from write_through [OF assms] obtain u where u: "bind (get n) (\<lambda>b. block [change b g, put b, give b]) s = Ok () u"
    "ok {} u" "seen u = (seen s)(n := g (seen s n))" "stored u = (stored s)(n := g (seen s n))" by blast
  from get_law [OF u(2), of n] u(3,4) obtain c t where
    "get n u = Ok c t" "at t c n (g (seen s n))" "seen t = (seen s)(n := g (seen s n))" "stored t = (stored s)(n := g (seen s n))" by auto
  moreover from this(1) have "bind (bind (get n) (\<lambda>b. block [change b g, put b, give b])) (\<lambda>_. get n) s = Ok c t"
    using bind_Ok [where m = "bind (get n) (\<lambda>b. block [change b g, put b, give b])" and f = "\<lambda>_. get n", OF u(1)] by simp
  ultimately show ?thesis by auto
qed

end

lemma NBUF_pos: "0 < NBUF"
  by (simp add: NBUF_def MAXOPBLOCKS_def)

interpretation bcache: block_store "cache_ok {}" view disk
  "\<lambda>s b n d. b < NBUF \<and> has_block s b n d" "bread ROOTDEV" upd_data bwrite brelse
proof unfold_locales
  fix s :: "'a bio_scheme" and n
  assume ok: "cache_ok {} {} s"
  from bread_ok [OF ok, of n] NBUF_pos show "\<exists>b t. bread ROOTDEV n s = Ok b t \<and> cache_ok {} {b} t \<and>
      (b < NBUF \<and> has_block t b n (view s n)) \<and> view t = view s \<and> disk t = disk s" by auto
next
  fix s :: "'a bio_scheme" and b n d g
  assume ok: "cache_ok {} {b} s" and at: "b < NBUF \<and> has_block s b n d"
  from upd_data_ok [OF ok, of b n d g] at show "\<exists>t. upd_data b g s = Ok () t \<and> cache_ok {} {b} t \<and>
      (b < NBUF \<and> has_block t b n (g d)) \<and> view t = (view s)(n := g d) \<and> disk t = disk s" by auto
  have "has_block (wrote_disk n d s) b n d" using at by (simp add: has_block_def)
  with bwrite_ok [OF ok, of b n d] at show "\<exists>t. bwrite b s = Ok () t \<and> cache_ok {} {b} t \<and>
      (b < NBUF \<and> has_block t b n d) \<and> view t = view s \<and> disk t = (disk s)(n := d)"
    by (intro exI [of _ "wrote_disk n d s"]) simp
  assume "disk s n = d"
  with brelse_ok [OF ok, of b n d] at show "\<exists>t. brelse b s = Ok () t \<and> cache_ok {} {} t \<and> view t = view s \<and> disk t = disk s"
    by auto
qed

section \<open>The cache in use\<close>

text \<open>One process runs; the memory of the kernel is zeroed.\<close>

definition one_proc :: kern where
  "one_proc = zero_sched\<lparr>cpus := (\<lambda>_. \<lparr>c_proc = Some 1, noff = 0, intena = True, sie = True\<rparr>),
     procs := (\<lambda>_. zero_proc)(1 := zero_proc\<lparr>state := RUNNING, pid := 1\<rparr>)\<rparr>"

definition zero_con :: con where
  "zero_con = slk.extend (phys.extend (kern.extend one_proc
     (phys.fields (\<lambda>_. 0) 0 (PHYSTOP - 6 * PGSIZE) (KERNBASE + PGSIZE) KERNBASE 0 (\<lambda>_. 0)))
     (slk.fields (\<lambda>_. zero_slock)))
     (con.fields (\<lambda>_. 0) [] True [] False False False (\<lambda>_. 0) 0 0 0 (\<lambda>_. None))"

definition zero_bio :: bio where
  "zero_bio = con.extend zero_con (bio.fields (\<lambda>_. zero_buf) (\<lambda>_ _. 0) [])"

lemmas zero_bio_defs = zero_bio_def zero_con_def one_proc_def zero_sched_def
  kern.defs phys.defs slk.defs con.defs bio.defs

lemma zero_bio_calm: "calm {} zero_bio"
  by (auto simp: calm_def irq_wf_def settle_id_iff lock_free_def zero_bio_defs zero_proc_def)

lemma zero_bio_unused: "unused_buf (bufs zero_bio b)"
  by (simp add: unused_buf_def zero_bio_defs zero_buf_def ROOTDEV_def)

text \<open>
  C25. \<^verbatim>\<open>binit\<close> on zeroed memory links the NBUF buffers into a list that leads back to its head in both directions and
  contains each of them once; no block has two buffers, nothing is locked or in use, and what the kernel sees is the disk.
\<close>

theorem binit_establishes_cache:
  assumes "calm {} s" and "\<And>b. b < NBUF \<Longrightarrow> unused_buf (bufs s b)"
  shows "\<exists>t. binit s = Ok () t \<and> cache_ok {} {} t \<and> view t = disk s \<and> disk t = disk s \<and> dtrace t = dtrace s"
  using binit_ok [OF assms] by blast

theorem binit_establishes_cache_witness:
  "\<exists>t. binit zero_bio = Ok () t \<and> cache_ok {} {} t \<and> view t = disk zero_bio"
  using binit_establishes_cache [OF zero_bio_calm zero_bio_unused] by blast

text \<open>
  C24. The buffer cache is coherent: reading a block, changing its data, writing it and releasing the buffer returns
  at every step, and whoever reads the block next gets a locked buffer with the new data; the disk holds it too,
  and no other block changes, in the cache or on the disk.
\<close>

theorem buffer_cache_coherent:
  assumes "cache_ok {} {} s"
  shows "\<exists>c t. bind (bind (bread ROOTDEV n) (\<lambda>b. block [upd_data b g, bwrite b, brelse b])) (\<lambda>_. bread ROOTDEV n) s = Ok c t \<and>
    (c < NBUF \<and> has_block t c n (g (view s n))) \<and> (\<forall>m. m \<noteq> n \<longrightarrow> view t m = view s m) \<and>
    disk t = (disk s)(n := g (view s n))"
  by (rule bcache.write_then_read [OF assms])

theorem buffer_cache_coherent_witness:
  "\<exists>u c t. binit zero_bio = Ok () u \<and>
    bind (bind (bread ROOTDEV 7) (\<lambda>b. block [upd_data b (put32 0 5), bwrite b, brelse b])) (\<lambda>_. bread ROOTDEV 7) u = Ok c t \<and>
    has_block t c 7 (put32 0 5 (\<lambda>_. 0)) \<and> disk t 7 = put32 0 5 (\<lambda>_. 0)"
proof -
  obtain u where u: "binit zero_bio = Ok () u" "cache_ok {} {} u" "view u = disk zero_bio"
    using binit_ok [OF zero_bio_calm zero_bio_unused] by blast
  have "view u 7 = (\<lambda>_. 0)" using u(3) by (simp add: zero_bio_defs)
  with buffer_cache_coherent [OF u(2), of 7 "put32 0 5"] u(1) show ?thesis by auto
qed

end
