(* ===== verification/Crash.thy ===== *)
theory Crash
  imports Log Cache
begin

text \<open>
  The log (\<^verbatim>\<open>kernel/log.c\<close>) over the buffer cache: transactions are atomic with respect to crashes. The disk records
  every block written to it in order; a crash keeps any prefix of these writes. The transactions are specified as a
  machine over a store of blocks (\<open>lspec\<close>, \<open>spec_step\<close>), the code refines it (\<open>step_refines\<close>), and the recovery
  at boot gives the store as some prefix of the operations has saved it.
\<close>

section \<open>Frames\<close>

lemma forget_cache_sels:
  assumes "forget_cache t = forget_cache s"
  shows "klog t = klog s" "dtrace t = dtrace s" "disk t = disk s" "console_ready t = console_ready s"
    "uart_tx t = uart_tx s"
  using arg_cong [OF assms, of klog] arg_cong [OF assms, of dtrace] arg_cong [OF assms, of disk]
    arg_cong [OF assms, of console_ready] arg_cong [OF assms, of uart_tx]
  by (simp_all add: forget_cache_def console_ready_def)

lemma out_bio [simp]: "bufs (out bs s) = bufs s" "disk (out bs s) = disk s" "dtrace (out bs s) = dtrace s" "klog (out cs u) = klog u"
  by (simp_all add: out_def)

lemma cache_ok_out [simp]: "cache_ok Q H (out bs s) = cache_ok Q H s"
  by (simp add: cache_ok_def)

lemma view_out [simp]: "view (out bs s) = view s"
  by (rule ext, rule view_cong) simp_all

lemma cache_ok_log [simp]: "cache_ok Q H (upd_log f s) = cache_ok Q H s"
proof -
  have "calm K (upd_log f s) = calm K s" "cur (upd_log f s) = cur s" for K by (rule calm_cong; simp add: upd_log_def)+
  then show ?thesis by (simp add: cache_ok_def upd_log_def)
qed

lemma upd_log_sels [simp]:
  "bufs (upd_log f s) = bufs s" "disk (upd_log f s) = disk s" "dtrace (upd_log f s) = dtrace s" "klog (upd_log f s) = f (klog s)"
  "console_ready (upd_log f s) = console_ready s" "view (upd_log f s) = view s"
proof -
  show "view (upd_log f s) = view s" by (rule ext, rule view_cong) (simp_all add: upd_log_def)
qed (simp_all add: upd_log_def console_ready_def)

lemma wrote_disk_log [simp]: "klog (wrote_disk n d s) = klog s" "console_ready (wrote_disk n d s) = console_ready s"
  by (simp_all add: wrote_disk_def console_ready_def)

text \<open>A block without a pinned buffer is the same in the cache and on the disk.\<close>

lemma view_clean:
  assumes ok: "cache_ok Q {} s" and np: "\<And>b. b \<in> Q \<Longrightarrow> b_blockno (bufs s b) \<noteq> n"
  shows "view s n = disk s n"
proof (cases "\<exists>b < NBUF. b_valid (bufs s b) \<and> caches (bufs s b) n")
  case True
  then obtain b where b: "b < NBUF" "b_valid (bufs s b)" "caches (bufs s b) n" by blast
  then have "b \<notin> Q" using np by auto
  with cache_okD(2) [OF ok b(1)] b view_cached [OF ok b] show ?thesis by (auto simp: buf_ok_def)
next
  case False
  then show ?thesis by (intro view_uncached) blast
qed

section \<open>Two buffers at once\<close>

definition pins :: "nat set \<Rightarrow> uint list \<Rightarrow> ('z) bio_scheme \<Rightarrow> bool" where
  "pins Q xs s \<longleftrightarrow> (\<forall>b \<in> Q. b_blockno (bufs s b) \<in> set xs) \<and> (\<forall>x \<in> set xs. \<exists>b \<in> Q. b_blockno (bufs s b) = x)"

lemma pins_cong:
  assumes "\<And>c. c \<in> Q \<Longrightarrow> content (bufs t c) = content (bufs s c)"
  shows "pins Q xs t = pins Q xs s"
proof -
  have "b_blockno (bufs t c) = b_blockno (bufs s c)" if "c \<in> Q" for c using assms [OF that] by (simp add: content_def)
  then show ?thesis by (simp add: pins_def)
qed

lemma content_pinned:
  assumes ok: "cache_ok Q H s" and b: "b \<in> Q" and hb: "has_block t b n (view s n)" and n: "b_blockno (bufs s b) = n"
  shows "content (bufs t b) = content (bufs s b)"
  using hb view_cached [OF ok cache_okD(4) [OF ok b]] cache_okD(9) [OF ok b] n
  by (auto simp: has_block_def content_def)

lemma bread_pinned:
  assumes ok: "cache_ok Q H s" and nh: "\<And>b. b \<in> H \<Longrightarrow> b_blockno (bufs s b) \<noteq> n"
    and room: "(\<exists>b \<in> Q. b_blockno (bufs s b) = n) \<or> (\<exists>c < NBUF. c \<notin> Q \<union> H)"
  shows "\<exists>b t. bread ROOTDEV n s = Ok b t \<and> b < NBUF \<and> b \<notin> H \<and> cache_ok Q (insert b H) t \<and> has_block t b n (view s n) \<and>
    view t = view s \<and> disk t = disk s \<and> forget_cache t = forget_cache s \<and>
    (\<forall>c. c \<in> Q \<or> c \<noteq> b \<longrightarrow> content (bufs t c) = content (bufs s c)) \<and> (b \<in> Q \<longleftrightarrow> (\<exists>c \<in> Q. b_blockno (bufs s c) = n))"
proof -
  have "(\<exists>b < NBUF. caches (bufs s b) n) \<or> (\<exists>c < NBUF. c \<notin> Q \<union> H)"
    using room cache_okD(4,9) [OF ok] by blast
  from bread_ok [OF ok nh this] obtain b t where
    t: "bread ROOTDEV n s = Ok b t" "b < NBUF" "b \<notin> H" "cache_ok Q (insert b H) t" "has_block t b n (view s n)"
      "view t = view s" "disk t = disk s" "forget_cache t = forget_cache s"
      "\<forall>c. c \<noteq> b \<longrightarrow> content (bufs t c) = content (bufs s c)" "\<forall>c \<in> Q. b_blockno (bufs s c) = n \<longrightarrow> b = c"
      "caches (bufs s b) n \<or> b \<notin> Q \<union> H" by blast
  have "content (bufs t c) = content (bufs s c)" if "c \<in> Q \<or> c \<noteq> b" for c
    using t(9) content_pinned [OF ok, of b t n] t(5,11) that by (cases "c = b") auto
  with t show ?thesis by blast
qed

lemma has_block_cong: "content (bufs t b) = content (bufs s b) \<Longrightarrow> has_block t b n d = has_block s b n d"
  by (simp add: has_block_def)

definition pair_free :: "nat set \<Rightarrow> bool" where
  "pair_free Q \<longleftrightarrow> (\<exists>c < NBUF. \<exists>d < NBUF. c \<noteq> d \<and> c \<notin> Q \<and> d \<notin> Q)"

lemma two_breads:
  assumes ok: "cache_ok Q {} s" and ne: "l \<noteq> x" and free: "c < NBUF" "c \<notin> Q"
    and room: "(\<exists>b \<in> Q. b_blockno (bufs s b) = x) \<or> pair_free Q"
    and np: "\<And>b. b \<in> Q \<Longrightarrow> b_blockno (bufs s b) \<noteq> l"
  shows "\<exists>b1 s1 b2 t. bread ROOTDEV l s = Ok b1 s1 \<and> klog s1 = klog s \<and> bread ROOTDEV x s1 = Ok b2 t \<and> b1 \<noteq> b2 \<and> b1 \<notin> Q \<and>
    (b2 \<in> Q \<longleftrightarrow> (\<exists>c \<in> Q. b_blockno (bufs s c) = x)) \<and> cache_ok Q {b1, b2} t \<and> has_block t b1 l (view s l) \<and>
    has_block t b2 x (view s x) \<and> view t = view s \<and> disk t = disk s \<and> forget_cache t = forget_cache s \<and>
    (\<forall>c \<in> Q. content (bufs t c) = content (bufs s c))"
proof -
  from bread_pinned [OF ok, of l] free obtain b1 s1 where
    1: "bread ROOTDEV l s = Ok b1 s1" "cache_ok Q {b1} s1" "has_block s1 b1 l (view s l)" "view s1 = view s" "disk s1 = disk s"
      "forget_cache s1 = forget_cache s" "\<forall>c. c \<in> Q \<or> c \<noteq> b1 \<longrightarrow> content (bufs s1 c) = content (bufs s c)"
      "b1 \<in> Q \<longleftrightarrow> (\<exists>c \<in> Q. b_blockno (bufs s c) = l)" by auto
  have bq: "b_blockno (bufs s1 c) = b_blockno (bufs s c)" if "c \<in> Q" for c using 1(7) that by (simp add: content_def)
  have b1: "b1 \<notin> Q" using 1(8) np by blast
  have "b_blockno (bufs s1 b) \<noteq> x" if "b \<in> {b1}" for b using 1(3) ne that by (simp add: has_block_sels)
  moreover have "(\<exists>b \<in> Q. b_blockno (bufs s1 b) = x) \<or> (\<exists>c < NBUF. c \<notin> Q \<union> {b1})"
    using room
  proof
    assume "pair_free Q"
    then obtain c d where "c < NBUF" "d < NBUF" "c \<noteq> d" "c \<notin> Q" "d \<notin> Q" by (auto simp: pair_free_def)
    then show ?thesis by (cases "c = b1") auto
  qed (use bq in auto)
  ultimately obtain b2 t where
    2: "bread ROOTDEV x s1 = Ok b2 t" "b2 \<notin> {b1}" "cache_ok Q {b2, b1} t" "has_block t b2 x (view s1 x)" "view t = view s1" "disk t = disk s1"
      "forget_cache t = forget_cache s1" "\<forall>c. c \<in> Q \<or> c \<noteq> b2 \<longrightarrow> content (bufs t c) = content (bufs s1 c)"
      "b2 \<in> Q \<longleftrightarrow> (\<exists>c \<in> Q. b_blockno (bufs s1 c) = x)" using bread_pinned [OF 1(2), of x] by auto
  have h1: "has_block t b1 l (view s l)" using 1(3) has_block_cong [of t b1 s1] 2(2,8) by simp
  have k1: "klog s1 = klog s" using forget_cache_sels(1) [OF 1(6)] .
  have ok2: "cache_ok Q {b1, b2} t" using 2(3) by (simp add: insert_commute)
  have h2: "has_block t b2 x (view s x)" "view t = view s" "disk t = disk s" "forget_cache t = forget_cache s"
    using 2(4-7) 1(4-6) by simp_all
  have q: "(b2 \<in> Q) = (\<exists>c \<in> Q. b_blockno (bufs s c) = x)" using 2(9) bq by simp
  have cq: "\<forall>c \<in> Q. content (bufs t c) = content (bufs s c)" using 1(7) 2(8) by simp
  have n12: "b1 \<noteq> b2" using 2(2) by simp
  from 1(1) k1 2(1) n12 b1 q ok2 h1 h2 cq show ?thesis by (intro exI conjI)
qed

text \<open>Copying a block: \<open>cp src dst\<close> is \<open>dst\<close> with the bytes of \<open>src\<close>.\<close>

definition cp :: "blk \<Rightarrow> blk \<Rightarrow> blk" where
  "cp src dst = put_bytes 0 (get_bytes src 0 BSIZE) dst"

lemma copy_write:
  assumes ok: "cache_ok Q {a, b} s" and ne: "a \<noteq> b" and ha: "has_block s a n d" and hb: "has_block s b m e"
  shows "\<exists>t. bind (gets (\<lambda>s. b_data (bufs s b))) (\<lambda>x. upd_data a (put_bytes 0 (get_bytes x 0 BSIZE))) s = Ok () t \<and>
    bwrite a t = Ok () (wrote_disk n (cp e d) t) \<and> cache_ok Q {a, b} (wrote_disk n (cp e d) t) \<and>
    has_block t a n (cp e d) \<and> has_block t b m e \<and> view t = (view s)(n := cp e d) \<and>
    view (wrote_disk n (cp e d) t) = (view s)(n := cp e d) \<and> disk t = disk s \<and>
    forget_cache t = forget_cache s \<and> (\<forall>c. c \<noteq> a \<longrightarrow> content (bufs t c) = content (bufs s c))"
proof -
  from upd_data_ok [OF ok _ ha, of "put_bytes 0 (get_bytes e 0 BSIZE)"] obtain t where
    t: "upd_data a (put_bytes 0 (get_bytes e 0 BSIZE)) s = Ok () t" "cache_ok Q {a, b} t" "has_block t a n (cp e d)"
      "view t = (view s)(n := cp e d)" "disk t = disk s" "forget_cache t = forget_cache s"
      "\<forall>c. c \<noteq> a \<longrightarrow> content (bufs t c) = content (bufs s c)" unfolding cp_def by auto
  have "has_block t b m e" using t(7) ne hb has_block_cong [of t b s m e] by auto
  moreover note bwrite_ok [OF t(2) _ t(3)]
  moreover have "b_data (bufs s b) = e" using hb by (simp add: has_block_sels)
  ultimately show ?thesis using t by (intro exI [of _ t]) auto
qed

section \<open>The steps of a commit\<close>

text \<open>
  \<open>put_through s ws t\<close>: from \<open>s\<close> to \<open>t\<close> the blocks \<open>ws\<close> were written through to the disk, in this order, and of the
  cache only the view changed.
\<close>

definition apply_writes :: "(uint \<times> blk) list \<Rightarrow> (uint \<Rightarrow> blk) \<Rightarrow> uint \<Rightarrow> blk" where
  "apply_writes ws dk = fold (\<lambda>(n, d) f. f(n := d)) ws dk"

definition put_through :: "('z) logk_scheme \<Rightarrow> (uint \<times> blk) list \<Rightarrow> ('z) logk_scheme \<Rightarrow> bool" where
  "put_through s ws t \<longleftrightarrow> disk t = apply_writes ws (disk s) \<and> dtrace t = dtrace s @ ws \<and> view t = apply_writes ws (view s) \<and>
     klog t = klog s \<and> console_ready t = console_ready s"

lemma apply_writes_simps [simp]:
  "apply_writes [] dk = dk" "apply_writes ((n, d) # ws) dk = apply_writes ws (dk(n := d))"
  "apply_writes (ws @ vs) dk = apply_writes vs (apply_writes ws dk)"
  by (simp_all add: apply_writes_def)

lemma apply_writes_other: "n \<notin> fst ` set ws \<Longrightarrow> apply_writes ws dk n = dk n"
  by (induction ws arbitrary: dk) auto

lemma put_through_Nil [simp]: "put_through s [] s"
  by (simp add: put_through_def)

lemma put_through_append: "put_through s ws t \<Longrightarrow> put_through t vs u \<Longrightarrow> put_through s (ws @ vs) u"
  by (simp add: put_through_def)

definition log_at :: "('z) logk_scheme \<Rightarrow> nat \<Rightarrow> uint" where
  "log_at s k = lg_start (klog s) + of_nat k + 1"

lemma write_log_one_ok:
  assumes ok: "cache_ok Q {} s" and pn: "pins Q xs s" and dev: "lg_dev (klog s) = ROOTDEV"
    and x: "log_block s k \<in> set xs" and l: "log_at s k \<notin> set xs" and free: "c < NBUF" "c \<notin> Q"
  shows "\<exists>t. write_log_one k s = Ok () t \<and> cache_ok Q {} t \<and> (\<forall>c \<in> Q. content (bufs t c) = content (bufs s c)) \<and>
    put_through s [(log_at s k, cp (view s (log_block s k)) (view s (log_at s k)))] t"
proof -
  let ?l = "log_at s k" and ?x = "log_block s k"
  let ?d = "cp (view s ?x) (view s ?l)"
  have ne: "?l \<noteq> ?x" using x l by auto
  have np: "b_blockno (bufs s b) \<noteq> ?l" if "b \<in> Q" for b using pn l that by (auto simp: pins_def)
  have px: "\<exists>b \<in> Q. b_blockno (bufs s b) = ?x" using pn x by (auto simp: pins_def)
  from two_breads [OF ok ne free disjI1 [OF px] np] px obtain b1 s1 b2 s2 where
    2: "bread ROOTDEV ?l s = Ok b1 s1" "klog s1 = klog s" "bread ROOTDEV ?x s1 = Ok b2 s2" "b1 \<noteq> b2" "b1 \<notin> Q" "b2 \<in> Q"
      "cache_ok Q {b1, b2} s2" "has_block s2 b1 ?l (view s ?l)" "has_block s2 b2 ?x (view s ?x)" "view s2 = view s" "disk s2 = disk s"
      "forget_cache s2 = forget_cache s" "\<forall>c \<in> Q. content (bufs s2 c) = content (bufs s c)" by blast
  from copy_write [OF 2(7,4,8,9)] obtain s3 where
    3: "bind (gets (\<lambda>s. b_data (bufs s b2))) (\<lambda>x. upd_data b1 (put_bytes 0 (get_bytes x 0 BSIZE))) s2 = Ok () s3"
      "bwrite b1 s3 = Ok () (wrote_disk ?l ?d s3)" "cache_ok Q {b1, b2} (wrote_disk ?l ?d s3)" "has_block s3 b1 ?l ?d"
      "has_block s3 b2 ?x (view s ?x)" "view (wrote_disk ?l ?d s3) = (view s2)(?l := ?d)" "disk s3 = disk s2"
      "forget_cache s3 = forget_cache s2" "\<forall>c. c \<noteq> b1 \<longrightarrow> content (bufs s3 c) = content (bufs s2 c)" by blast
  let ?s4 = "wrote_disk ?l ?d s3"
  have h4: "has_block ?s4 b1 ?l ?d" "has_block ?s4 b2 ?x (view s ?x)" using 3(4,5) by (simp_all add: has_block_def)
  from brelse_ok [OF 3(3) _ h4(2)] 2(6) obtain s5 where
    5: "brelse b2 ?s4 = Ok () s5" "cache_ok Q ({b1, b2} - {b2}) s5" "view s5 = view ?s4" "disk s5 = disk ?s4"
      "forget_cache s5 = forget_cache ?s4" "\<forall>c. content (bufs s5 c) = content (bufs ?s4 c)" by blast
  have "{b1, b2} - {b2} = {b1}" using 2(4) by auto
  with 5(2) have ok5: "cache_ok Q {b1} s5" by simp
  have h5: "has_block s5 b1 ?l ?d" using h4(1) 5(6) has_block_cong [of s5 b1 ?s4] by simp
  from brelse_ok [OF ok5 _ h5] 5(4) obtain t where
    t: "brelse b1 s5 = Ok () t" "cache_ok Q {} t" "view t = view s5" "disk t = disk s5"
      "forget_cache t = forget_cache s5" "\<forall>c. content (bufs t c) = content (bufs s5 c)" by auto
  have run: "write_log_one k s = Ok () t"
    using 2(1-3) 3(1,2) 5(1) t(1) dev by (simp add: write_log_one_def log_at_def)
  note f = forget_cache_sels [OF 2(12)] forget_cache_sels [OF 3(8)] forget_cache_sels [OF 5(5)] forget_cache_sels [OF t(5)]
  have "content (bufs t c) = content (bufs s c)" if "c \<in> Q" for c
    using that 2(5,13) 3(9) 5(6) t(6) by (auto simp: wrote_disk_def)
  moreover have "put_through s [(?l, ?d)] t"
    using f 2(10,11) 3(6,7) 5(3,4) t(3,4) by (simp add: put_through_def)
  ultimately show ?thesis using run t(2) by blast
qed

text \<open>One turn of \<^verbatim>\<open>install_trans\<close> behind the message.\<close>

definition install_body :: "bool \<Rightarrow> nat \<Rightarrow> ('z logk_scheme, unit) km" where
  "install_body recovering k =
     bind (bind (gets klog) (\<lambda>l. bread (lg_dev l) (lg_start l + of_nat k + 1))) (\<lambda>lbuf.
     bind (bind (gets klog) (\<lambda>l. bread (lg_dev l) (lh_block (lg_lh l) k))) (\<lambda>dbuf. block [
       bind (gets (\<lambda>s. b_data (bufs s lbuf))) (\<lambda>d. upd_data dbuf (put_bytes 0 (get_bytes d 0 BSIZE))),
       bwrite dbuf,
       (if recovering then skip else bunpin dbuf),
       brelse lbuf,
       brelse dbuf]))"

lemma install_one_False: "install_one False k s = install_body False k s"
  by (simp add: install_one_def install_body_def)

lemma install_one_True:
  assumes "calm {} s" and "console_ready s"
  shows "\<exists>bs. install_one True k s = install_body True k (out bs s)"
proof -
  from printf_out [OF recovering_format assms, of "of_nat k" "scast (log_block s k)"] obtain bs where
    "printf (''recovering tail %d dst %d'' @ [CHR 0x0A]) [PInt (of_nat k), PInt (scast (log_block s k))] s = Ok () (out bs s)" by blast
  then show ?thesis by (intro exI [of _ bs]) (simp add: install_one_def install_body_def)
qed

lemma install_copy:
  assumes ok: "cache_ok Q {} s" and dev: "lg_dev (klog s) = ROOTDEV"
    and ne: "log_at s k \<noteq> log_block s k" and np: "\<And>b. b \<in> Q \<Longrightarrow> b_blockno (bufs s b) \<noteq> log_at s k"
    and free: "c < NBUF" "c \<notin> Q" and room: "(\<exists>b \<in> Q. b_blockno (bufs s b) = log_block s k) \<or> pair_free Q"
  defines "d \<equiv> cp (view s (log_at s k)) (view s (log_block s k))"
  shows "\<exists>b1 b2 t. install_body r k s = block [(if r then skip else bunpin b2), brelse b1, brelse b2] t \<and>
    b1 \<noteq> b2 \<and> b1 \<notin> Q \<and> (b2 \<in> Q \<longleftrightarrow> (\<exists>c \<in> Q. b_blockno (bufs s c) = log_block s k)) \<and> cache_ok Q {b1, b2} t \<and>
    has_block t b1 (log_at s k) (view s (log_at s k)) \<and> has_block t b2 (log_block s k) d \<and>
    put_through s [(log_block s k, d)] t \<and> (\<forall>c \<in> Q - {b2}. content (bufs t c) = content (bufs s c))"
proof -
  let ?l = "log_at s k" and ?x = "log_block s k"
  from two_breads [OF ok ne free room np] obtain b1 s1 b2 s2 where
    2: "bread ROOTDEV ?l s = Ok b1 s1" "klog s1 = klog s" "bread ROOTDEV ?x s1 = Ok b2 s2" "b1 \<noteq> b2" "b1 \<notin> Q"
      "b2 \<in> Q \<longleftrightarrow> (\<exists>c \<in> Q. b_blockno (bufs s c) = ?x)"
      "cache_ok Q {b1, b2} s2" "has_block s2 b1 ?l (view s ?l)" "has_block s2 b2 ?x (view s ?x)" "view s2 = view s" "disk s2 = disk s"
      "forget_cache s2 = forget_cache s" "\<forall>c \<in> Q. content (bufs s2 c) = content (bufs s c)" by blast
  have ok2: "cache_ok Q {b2, b1} s2" using 2(7) by (simp add: insert_commute)
  from copy_write [OF ok2 2(4) [symmetric] 2(9,8)] obtain s3 where
    3: "bind (gets (\<lambda>s. b_data (bufs s b1))) (\<lambda>x. upd_data b2 (put_bytes 0 (get_bytes x 0 BSIZE))) s2 = Ok () s3"
      "bwrite b2 s3 = Ok () (wrote_disk ?x d s3)" "cache_ok Q {b2, b1} (wrote_disk ?x d s3)" "has_block s3 b2 ?x d"
      "has_block s3 b1 ?l (view s ?l)" "view (wrote_disk ?x d s3) = (view s2)(?x := d)" "disk s3 = disk s2"
      "forget_cache s3 = forget_cache s2" "\<forall>c. c \<noteq> b2 \<longrightarrow> content (bufs s3 c) = content (bufs s2 c)"
    unfolding d_def by blast
  let ?t = "wrote_disk ?x d s3"
  note f = forget_cache_sels [OF 2(12)] forget_cache_sels [OF 3(8)]
  have run: "install_body r k s = block [(if r then skip else bunpin b2), brelse b1, brelse b2] ?t"
    using 2(1-3) 3(1,2) dev by (simp add: install_body_def log_at_def)
  have okt: "cache_ok Q {b1, b2} ?t" using 3(3) by (simp add: insert_commute)
  have ht: "has_block ?t b1 ?l (view s ?l)" "has_block ?t b2 ?x d" using 3(4,5) by (simp_all add: has_block_def)
  have pt: "put_through s [(?x, d)] ?t" using f 2(10,11) 3(6,7) by (simp add: put_through_def)
  have ct: "\<forall>c \<in> Q - {b2}. content (bufs ?t c) = content (bufs s c)" using 2(13) 3(9) by simp
  from run 2(4,5,6) okt ht pt ct show ?thesis by blast
qed

lemma put_through_frame:
  assumes "put_through s ws t" and "view u = view t" and "disk u = disk t" and "forget_cache u = forget_cache t"
  shows "put_through s ws u"
  using assms(1-3) forget_cache_sels [OF assms(4)] by (simp add: put_through_def)

text \<open>Releasing the two buffers once both agree with the disk.\<close>

lemma release_two:
  assumes ok: "cache_ok Q {b1, b2} s" and ne: "b1 \<noteq> b2"
    and h: "has_block s b1 n d" "has_block s b2 m e" and clean: "disk s n = d" "disk s m = e"
  shows "\<exists>t. block [brelse b1, brelse b2] s = Ok () t \<and> cache_ok Q {} t \<and> view t = view s \<and> disk t = disk s \<and>
    forget_cache t = forget_cache s \<and> (\<forall>c. content (bufs t c) = content (bufs s c))"
proof -
  from brelse_ok [OF ok _ h(1)] clean(1) obtain s1 where
    1: "brelse b1 s = Ok () s1" "cache_ok Q ({b1, b2} - {b1}) s1" "view s1 = view s" "disk s1 = disk s"
      "forget_cache s1 = forget_cache s" "\<forall>c. content (bufs s1 c) = content (bufs s c)" by auto
  have "{b1, b2} - {b1} = {b2}" using ne by auto
  then have ok1: "cache_ok Q {b2} s1" using 1(2) by simp
  have h1: "has_block s1 b2 m e" using h(2) 1(6) has_block_cong [of s1 b2 s] by simp
  from brelse_ok [OF ok1 _ h1] clean(2) 1(4) obtain t where
    "brelse b2 s1 = Ok () t" "cache_ok Q {} t" "view t = view s1" "disk t = disk s1"
      "forget_cache t = forget_cache s1" "\<forall>c. content (bufs t c) = content (bufs s1 c)" by auto
  with 1 show ?thesis by auto
qed

lemma install_commit_ok:
  assumes ok: "cache_ok Q {} s" and pn: "pins Q (x # xs) s" and x: "x \<notin> set xs" and dev: "lg_dev (klog s) = ROOTDEV"
    and xk: "log_block s k = x" and l: "log_at s k \<notin> set (x # xs)" and free: "c < NBUF" "c \<notin> Q"
  shows "\<exists>t Q'. install_one False k s = Ok () t \<and> cache_ok Q' {} t \<and> pins Q' xs t \<and> Q' \<subseteq> Q \<and>
    put_through s [(x, cp (view s (log_at s k)) (view s x))] t"
proof -
  let ?d = "cp (view s (log_at s k)) (view s x)"
  have px: "\<exists>b \<in> Q. b_blockno (bufs s b) = log_block s k" using pn xk by (auto simp: pins_def)
  have np: "b_blockno (bufs s b) \<noteq> log_at s k" if "b \<in> Q" for b using pn l that unfolding pins_def by metis
  have ne: "log_at s k \<noteq> log_block s k" using l xk by simp
  from install_copy [OF ok dev ne np free disjI1 [OF px], of False] px obtain b1 b2 t where
    t: "install_body False k s = block [bunpin b2, brelse b1, brelse b2] t" "b1 \<noteq> b2" "b1 \<notin> Q" "b2 \<in> Q" "cache_ok Q {b1, b2} t"
      "has_block t b1 (log_at s k) (view s (log_at s k))" "has_block t b2 x ?d" "put_through s [(x, ?d)] t"
      "\<forall>c \<in> Q - {b2}. content (bufs t c) = content (bufs s c)" unfolding xk if_False by blast
  from bunpin_ok [OF t(5) _ t(4)] obtain u where
    u: "bunpin b2 t = Ok () u" "cache_ok (Q - {b2}) {b1, b2} u" "view u = view t" "disk u = disk t" "forget_cache u = forget_cache t"
      "\<forall>c. content (bufs u c) = content (bufs t c)" by auto
  have hu: "has_block u b1 (log_at s k) (view s (log_at s k))" "has_block u b2 x ?d"
    using t(6,7) u(6) has_block_cong [of u b1 t] has_block_cong [of u b2 t] by simp_all
  have "disk u (log_at s k) = view s (log_at s k)"
    using u(4) t(8) ne xk view_clean [OF ok np] by (simp add: put_through_def)
  moreover have "disk u x = ?d" using u(4) t(8) by (simp add: put_through_def)
  ultimately obtain v where v: "block [brelse b1, brelse b2] u = Ok () v" "cache_ok (Q - {b2}) {} v" "view v = view u"
    "disk v = disk u" "forget_cache v = forget_cache u" "\<forall>c. content (bufs v c) = content (bufs u c)"
    using release_two [OF u(2) t(2) hu] by blast
  have run: "install_one False k s = Ok () v" unfolding install_one_False t(1) using u(1) v(1) by simp
  have pt: "put_through s [(x, ?d)] v" by (rule put_through_frame [OF t(8)]) (use u v in simp_all)
  obtain c where c: "c \<in> Q" "b_blockno (bufs s c) = x" using px xk by blast
  have "c = b2"
  proof (rule ccontr)
    assume "c \<noteq> b2"
    with c t(9) have "b_blockno (bufs t c) = x" "b_dev (bufs t c) = ROOTDEV"
      using cache_okD(9) [OF t(5) c(1)] by (simp_all add: content_def)
    with cache_ok_unique [OF t(5), of b2 c] t(7) cache_okD(4) [OF t(5) c(1)] \<open>c \<noteq> b2\<close> show False
      by (simp add: has_block_sels)
  qed
  with c have b2: "b_blockno (bufs s b2) = x" by simp
  have bn: "b_blockno (bufs v c) = b_blockno (bufs s c)" if "c \<in> Q - {b2}" for c
  proof -
    have "content (bufs v c) = content (bufs s c)" using that t(9) u(6) v(6) by simp
    then show ?thesis by (simp add: content_def)
  qed
  have uq: "b_blockno (bufs s b) \<noteq> x" if "b \<in> Q - {b2}" for b
    using that cache_okD(5) [OF ok, of b b2 x] cache_okD(4,9) [OF ok] t(4) b2 by auto
  have "pins (Q - {b2}) xs v"
    unfolding pins_def
  proof (intro conjI ballI)
    show "b_blockno (bufs v b) \<in> set xs" if "b \<in> Q - {b2}" for b
      using pn uq [OF that] bn [OF that] that by (auto simp: pins_def)
    show "\<exists>b \<in> Q - {b2}. b_blockno (bufs v b) = y" if "y \<in> set xs" for y
    proof -
      have "\<exists>b \<in> Q. b_blockno (bufs s b) = y" using pn that by (simp add: pins_def)
      then obtain b where "b \<in> Q" "b_blockno (bufs s b) = y" by blast
      moreover have "b \<noteq> b2" using calculation b2 x that by auto
      ultimately show ?thesis using bn [of b] by auto
    qed
  qed
  with run v(2) pt show ?thesis by blast
qed

lemma install_recover_ok:
  assumes ok: "cache_ok {} {} s" and rd: "console_ready s" and dev: "lg_dev (klog s) = ROOTDEV"
    and ne: "log_at s k \<noteq> log_block s k"
  shows "\<exists>t. install_one True k s = Ok () t \<and> cache_ok {} {} t \<and>
    put_through s [(log_block s k, cp (view s (log_at s k)) (view s (log_block s k)))] t"
proof -
  from install_one_True [OF cache_okD(1) [OF ok] rd, of k] obtain bs where
    bs: "install_one True k s = install_body True k (out bs s)" by blast
  let ?s = "out bs s" and ?d = "cp (view s (log_at s k)) (view s (log_block s k))"
  have at: "log_at ?s k = log_at s k" by (simp add: log_at_def)
  have free: "pair_free {}" unfolding pair_free_def
    by (rule exI [of _ 0], rule conjI [OF NBUF_pos], rule exI [of _ 1]) (simp add: NBUF_def MAXOPBLOCKS_def)
  have ok': "cache_ok {} {} ?s" using ok by simp
  from install_copy [OF ok' _ _ _ NBUF_pos _ disjI2 [OF free], of k True] dev ne at obtain b1 b2 t where
    t: "install_body True k ?s = block [skip, brelse b1, brelse b2] t" "b1 \<noteq> b2" "cache_ok {} {b1, b2} t"
      "has_block t b1 (log_at s k) (view s (log_at s k))" "has_block t b2 (log_block s k) ?d"
      "put_through ?s [(log_block s k, ?d)] t" by auto
  have "disk t (log_at s k) = view s (log_at s k)"
    using t(6) ne view_clean [OF ok] by (simp add: put_through_def)
  moreover have "disk t (log_block s k) = ?d" using t(6) by (simp add: put_through_def)
  ultimately obtain v where v: "block [brelse b1, brelse b2] t = Ok () v" "cache_ok {} {} v" "view v = view t"
    "disk v = disk t" "forget_cache v = forget_cache t"
    using release_two [OF t(3,2,4,5)] by blast
  have "put_through ?s [(log_block s k, ?d)] v" by (rule put_through_frame [OF t(6)]) (use v in simp_all)
  then have "put_through s [(log_block s k, ?d)] v" by (simp add: put_through_def)
  moreover have "install_one True k s = Ok () v" using bs t(1) v(1) by simp
  ultimately show ?thesis using v(2) by blast
qed

lemma for_each_snoc: "for_each [0..<k] f s = Ok () t \<Longrightarrow> f k t = Ok () u \<Longrightarrow> for_each [0..<Suc k] f s = Ok () u"
  by (simp add: for_each_append)

section \<open>The log on the disk\<close>

definition log_pos :: "uint \<Rightarrow> nat \<Rightarrow> uint" where
  "log_pos st k = st + of_nat k + 1"

definition log_area :: "uint \<Rightarrow> uint set" where
  "log_area st = insert st (log_pos st ` {..<LOGBLOCKS})"

text \<open>A list of blocks that a transaction may have: without repetition, that fits the log and is outside of it.\<close>

definition log_list :: "uint \<Rightarrow> uint list \<Rightarrow> bool" where
  "log_list st xs \<longleftrightarrow> distinct xs \<and> length xs \<le> LOGBLOCKS \<and> set xs \<inter> log_area st = {}"

definition txn :: "uint list \<Rightarrow> ('z) logk_scheme \<Rightarrow> bool" where
  "txn xs s \<longleftrightarrow> lg_dev (klog s) = ROOTDEV \<and> log_n s = int (length xs) \<and> (\<forall>k < length xs. log_block s k = xs ! k) \<and>
     log_list (lg_start (klog s)) xs"

lemma log_at_pos: "log_at s k = log_pos (lg_start (klog s)) k"
  by (simp add: log_at_def log_pos_def)

lemma LOGBLOCKS_30: "LOGBLOCKS = 30"
  by (simp add: LOGBLOCKS_def MAXOPBLOCKS_def)

lemma log_pos_inj: "i < LOGBLOCKS \<Longrightarrow> j < LOGBLOCKS \<Longrightarrow> log_pos st i = log_pos st j \<longleftrightarrow> i = j"
proof -
  assume ij: "i < LOGBLOCKS" "j < LOGBLOCKS"
  have "log_pos st i = log_pos st j \<longleftrightarrow> (of_nat i :: uint) = of_nat j" by (simp add: log_pos_def)
  also have "\<dots> \<longleftrightarrow> i = j" using ij by (simp add: word_of_nat_eq_iff take_bit_nat_eq_self LOGBLOCKS_30)
  finally show ?thesis .
qed

lemma log_pos_start: "i < LOGBLOCKS \<Longrightarrow> log_pos st i \<noteq> st"
proof
  assume i: "i < LOGBLOCKS" and "log_pos st i = st"
  then have "(of_nat (Suc i) :: uint) = 0" by (simp add: log_pos_def add.commute)
  then have "2 ^ 32 dvd Suc i" by (simp add: word_of_nat_eq_0_iff del: of_nat_Suc)
  then have "2 ^ 32 \<le> Suc i" by (rule dvd_imp_le) simp
  then show False using i by (simp add: LOGBLOCKS_30)
qed

lemma log_listD:
  assumes "log_list st xs"
  shows "distinct xs" "length xs \<le> LOGBLOCKS" "st \<notin> set xs" "k < LOGBLOCKS \<Longrightarrow> log_pos st k \<notin> set xs"
    "k < length xs \<Longrightarrow> k < LOGBLOCKS"
  using assms by (auto simp: log_list_def log_area_def)

lemma txnD:
  assumes "txn xs s"
  shows "lg_dev (klog s) = ROOTDEV" "log_n s = int (length xs)" "k < length xs \<Longrightarrow> log_block s k = xs ! k"
    "log_list (lg_start (klog s)) xs"
  using assms by (simp_all add: txn_def)

lemma txn_cong: "klog t = klog s \<Longrightarrow> txn xs t = txn xs s"
  by (simp add: txn_def)

section \<open>The loops of a commit\<close>

definition log_writes :: "uint \<Rightarrow> (uint \<Rightarrow> blk) \<Rightarrow> uint list \<Rightarrow> nat \<Rightarrow> (uint \<times> blk) list" where
  "log_writes st V xs k = map (\<lambda>i. (log_pos st i, cp (V (xs ! i)) (V (log_pos st i)))) [0..<k]"

definition installs :: "uint \<Rightarrow> (uint \<Rightarrow> blk) \<Rightarrow> uint list \<Rightarrow> nat \<Rightarrow> (uint \<times> blk) list" where
  "installs st V xs k = map (\<lambda>i. (xs ! i, cp (V (log_pos st i)) (V (xs ! i)))) [0..<k]"

lemma log_writes_Suc: "log_writes st V xs (Suc k) = log_writes st V xs k @ [(log_pos st k, cp (V (xs ! k)) (V (log_pos st k)))]"
  by (simp add: log_writes_def)

lemma installs_Suc: "installs st V xs (Suc k) = installs st V xs k @ [(xs ! k, cp (V (log_pos st k)) (V (xs ! k)))]"
  by (simp add: installs_def)

lemma log_writes_outside:
  assumes "k \<le> LOGBLOCKS" and "n \<notin> log_pos st ` {..<k}"
  shows "apply_writes (log_writes st V xs k) dk n = dk n"
  by (rule apply_writes_other) (use assms in \<open>auto simp: log_writes_def\<close>)

lemma installs_outside:
  assumes "k \<le> length xs" and "n \<notin> set (take k xs)"
  shows "apply_writes (installs st V xs k) dk n = dk n"
proof (rule apply_writes_other)
  have "fst ` set (installs st V xs k) = set (take k xs)"
    using nth_image [OF assms(1)] by (force simp: installs_def image_iff)
  with assms(2) show "n \<notin> fst ` set (installs st V xs k)" by simp
qed

lemma write_log_loop:
  assumes ok: "cache_ok Q {} s" and pn: "pins Q xs s" and tx: "txn xs s" and free: "c < NBUF" "c \<notin> Q" and k: "k \<le> length xs"
  shows "\<exists>t. for_each [0..<k] write_log_one s = Ok () t \<and> cache_ok Q {} t \<and> pins Q xs t \<and>
    put_through s (log_writes (lg_start (klog s)) (view s) xs k) t"
  using k
proof (induction k)
  case 0
  then show ?case using ok pn by (simp add: log_writes_def)
next
  case (Suc k)
  let ?st = "lg_start (klog s)"
  from Suc obtain t where t: "for_each [0..<k] write_log_one s = Ok () t" "cache_ok Q {} t" "pins Q xs t"
    "put_through s (log_writes ?st (view s) xs k) t" by auto
  note ll = log_listD [OF txnD(4) [OF tx]]
  have kt: "klog t = klog s" and vt: "view t = apply_writes (log_writes ?st (view s) xs k) (view s)"
    using t(4) by (simp_all add: put_through_def)
  have kb: "k < LOGBLOCKS" using ll(2) Suc.prems by simp
  have at: "log_at t k = log_pos ?st k" by (simp add: log_at_pos kt)
  have bk: "log_block t k = xs ! k" using txnD(3) [OF tx, of k] Suc.prems kt by simp
  have in_xs: "xs ! k \<in> set xs" using Suc.prems by simp
  have v1: "view t (xs ! k) = view s (xs ! k)"
    unfolding vt by (rule log_writes_outside) (use ll(4) kb in_xs in \<open>auto\<close>)
  have v2: "view t (log_pos ?st k) = view s (log_pos ?st k)"
    unfolding vt by (rule log_writes_outside) (use kb log_pos_inj in \<open>auto\<close>)
  have "\<exists>u. write_log_one k t = Ok () u \<and> cache_ok Q {} u \<and> (\<forall>c \<in> Q. content (bufs u c) = content (bufs t c)) \<and>
      put_through t [(log_at t k, cp (view t (log_block t k)) (view t (log_at t k)))] u"
    by (rule write_log_one_ok [OF t(2,3) _ _ _ free]) (use txnD(1) [OF tx] kt bk in_xs at ll(4) [OF kb] in simp_all)
  then obtain u where u: "write_log_one k t = Ok () u" "cache_ok Q {} u" "\<forall>c \<in> Q. content (bufs u c) = content (bufs t c)"
    "put_through t [(log_pos ?st k, cp (view s (xs ! k)) (view s (log_pos ?st k)))] u" unfolding at bk v1 v2 by blast
  have "for_each [0..<Suc k] write_log_one s = Ok () u" using t(1) u(1) by (simp add: for_each_append)
  moreover have "pins Q xs u" using t(3) u(3) pins_cong [of Q u t xs] by simp
  ultimately show ?case using u(2) put_through_append [OF t(4) u(4)] by (auto simp: log_writes_Suc)
qed

lemma install_commit_loop:
  assumes ok: "cache_ok Q {} s" and pn: "pins Q xs s" and tx: "txn xs s" and free: "c < NBUF" "c \<notin> Q" and k: "k \<le> length xs"
  shows "\<exists>t Q'. for_each [0..<k] (install_one False) s = Ok () t \<and> cache_ok Q' {} t \<and> pins Q' (drop k xs) t \<and> Q' \<subseteq> Q \<and>
    put_through s (installs (lg_start (klog s)) (view s) xs k) t"
  using k
proof (induction k)
  case 0
  then show ?case using ok pn by (auto simp: installs_def)
next
  case (Suc k)
  let ?st = "lg_start (klog s)"
  from Suc obtain t Q' where t: "for_each [0..<k] (install_one False) s = Ok () t" "cache_ok Q' {} t" "pins Q' (drop k xs) t" "Q' \<subseteq> Q"
    "put_through s (installs ?st (view s) xs k) t" by auto
  note ll = log_listD [OF txnD(4) [OF tx]]
  have kt: "klog t = klog s" and vt: "view t = apply_writes (installs ?st (view s) xs k) (view s)"
    using t(5) by (simp_all add: put_through_def)
  have kb: "k < LOGBLOCKS" using ll(2) Suc.prems by simp
  have at: "log_at t k = log_pos ?st k" by (simp add: log_at_pos kt)
  have bk: "log_block t k = xs ! k" using txnD(3) [OF tx, of k] Suc.prems kt by simp
  have dr: "drop k xs = xs ! k # drop (Suc k) xs" using Suc.prems by (simp add: Cons_nth_drop_Suc)
  have dx: "xs ! k \<notin> set (take k xs)" "xs ! k \<notin> set (drop (Suc k) xs)"
    using ll(1) Suc.prems by (metis Suc_le_eq distinct_append distinct.simps(2) dr append_take_drop_id disjoint_iff list.set_intros(1))+
  have v1: "view t (xs ! k) = view s (xs ! k)"
    unfolding vt by (rule installs_outside) (use Suc.prems dx in simp_all)
  have v2: "view t (log_pos ?st k) = view s (log_pos ?st k)"
    unfolding vt by (rule installs_outside) (use Suc.prems ll(4) [OF kb] in \<open>auto dest: in_set_takeD\<close>)
  have "\<exists>u Q''. install_one False k t = Ok () u \<and> cache_ok Q'' {} u \<and> pins Q'' (drop (Suc k) xs) u \<and> Q'' \<subseteq> Q' \<and>
      put_through t [(xs ! k, cp (view t (log_at t k)) (view t (xs ! k)))] u"
    by (rule install_commit_ok [OF t(2) t(3) [unfolded dr] dx(2) _ bk _ free(1)])
      (use txnD(1) [OF tx] kt at ll(4) [OF kb] t(4) free(2) Suc.prems dr in \<open>auto dest: in_set_dropD\<close>)
  then obtain u Q'' where u: "install_one False k t = Ok () u" "cache_ok Q'' {} u" "pins Q'' (drop (Suc k) xs) u" "Q'' \<subseteq> Q'"
    "put_through t [(xs ! k, cp (view s (log_pos ?st k)) (view s (xs ! k)))] u" unfolding at v1 v2 by blast
  have "for_each [0..<Suc k] (install_one False) s = Ok () u" using t(1) u(1) by (simp add: for_each_append)
  then show ?case using u(2-4) t(4) put_through_append [OF t(5) u(5)] unfolding installs_Suc by blast
qed

lemma install_recover_loop:
  assumes ok: "cache_ok {} {} s" and rd: "console_ready s" and tx: "txn xs s" and k: "k \<le> length xs"
  shows "\<exists>t. for_each [0..<k] (install_one True) s = Ok () t \<and> cache_ok {} {} t \<and>
    put_through s (installs (lg_start (klog s)) (view s) xs k) t"
  using k
proof (induction k)
  case 0
  then show ?case using ok by (simp add: installs_def)
next
  case (Suc k)
  let ?st = "lg_start (klog s)"
  from Suc obtain t where t: "for_each [0..<k] (install_one True) s = Ok () t" "cache_ok {} {} t"
    "put_through s (installs ?st (view s) xs k) t" by auto
  note ll = log_listD [OF txnD(4) [OF tx]]
  have kt: "klog t = klog s" and rt: "console_ready t" and vt: "view t = apply_writes (installs ?st (view s) xs k) (view s)"
    using t(3) rd by (simp_all add: put_through_def)
  have kb: "k < LOGBLOCKS" using ll(2) Suc.prems by simp
  have at: "log_at t k = log_pos ?st k" by (simp add: log_at_pos kt)
  have bk: "log_block t k = xs ! k" using txnD(3) [OF tx, of k] Suc.prems kt by simp
  have dx: "xs ! k \<notin> set (take k xs)"
    using ll(1) Suc.prems by (auto simp: in_set_conv_nth nth_eq_iff_index_eq)
  have v1: "view t (xs ! k) = view s (xs ! k)"
    unfolding vt by (rule installs_outside) (use Suc.prems dx in simp_all)
  have v2: "view t (log_pos ?st k) = view s (log_pos ?st k)"
    unfolding vt by (rule installs_outside) (use Suc.prems ll(4) [OF kb] in \<open>auto dest: in_set_takeD\<close>)
  have "log_at t k \<noteq> log_block t k" using ll(4) [OF kb] at bk Suc.prems by (metis Suc_le_eq nth_mem)
  from install_recover_ok [OF t(2) rt _ this] txnD(1) [OF tx] kt obtain u where
    u: "install_one True k t = Ok () u" "cache_ok {} {} u"
      "put_through t [(xs ! k, cp (view s (log_pos ?st k)) (view s (xs ! k)))] u" unfolding at bk v1 v2 by auto
  have "for_each [0..<Suc k] (install_one True) s = Ok () u" using t(1) u(1) by (simp add: for_each_append)
  then show ?case using u(2) put_through_append [OF t(3) u(3)] unfolding installs_Suc by blast
qed

section \<open>The header block\<close>

definition head_data :: "uint list \<Rightarrow> blk \<Rightarrow> blk" where
  "head_data xs d = fold (\<lambda>i. put32 (head_block i) (xs ! i)) [0..<length xs] (put32 0 (of_nat (length xs)) d)"

definition head_is :: "uint list \<Rightarrow> blk \<Rightarrow> bool" where
  "head_is xs d \<longleftrightarrow> get32 d 0 = of_nat (length xs) \<and> (\<forall>i < length xs. get32 d (head_block i) = xs ! i)"

lemma head_fold:
  assumes "k \<le> length xs"
  shows "get32 (fold (\<lambda>i. put32 (head_block i) (xs ! i)) [0..<k] d) 0 = get32 d 0 \<and>
    (\<forall>i < k. get32 (fold (\<lambda>i. put32 (head_block i) (xs ! i)) [0..<k] d) (head_block i) = xs ! i)"
  using assms
proof (induction k)
  case (Suc k)
  let ?f = "fold (\<lambda>i. put32 (head_block i) (xs ! i)) [0..<k] d"
  have "get32 (put32 (head_block k) (xs ! k) ?f) (head_block i) = get32 ?f (head_block i)" if "i < k" for i
    by (rule get_put_word_other(3)) (use that in \<open>simp add: head_block_def\<close>)
  moreover have "get32 (put32 (head_block k) (xs ! k) ?f) 0 = get32 ?f 0"
    by (rule get_put_word_other(3)) (simp add: head_block_def)
  ultimately show ?case using Suc by (auto simp: less_Suc_eq)
qed simp

lemma head_is_data: "head_is xs (head_data xs d)"
  using head_fold [of "length xs" xs "put32 0 (of_nat (length xs)) d"] by (simp add: head_is_def head_data_def)

lemma write_head_loop:
  assumes ok: "cache_ok Q {b} s" and hb: "has_block s b st (put32 0 (of_nat (length xs)) d)"
    and blk: "\<And>i. i < length xs \<Longrightarrow> log_block s i = xs ! i" and len: "length xs \<le> LOGBLOCKS" and k: "k \<le> length xs"
  shows "\<exists>t. for_each [0..<k] (\<lambda>i. block [
       fault_if (\<lambda>_. LOGBLOCKS \<le> i) ''write_head'',
       bind (gets (\<lambda>s. log_block s i)) (\<lambda>bn. upd_data b (put32 (head_block i) bn))]) s = Ok () t \<and>
    cache_ok Q {b} t \<and> has_block t b st (fold (\<lambda>i. put32 (head_block i) (xs ! i)) [0..<k] (put32 0 (of_nat (length xs)) d)) \<and>
    view t = (view s)(st := fold (\<lambda>i. put32 (head_block i) (xs ! i)) [0..<k] (put32 0 (of_nat (length xs)) d)) \<and>
    disk t = disk s \<and> forget_cache t = forget_cache s \<and> (\<forall>c. c \<noteq> b \<longrightarrow> content (bufs t c) = content (bufs s c))"
  using k
proof (induction k)
  case 0
  have "view s = (view s)(st := put32 0 (of_nat (length xs)) d)"
    using has_block_view [OF ok cache_okD(3) [OF ok] hb] by auto
  then show ?case using ok hb by auto
next
  case (Suc k)
  let ?F = "\<lambda>k. fold (\<lambda>i. put32 (head_block i) (xs ! i)) [0..<k] (put32 0 (of_nat (length xs)) d)"
  have "k \<le> length xs" using Suc.prems by simp
  from Suc.IH [OF this] obtain t where t: "for_each [0..<k] (\<lambda>i. block [
       fault_if (\<lambda>_. LOGBLOCKS \<le> i) ''write_head'',
       bind (gets (\<lambda>s. log_block s i)) (\<lambda>bn. upd_data b (put32 (head_block i) bn))]) s = Ok () t"
    "cache_ok Q {b} t" "has_block t b st (?F k)" "view t = (view s)(st := ?F k)" "disk t = disk s" "forget_cache t = forget_cache s"
    "\<forall>c. c \<noteq> b \<longrightarrow> content (bufs t c) = content (bufs s c)" by blast
  from upd_data_ok [OF t(2) _ t(3), of "put32 (head_block k) (xs ! k)"] obtain u where
    u: "upd_data b (put32 (head_block k) (xs ! k)) t = Ok () u" "cache_ok Q {b} u" "has_block u b st (?F (Suc k))"
      "view u = (view t)(st := ?F (Suc k))" "disk u = disk t" "forget_cache u = forget_cache t"
      "\<forall>c. c \<noteq> b \<longrightarrow> content (bufs u c) = content (bufs t c)" by auto
  have "log_block t k = xs ! k" using forget_cache_sels(1) [OF t(6)] blk [of k] Suc.prems by simp
  with u(1) len Suc.prems have "block [
       fault_if (\<lambda>_. LOGBLOCKS \<le> k) ''write_head'',
       bind (gets (\<lambda>s. log_block s k)) (\<lambda>bn. upd_data b (put32 (head_block k) bn))] t = Ok () u" by simp
  from for_each_snoc [OF t(1) this] show ?case using t(4-7) u(2-7) by (intro exI [of _ u]) simp
qed

lemma write_head_ok:
  assumes ok: "cache_ok Q {} s" and np: "\<And>b. b \<in> Q \<Longrightarrow> b_blockno (bufs s b) \<noteq> lg_start (klog s)" and free: "c < NBUF" "c \<notin> Q"
    and dev: "lg_dev (klog s) = ROOTDEV" and n: "log_n s = int (length xs)"
    and blk: "\<And>i. i < length xs \<Longrightarrow> log_block s i = xs ! i" and len: "length xs \<le> LOGBLOCKS"
  shows "\<exists>t. write_head s = Ok () t \<and> cache_ok Q {} t \<and> (\<forall>c \<in> Q. content (bufs t c) = content (bufs s c)) \<and>
    put_through s [(lg_start (klog s), head_data xs (view s (lg_start (klog s))))] t"
proof -
  let ?st = "lg_start (klog s)"
  let ?h = "head_data xs (view s ?st)" and ?e = "put32 0 (of_nat (length xs)) (view s ?st)"
  from bread_pinned [OF ok, of ?st] free obtain b s1 where
    1: "bread ROOTDEV ?st s = Ok b s1" "cache_ok Q {b} s1" "has_block s1 b ?st (view s ?st)" "view s1 = view s" "disk s1 = disk s"
      "forget_cache s1 = forget_cache s" "\<forall>c. c \<in> Q \<or> c \<noteq> b \<longrightarrow> content (bufs s1 c) = content (bufs s c)"
      "b \<in> Q \<longleftrightarrow> (\<exists>c \<in> Q. b_blockno (bufs s c) = ?st)" by auto
  have bq: "b \<notin> Q" using 1(8) np by blast
  from upd_data_ok [OF 1(2) _ 1(3), of "put32 0 (of_nat (length xs))"] obtain s2 where
    2: "upd_data b (put32 0 (of_nat (length xs))) s1 = Ok () s2" "cache_ok Q {b} s2" "has_block s2 b ?st ?e"
      "view s2 = (view s)(?st := ?e)" "disk s2 = disk s" "forget_cache s2 = forget_cache s"
      "\<forall>c. c \<noteq> b \<longrightarrow> content (bufs s2 c) = content (bufs s1 c)" using 1(4-6) by auto
  have k1: "klog s1 = klog s" "klog s2 = klog s" using forget_cache_sels(1) 1(6) 2(6) by blast+
  have blk2: "log_block s2 i = xs ! i" if "i < length xs" for i using blk [OF that] k1 by simp
  from write_head_loop [OF 2(2,3) _ len le_refl] blk2 obtain s3 where
    3: "for_each [0..<length xs] (\<lambda>i. block [
         fault_if (\<lambda>_. LOGBLOCKS \<le> i) ''write_head'',
         bind (gets (\<lambda>s. log_block s i)) (\<lambda>bn. upd_data b (put32 (head_block i) bn))]) s2 = Ok () s3"
      "cache_ok Q {b} s3" "has_block s3 b ?st ?h" "view s3 = (view s2)(?st := ?h)" "disk s3 = disk s2" "forget_cache s3 = forget_cache s2"
      "\<forall>c. c \<noteq> b \<longrightarrow> content (bufs s3 c) = content (bufs s2 c)" unfolding head_data_def [symmetric] by blast
  note w = bwrite_ok [OF 3(2) _ 3(3)]
  let ?s4 = "wrote_disk ?st ?h s3"
  have h4: "has_block ?s4 b ?st ?h" using 3(3) by (simp add: has_block_def)
  from brelse_ok [OF w(2) _ h4] obtain t where
    t: "brelse b ?s4 = Ok () t" "cache_ok Q {} t" "view t = view ?s4" "disk t = disk ?s4" "forget_cache t = forget_cache ?s4"
      "\<forall>c. content (bufs t c) = content (bufs ?s4 c)" by auto
  have "write_head s = Ok () t"
    using 1(1) 2(1) 3(1) w(1) t(1) dev n k1 by (simp add: write_head_def)
  moreover have "\<forall>c \<in> Q. content (bufs t c) = content (bufs s c)" using bq 1(7) 2(7) 3(7) t(6) by auto
  moreover have "put_through s [(?st, ?h)] t"
    using forget_cache_sels [OF t(5)] forget_cache_sels [OF 3(6)] forget_cache_sels [OF 2(6)] t(3,4) w(3) 2(4,5) 3(4,5)
    by (simp add: put_through_def)
  ultimately show ?thesis using t(2) by blast
qed

section \<open>What a disk recovers to\<close>

definition same_block :: "blk \<Rightarrow> blk \<Rightarrow> bool" where
  "same_block a b \<longleftrightarrow> get_bytes a 0 BSIZE = get_bytes b 0 BSIZE"

lemma same_block_refl [simp]: "same_block a a"
  by (simp add: same_block_def)

lemma same_block_trans: "same_block a b \<Longrightarrow> same_block b c \<Longrightarrow> same_block a c"
  by (simp add: same_block_def)

lemma same_block_cp [simp]: "same_block (cp a b) a"
  by (simp add: same_block_def cp_def)

text \<open>The contents of block \<open>n\<close> after the blocks \<open>xs\<close> of the log have been installed.\<close>

definition replay :: "uint \<Rightarrow> (uint \<Rightarrow> blk) \<Rightarrow> uint list \<Rightarrow> uint \<Rightarrow> blk" where
  "replay st D xs n = (case find (\<lambda>i. xs ! i = n) [0..<length xs] of None \<Rightarrow> D n | Some i \<Rightarrow> D (log_pos st i))"

lemma replay_out: "n \<notin> set xs \<Longrightarrow> replay st D xs n = D n"
proof -
  assume "n \<notin> set xs"
  then have "find (\<lambda>i. xs ! i = n) [0..<length xs] = None" unfolding find_None_iff by auto
  then show ?thesis by (simp add: replay_def)
qed

lemma replay_in: "distinct xs \<Longrightarrow> i < length xs \<Longrightarrow> replay st D xs (xs ! i) = D (log_pos st i)"
proof -
  assume d: "distinct xs" and i: "i < length xs"
  have "find (\<lambda>j. xs ! j = xs ! i) [0..<length xs] \<noteq> None" unfolding find_None_iff using i by auto
  then obtain j where j: "find (\<lambda>j. xs ! j = xs ! i) [0..<length xs] = Some j" by blast
  then have "j < length xs" "xs ! j = xs ! i" unfolding find_Some_iff by auto
  then have "j = i" using d i by (simp add: nth_eq_iff_index_eq)
  with j show ?thesis by (simp add: replay_def)
qed

text \<open>\<open>recovers st D G\<close>: outside the log, a recovery of the disk \<open>D\<close> gives the blocks \<open>G\<close>.\<close>

definition recovers :: "uint \<Rightarrow> (uint \<Rightarrow> blk) \<Rightarrow> (uint \<Rightarrow> blk) \<Rightarrow> bool" where
  "recovers st D G \<longleftrightarrow> (\<exists>xs. log_list st xs \<and> head_is xs (D st) \<and> (\<forall>n. n \<notin> log_area st \<longrightarrow> same_block (replay st D xs n) (G n)))"

lemma log_list_Nil: "log_list st []"
  by (simp add: log_list_def)

lemma recovers_empty:
  assumes "head_is [] (D st)" and "\<And>n. n \<notin> log_area st \<Longrightarrow> same_block (D n) (G n)"
  shows "recovers st D G"
  unfolding recovers_def using assms by (intro exI [of _ "[]"]) (simp add: log_list_Nil replay_out)

lemma replay_cong:
  assumes ll: "log_list st xs" and "\<And>i. i < length xs \<Longrightarrow> D' (log_pos st i) = D (log_pos st i)" and "n \<notin> set xs \<Longrightarrow> D' n = D n"
  shows "replay st D' xs n = replay st D xs n"
proof (cases "n \<in> set xs")
  case True
  then obtain i where "i < length xs" "n = xs ! i" by (metis in_set_conv_nth)
  with assms(2) log_listD(1) [OF ll] show ?thesis by (simp add: replay_in)
next
  case False
  with assms(3) show ?thesis by (simp add: replay_out)
qed

lemma installs_at:
  assumes "distinct xs" and "i < k" and "k \<le> length xs"
  shows "apply_writes (installs st V xs k) dk (xs ! i) = cp (V (log_pos st i)) (V (xs ! i))"
  using assms(2,3)
proof (induction k)
  case (Suc k)
  have ne: "xs ! i = xs ! k \<longleftrightarrow> i = k" using assms(1) Suc.prems by (simp add: nth_eq_iff_index_eq)
  show ?case
  proof (cases "i = k")
    case True
    then show ?thesis by (simp add: installs_Suc)
  next
    case False
    with Suc ne show ?thesis by (simp add: installs_Suc)
  qed
qed simp

text \<open>Installing the blocks of a committed transaction, completely or in part, does not change what the disk recovers to.\<close>

lemma install_keeps:
  assumes ll: "log_list st xs" and hd: "head_is xs (D st)" and V: "\<And>i. i < length xs \<Longrightarrow> V (log_pos st i) = D (log_pos st i)"
    and G: "\<And>n. n \<notin> log_area st \<Longrightarrow> same_block (replay st D xs n) (G n)" and k: "k \<le> length xs"
  shows "recovers st (apply_writes (installs st V xs k) D) G"
proof -
  let ?D = "apply_writes (installs st V xs k) D"
  note l = log_listD [OF ll]
  have out: "?D n = D n" if "n \<notin> set xs" for n
    by (rule installs_outside [OF k]) (use that in \<open>auto dest: in_set_takeD\<close>)
  have "?D (log_pos st i) = D (log_pos st i)" if "i < length xs" for i using out l(4) [OF l(5) [OF that]] by blast
  then have "replay st ?D xs n = replay st D xs n" for n by (intro replay_cong [OF ll]) (use out in auto)
  moreover have "head_is xs (?D st)" using hd out [OF l(3)] by simp
  ultimately show ?thesis unfolding recovers_def using ll G by (intro exI [of _ xs]) simp
qed

lemma install_done:
  assumes ll: "log_list st xs" and V: "\<And>i. i < length xs \<Longrightarrow> V (log_pos st i) = D (log_pos st i)"
    and G: "\<And>n. n \<notin> log_area st \<Longrightarrow> same_block (replay st D xs n) (G n)" and e: "head_is [] e"
  defines "D' \<equiv> apply_writes (installs st V xs (length xs) @ [(st, e)]) D"
  shows "recovers st D' G" "n \<notin> log_area st \<Longrightarrow> same_block (D' n) (G n)"
proof -
  note l = log_listD [OF ll]
  show home: "same_block (D' n) (G n)" if n: "n \<notin> log_area st" for n
  proof (cases "n \<in> set xs")
    case True
    then obtain i where i: "i < length xs" "n = xs ! i" by (metis in_set_conv_nth)
    have "n \<noteq> st" using n by (auto simp: log_area_def)
    then have "D' n = cp (V (log_pos st i)) (V n)" using installs_at [OF l(1) i(1) le_refl] i(2) by (simp add: D'_def)
    then have "same_block (D' n) (V (log_pos st i))" by simp
    moreover have "V (log_pos st i) = replay st D xs n" using V [OF i(1)] replay_in [OF l(1) i(1)] i(2) by simp
    ultimately show ?thesis using G [OF n] by (metis same_block_trans)
  next
    case False
    have "n \<noteq> st" using n by (auto simp: log_area_def)
    then have "D' n = D n" using installs_outside [of "length xs" xs n] False by (simp add: D'_def)
    with G [OF n] replay_out [OF False] show ?thesis by metis
  qed
  show "recovers st D' G" by (rule recovers_empty) (use e home in \<open>simp_all add: D'_def\<close>)
qed

lemma take_map_upt: "k \<le> n \<Longrightarrow> take k (map f [0..<n]) = map f [0..<k]"
  by (simp add: take_map)

text \<open>The writes of a recovery, stopped at any point.\<close>

lemma install_prefix:
  assumes ll: "log_list st xs" and hd: "head_is xs (D st)" and V: "\<And>i. i < length xs \<Longrightarrow> V (log_pos st i) = D (log_pos st i)"
    and G: "\<And>n. n \<notin> log_area st \<Longrightarrow> same_block (replay st D xs n) (G n)" and e: "head_is [] e"
  shows "recovers st (apply_writes (take k (installs st V xs (length xs) @ [(st, e)])) D) G"
proof (cases "k \<le> length xs")
  case True
  then have "take k (installs st V xs (length xs) @ [(st, e)]) = installs st V xs k"
    by (simp add: installs_def take_map_upt)
  with install_keeps [OF ll hd V G True] show ?thesis by simp
next
  case False
  then have "take k (installs st V xs (length xs) @ [(st, e)]) = installs st V xs (length xs) @ [(st, e)]"
    by (simp add: installs_def)
  with install_done(1) [OF ll V G e] show ?thesis by simp
qed

text \<open>The writes of a commit, as the kernel sees the blocks (\<open>V\<close>) when it starts.\<close>

definition commit_writes :: "uint \<Rightarrow> (uint \<Rightarrow> blk) \<Rightarrow> uint list \<Rightarrow> (uint \<times> blk) list" where
  "commit_writes st V xs =
     (let h = (st, head_data xs (V st)); V1 = apply_writes (log_writes st V xs (length xs) @ [h]) V in
      log_writes st V xs (length xs) @ h # installs st V1 xs (length xs) @ [(st, head_data [] (head_data xs (V st)))])"

lemma log_writes_at:
  assumes "i < k" and "k \<le> LOGBLOCKS"
  shows "apply_writes (log_writes st V xs k) dk (log_pos st i) = cp (V (xs ! i)) (V (log_pos st i))"
  using assms
proof (induction k)
  case (Suc k)
  have ne: "log_pos st i = log_pos st k \<longleftrightarrow> i = k" using Suc.prems by (intro log_pos_inj) auto
  show ?case
  proof (cases "i = k")
    case True
    then show ?thesis by (simp add: log_writes_Suc)
  next
    case False
    with Suc ne show ?thesis by (simp add: log_writes_Suc)
  qed
qed simp

lemma log_pos_area: "k \<le> LOGBLOCKS \<Longrightarrow> n \<notin> log_area st \<or> n = st \<Longrightarrow> n \<notin> log_pos st ` {..<k}"
  using log_pos_start [of _ st] by (fastforce simp: log_area_def)

lemma commit_prefix:
  assumes ll: "log_list st xs" and old: "head_is [] (D st)" and V: "\<And>n. n \<notin> set xs \<Longrightarrow> V n = D n"
  shows "recovers st (apply_writes (take k (commit_writes st V xs)) D) (if k \<le> length xs then D else V)"
    "n \<notin> log_area st \<Longrightarrow> same_block (apply_writes (commit_writes st V xs) D n) (V n)"
proof -
  let ?n = "length xs" and ?h = "head_data xs (V st)"
  let ?L = "log_writes st V xs ?n"
  let ?V1 = "apply_writes (?L @ [(st, ?h)]) V" and ?D1 = "apply_writes (?L @ [(st, ?h)]) D"
  let ?T = "installs st ?V1 xs ?n @ [(st, head_data [] ?h)]"
  note l = log_listD [OF ll]
  have W: "commit_writes st V xs = (?L @ [(st, ?h)]) @ ?T" by (simp add: commit_writes_def Let_def)
  have len: "length ?L = ?n" by (simp add: log_writes_def)
  have st: "?V1 st = ?h" "?D1 st = ?h" by simp_all
  have pos: "?D1 (log_pos st i) = cp (V (xs ! i)) (V (log_pos st i))" "?V1 (log_pos st i) = ?D1 (log_pos st i)" if "i < ?n" for i
    using log_writes_at [OF that l(2)] log_pos_start [OF l(5) [OF that]] by simp_all
  have out: "?D1 n = D n" if "n \<notin> log_area st" for n
    using that log_writes_outside [OF l(2) log_pos_area [OF l(2)], of n st V xs D] by (auto simp: log_area_def)
  have G: "same_block (replay st ?D1 xs n) (V n)" if n: "n \<notin> log_area st" for n
  proof (cases "n \<in> set xs")
    case True
    then obtain i where i: "i < ?n" "n = xs ! i" by (metis in_set_conv_nth)
    then show ?thesis using replay_in [OF l(1) i(1)] pos(1) [OF i(1)] by simp
  next
    case False
    then show ?thesis using replay_out [OF False] out [OF n] V [OF False] by simp
  qed
  have hd: "head_is xs (?D1 st)" unfolding st by (rule head_is_data)
  have e: "head_is [] (head_data [] ?h)" by (rule head_is_data)
  show "recovers st (apply_writes (take k (commit_writes st V xs)) D) (if k \<le> ?n then D else V)"
  proof (cases "k \<le> ?n")
    case True
    have "take k (commit_writes st V xs) = log_writes st V xs k"
      unfolding W using True len by (simp add: log_writes_def take_map_upt)
    moreover have "apply_writes (log_writes st V xs k) D m = D m" if "m \<notin> log_area st \<or> m = st" for m
      by (rule log_writes_outside) (use that log_pos_area [of k m st] True l(2) in simp_all)
    ultimately show ?thesis using True old by (auto intro!: recovers_empty)
  next
    case False
    then have "length (?L @ [(st, ?h)]) \<le> k" using len by simp
    then have "take k (commit_writes st V xs) = (?L @ [(st, ?h)]) @ take (k - Suc ?n) ?T"
      unfolding W take_append by (simp add: len)
    moreover have "recovers st (apply_writes (take (k - Suc ?n) ?T) ?D1) V"
      by (rule install_prefix [OF ll hd pos(2) G e])
    ultimately show ?thesis using False by simp
  qed
  show "same_block (apply_writes (commit_writes st V xs) D n) (V n)" if "n \<notin> log_area st"
    using install_done(2) [OF ll pos(2) G e that] unfolding W apply_writes_simps(3) .
qed

section \<open>commit\<close>

lemma commit_ok:
  assumes ok: "cache_ok Q {} s" and pn: "pins Q xs s" and tx: "txn xs s" and ne: "xs \<noteq> []" and free: "c < NBUF" "c \<notin> Q"
  shows "\<exists>t. commit s = Ok () t \<and> cache_ok {} {} t \<and> log_n t = 0 \<and> lg_start (klog t) = lg_start (klog s) \<and> lg_dev (klog t) = ROOTDEV \<and>
    lg_outstanding (klog t) = lg_outstanding (klog s) \<and> dtrace t = dtrace s @ commit_writes (lg_start (klog s)) (view s) xs \<and>
    disk t = apply_writes (commit_writes (lg_start (klog s)) (view s) xs) (disk s)"
proof -
  let ?st = "lg_start (klog s)" and ?n = "length xs" and ?V = "view s"
  let ?L = "log_writes ?st ?V xs ?n" and ?h = "head_data xs (?V ?st)"
  let ?V1 = "apply_writes (?L @ [(?st, ?h)]) ?V"
  let ?I = "installs ?st ?V1 xs ?n"
  note l = log_listD [OF txnD(4) [OF tx]] and dev = txnD(1) [OF tx]
  from write_log_loop [OF ok pn tx free le_refl] obtain s1 where
    1: "for_each [0..<?n] write_log_one s = Ok () s1" "cache_ok Q {} s1" "pins Q xs s1" "put_through s ?L s1" by blast
  have k1: "klog s1 = klog s" using 1(4) by (simp add: put_through_def)
  have v1: "view s1 ?st = ?V ?st"
    using 1(4) log_writes_outside [OF l(2) log_pos_area [OF l(2)], of ?st ?st ?V xs ?V] by (simp add: put_through_def)
  have np1: "b_blockno (bufs s1 b) \<noteq> lg_start (klog s1)" if "b \<in> Q" for b
    using 1(3) l(3) that k1 by (auto simp: pins_def)
  have blk1: "log_block s1 i = xs ! i" if "i < ?n" for i using txnD(3) [OF tx that] k1 by simp
  from write_head_ok [OF 1(2) np1 free, of xs] dev txnD(2) [OF tx] blk1 l(2) obtain s2 where
    2: "write_head s1 = Ok () s2" "cache_ok Q {} s2" "\<forall>c \<in> Q. content (bufs s2 c) = content (bufs s1 c)" "put_through s1 [(?st, ?h)] s2"
    unfolding k1 v1 by auto
  have p2: "pins Q xs s2" using 1(3) 2(3) pins_cong [of Q s2 s1 xs] by simp
  have w2: "put_through s (?L @ [(?st, ?h)]) s2" by (rule put_through_append [OF 1(4) 2(4)])
  have k2: "klog s2 = klog s" and v2: "view s2 = ?V1" using w2 by (simp_all add: put_through_def)
  have t2: "txn xs s2" using tx txn_cong [OF k2] by simp
  from install_commit_loop [OF 2(2) p2 t2 free le_refl] obtain s3 Q' where
    3: "for_each [0..<?n] (install_one False) s2 = Ok () s3" "cache_ok Q' {} s3" "pins Q' [] s3" "put_through s2 ?I s3"
    unfolding k2 v2 by auto
  have Q': "Q' = {}" using 3(3) by (auto simp: pins_def)
  let ?s4 = "upd_log (\<lambda>l. l\<lparr>lg_lh := (lg_lh l)\<lparr>lh_n := 0\<rparr>\<rparr>) s3"
  have k3: "klog s3 = klog s" using 3(4) k2 by (simp add: put_through_def)
  have w3: "put_through s ((?L @ [(?st, ?h)]) @ ?I) s3" by (rule put_through_append [OF w2 3(4)])
  have v3: "view s3 ?st = ?h" using 3(4) v2 installs_outside [of ?n xs ?st ?st ?V1 ?V1] l(3) by (simp add: put_through_def)
  have ok4: "cache_ok {} {} ?s4" using 3(2) Q' by simp
  from write_head_ok [OF ok4 _ NBUF_pos, of "[]"] dev k3 v3 obtain t where
    t: "write_head ?s4 = Ok () t" "cache_ok {} {} t" "put_through ?s4 [(?st, head_data [] ?h)] t" by auto
  have "commit s = Ok () t"
    using 1(1) 2(1) 3(1) t(1) ne txnD(2) [OF tx] k2
    by (simp add: commit_def write_log_def install_trans_def set_log_n_def)
  moreover have "dtrace t = dtrace s @ commit_writes ?st ?V xs" "disk t = apply_writes (commit_writes ?st ?V xs) (disk s)"
    using w3 t(3) by (simp_all add: put_through_def commit_writes_def Let_def)
  moreover have "log_n t = 0" "lg_start (klog t) = ?st" "lg_dev (klog t) = ROOTDEV" "lg_outstanding (klog t) = lg_outstanding (klog s)" using t(3) k3 dev by (simp_all add: put_through_def)
  ultimately show ?thesis using t(2) by blast
qed

section \<open>Recovery\<close>

lemma upd_log_forget [simp]: "forget_cache (upd_log f s) = upd_log f (forget_cache s)"
  by (simp add: forget_cache_def upd_log_def)

lemma has_block_log [simp]: "has_block (upd_log f s) b n d = has_block s b n d"
  by (simp add: has_block_def)

lemma small_sint: "n \<le> LOGBLOCKS \<Longrightarrow> sint (of_nat n :: uint) = int n"
proof -
  assume n: "n \<le> LOGBLOCKS"
  have "signed_take_bit 31 (int n) = int n" by (rule signed_take_bit_int_eq_self) (use n in \<open>simp_all add: LOGBLOCKS_30\<close>)
  then show ?thesis by (simp add: signed_of_nat)
qed

lemma read_head_loop:
  assumes hb: "has_block s b st d" and hd: "head_is xs d" and len: "length xs \<le> LOGBLOCKS" and k: "k \<le> length xs"
  shows "for_each [0..<k] (\<lambda>i. block [
       fault_if (\<lambda>_. LOGBLOCKS \<le> i) ''read_head'',
       modify (\<lambda>s. upd_log (\<lambda>l. l\<lparr>lg_lh := (lg_lh l)\<lparr>lh_block :=
         (lh_block (lg_lh l))(i := get32 (b_data (bufs s b)) (head_block i))\<rparr>\<rparr>) s)]) s =
    Ok () (upd_log (\<lambda>l. l\<lparr>lg_lh := (lg_lh l)\<lparr>lh_block := (\<lambda>i. if i < k then xs ! i else lh_block (lg_lh l) i)\<rparr>\<rparr>) s)"
  using k
proof (induction k)
  case 0
  then show ?case by (simp add: upd_log_def)
next
  case (Suc k)
  let ?u = "\<lambda>k. upd_log (\<lambda>l. l\<lparr>lg_lh := (lg_lh l)\<lparr>lh_block := (\<lambda>i. if i < k then xs ! i else lh_block (lg_lh l) i)\<rparr>\<rparr>) s"
  have "k \<le> length xs" using Suc.prems by simp
  note IH = Suc.IH [OF this]
  have "get32 (b_data (bufs s b)) (head_block k) = xs ! k" using hb hd Suc.prems by (simp add: has_block_sels head_is_def)
  then have "block [fault_if (\<lambda>_. LOGBLOCKS \<le> k) ''read_head'',
       modify (\<lambda>s. upd_log (\<lambda>l. l\<lparr>lg_lh := (lg_lh l)\<lparr>lh_block :=
         (lh_block (lg_lh l))(k := get32 (b_data (bufs s b)) (head_block k))\<rparr>\<rparr>) s)] (?u k) = Ok () (?u (Suc k))"
    using len Suc.prems by (simp add: upd_log_def fun_eq_iff less_Suc_eq)
  from for_each_snoc [OF IH this] show ?case .
qed

lemma read_head_ok:
  assumes ok: "cache_ok {} {} s" and dev: "lg_dev (klog s) = ROOTDEV" and hd: "head_is xs (view s (lg_start (klog s)))"
    and ll: "log_list (lg_start (klog s)) xs"
  shows "\<exists>t. read_head s = Ok () t \<and> cache_ok {} {} t \<and> txn xs t \<and> view t = view s \<and> disk t = disk s \<and> dtrace t = dtrace s \<and>
    console_ready t = console_ready s \<and> klog t = (klog s)\<lparr>lg_lh := lg_lh (klog t)\<rparr>"
proof -
  let ?st = "lg_start (klog s)" and ?n = "length xs"
  note l = log_listD [OF ll]
  from bread_pinned [OF ok, of ?st] NBUF_pos obtain b s1 where
    1: "bread ROOTDEV ?st s = Ok b s1" "cache_ok {} {b} s1" "has_block s1 b ?st (view s ?st)" "view s1 = view s" "disk s1 = disk s"
      "forget_cache s1 = forget_cache s" by auto
  note f = forget_cache_sels [OF 1(6)]
  let ?s2 = "upd_log (\<lambda>l. l\<lparr>lg_lh := (lg_lh l)\<lparr>lh_n := int ?n\<rparr>\<rparr>) s1"
  let ?s3 = "upd_log (\<lambda>l. l\<lparr>lg_lh := (lg_lh l)\<lparr>lh_block := (\<lambda>i. if i < ?n then xs ! i else lh_block (lg_lh l) i)\<rparr>\<rparr>) ?s2"
  have n: "sint (get32 (b_data (bufs s1 b)) 0) = int ?n"
    using 1(3) hd l(2) by (simp add: has_block_sels head_is_def small_sint)
  have h2: "has_block ?s2 b ?st (view s ?st)" using 1(3) by simp
  note loop = read_head_loop [OF h2 hd l(2) le_refl]
  have ok3: "cache_ok {} {b} ?s3" and h3: "has_block ?s3 b ?st (view s ?st)" using 1(2,3) by simp_all
  have "view s ?st = disk ?s3 ?st" using view_clean [OF ok] 1(5) by simp
  with brelse_ok [OF ok3 _ h3] obtain t where
    t: "brelse b ?s3 = Ok () t" "cache_ok {} {} t" "view t = view ?s3" "disk t = disk ?s3" "forget_cache t = forget_cache ?s3" by auto
  note g = forget_cache_sels [OF t(5)]
  have "read_head s = Ok () t" using 1(1) dev n loop t(1) by (simp add: read_head_def)
  moreover have "txn xs t" using g(1) f(1) dev ll by (simp add: txn_def)
  ultimately show ?thesis using t(2-4) 1(4,5) f g by auto
qed

lemma recover_ok:
  assumes ok: "cache_ok {} {} s" and rd: "console_ready s" and dev: "lg_dev (klog s) = ROOTDEV"
    and rc: "recovers (lg_start (klog s)) (disk s) G"
  shows "\<exists>t ws. recover_from_log s = Ok () t \<and> cache_ok {} {} t \<and> dtrace t = dtrace s @ ws \<and> disk t = apply_writes ws (disk s) \<and>
    (\<forall>k. recovers (lg_start (klog s)) (apply_writes (take k ws) (disk s)) G) \<and>
    (\<forall>n. n \<notin> log_area (lg_start (klog s)) \<longrightarrow> same_block (disk t n) (G n)) \<and> head_is [] (disk t (lg_start (klog s))) \<and> log_n t = 0 \<and>
    klog t = (klog s)\<lparr>lg_lh := lg_lh (klog t)\<rparr>"
proof -
  let ?st = "lg_start (klog s)"
  have vd: "view s n = disk s n" for n using view_clean [OF ok] by simp
  from rc obtain xs where xs: "log_list ?st xs" "head_is xs (disk s ?st)"
    "\<And>n. n \<notin> log_area ?st \<Longrightarrow> same_block (replay ?st (disk s) xs n) (G n)" by (auto simp: recovers_def)
  note l = log_listD [OF xs(1)]
  from read_head_ok [OF ok dev _ xs(1)] xs(2) vd obtain s1 where
    1: "read_head s = Ok () s1" "cache_ok {} {} s1" "txn xs s1" "view s1 = view s" "disk s1 = disk s" "dtrace s1 = dtrace s"
      "console_ready s1 = console_ready s" and k1: "klog s1 = (klog s)\<lparr>lg_lh := lg_lh (klog s1)\<rparr>" by auto
  have st1: "lg_start (klog s1) = ?st" by (subst k1) simp
  let ?I = "installs ?st (view s) xs (length xs)"
  from install_recover_loop [OF 1(2) _ 1(3) le_refl] rd 1(7) obtain s2 where
    2: "for_each [0..<length xs] (install_one True) s1 = Ok () s2" "cache_ok {} {} s2" "put_through s1 ?I s2" unfolding 1(4) st1 by auto
  let ?s3 = "upd_log (\<lambda>l. l\<lparr>lg_lh := (lg_lh l)\<lparr>lh_n := 0\<rparr>\<rparr>) s2"
  have k2: "klog s2 = klog s1" using 2(3) by (simp add: put_through_def)
  have v2: "view s2 ?st = view s ?st" using 2(3) 1(4) installs_outside [of "length xs" xs ?st] l(3) by (simp add: put_through_def)
  have ok3: "cache_ok {} {} ?s3" using 2(2) by simp
  from write_head_ok [OF ok3 _ NBUF_pos, of "[]"] txnD(1) [OF 1(3)] k2 v2 st1 obtain t where
    t: "write_head ?s3 = Ok () t" "cache_ok {} {} t" "put_through ?s3 [(?st, head_data [] (view s ?st))] t" by auto
  let ?ws = "?I @ [(?st, head_data [] (view s ?st))]"
  have run: "recover_from_log s = Ok () t"
    using 1(1) 2(1) t(1) txnD(2) [OF 1(3)] by (simp add: recover_from_log_def install_trans_def set_log_n_def)
  have tr: "dtrace t = dtrace s @ ?ws" "disk t = apply_writes ?ws (disk s)" "log_n t = 0"
    using 2(3) t(3) 1(5,6) by (simp_all add: put_through_def)
  have e: "head_is [] (head_data [] (view s ?st))" by (rule head_is_data)
  have "recovers ?st (apply_writes (take k ?ws) (disk s)) G" for k
    by (rule install_prefix [OF xs(1,2) vd xs(3) e])
  moreover have "same_block (disk t n) (G n)" if "n \<notin> log_area ?st" for n
    unfolding tr(2) by (rule install_done(2) [OF xs(1) vd xs(3) e that])
  moreover have "head_is [] (disk t ?st)" unfolding tr(2) using e by simp
  moreover have "klog t = (klog s)\<lparr>lg_lh := lg_lh (klog t)\<rparr>" using t(3) k2 by (simp add: put_through_def) (subst k1, simp)
  ultimately show ?thesis using run t(2) tr by blast
qed

section \<open>Operations of a transaction\<close>

text \<open>\<open>in_log Q xs s\<close>: between two steps of the operations; the blocks \<open>xs\<close> are logged and their buffers \<open>Q\<close> pinned.\<close>

definition in_log :: "nat set \<Rightarrow> uint list \<Rightarrow> ('z) logk_scheme \<Rightarrow> bool" where
  "in_log Q xs s \<longleftrightarrow> cache_ok Q {} s \<and> pins Q xs s \<and> txn xs s \<and> \<not> lg_committing (klog s)"

lemma acq_log [kcomm]: "upd_log f (acq l s) = acq l (upd_log f s)"
  by (simp add: upd_log_def acq_def mach_defs)

lemma klog_frame [simp]: "klog (acq l s) = klog s" "klog (upd_buf b f s) = klog s" "bufs (acq l t) = bufs t"
  by (simp_all add: acq_def mach_defs upd_buf_def)

lemma calm_log [simp]: "calm H (upd_log f s) = calm H s"
  by (rule calm_cong(1)) (simp_all add: upd_log_def)

lemma upd_log_twice: "upd_log f (upd_log g s) = upd_log (\<lambda>l. f (g l)) s"
  by (simp add: upd_log_def)

lemma begin_op_ok:
  assumes c: "calm {} s" and nc: "\<not> lg_committing (klog s)"
    and room: "log_n s + (lg_outstanding (klog s) + 1) * int MAXOPBLOCKS \<le> int LOGBLOCKS"
  shows "begin_op s = Ok () (upd_log (\<lambda>l. l\<lparr>lg_outstanding := lg_outstanding l + 1\<rparr>) s)"
proof -
  have "calm {} (upd_log (\<lambda>l. l\<lparr>lg_outstanding := lg_outstanding l + 1\<rparr>) s)" using c by simp
  note r = calm_release [OF this]
  show ?thesis using r nc room calm_acquire [OF c, of LogLock] by (simp add: begin_op_def begin_op_tail_def kcomm)
qed

lemma wakeup_log: "calm {} s \<Longrightarrow> wakeup cn (acq LogLock s) = Ok () (acq LogLock s)"
  by (rule calm_wakeup [OF calm_acq]) (use acq_nested [of s LogLock] calmD(1) in auto)

lemma end_op_other:
  assumes c: "calm {} s" and nc: "\<not> lg_committing (klog s)" and o: "lg_outstanding (klog s) \<noteq> 1"
  shows "end_op s = Ok () (upd_log (\<lambda>l. l\<lparr>lg_outstanding := lg_outstanding l - 1\<rparr>) s)"
proof -
  let ?t = "upd_log (\<lambda>l. l\<lparr>lg_outstanding := lg_outstanding l - 1\<rparr>) s"
  have t: "calm {} ?t" using c by simp
  show ?thesis using nc o wakeup_log [OF t] calm_release [OF t, of LogLock] calm_acquire [OF c, of LogLock]
    by (simp add: end_op_def kcomm)
qed

lemma end_op_last:
  assumes c: "calm {} s" and nc: "\<not> lg_committing (klog s)" and o: "lg_outstanding (klog s) = 1"
    and cm: "commit (upd_log (\<lambda>l. l\<lparr>lg_outstanding := 0, lg_committing := True\<rparr>) s) = Ok () t" and ct: "calm {} t"
  shows "end_op s = Ok () (upd_log (\<lambda>l. l\<lparr>lg_committing := False\<rparr>) t)"
proof -
  let ?s = "upd_log (\<lambda>l. l\<lparr>lg_outstanding := 0, lg_committing := True\<rparr>) s" and ?t = "upd_log (\<lambda>l. l\<lparr>lg_committing := False\<rparr>) t"
  have 1: "calm {} ?s" and 2: "calm {} ?t" using c ct by simp_all
  have e: "upd_log (\<lambda>l. l\<lparr>lg_committing := True\<rparr>) (upd_log (\<lambda>l. l\<lparr>lg_outstanding := lg_outstanding l - 1\<rparr>) s) = ?s"
    using o by (simp add: upd_log_def)
  show ?thesis
    using nc o e cm wakeup_log [OF 2] calm_release [OF 1, of LogLock] calm_release [OF 2, of LogLock]
      calm_acquire [OF c, of LogLock] calm_acquire [OF ct, of LogLock]
    by (simp add: end_op_def kcomm)
qed

section \<open>log_write\<close>

lemma absorb_eq:
  assumes "\<And>k. k < length xs \<Longrightarrow> blks (i + k) = xs ! k" and "distinct xs"
  shows "absorb (length xs) blks bn i = i + length (takeWhile (\<lambda>x. x \<noteq> bn) xs)"
  using assms
proof (induction xs arbitrary: i)
  case (Cons x xs)
  have "blks i = x" using Cons.prems(1) [of 0] by simp
  moreover have "blks (Suc i + k) = xs ! k" if "k < length xs" for k using Cons.prems(1) [of "Suc k"] that by simp
  ultimately show ?case using Cons.IH [of "Suc i"] Cons.prems(2) by simp
qed simp

definition logged :: "uint \<Rightarrow> uint list \<Rightarrow> uint list" where
  "logged n xs = (if n \<in> set xs then xs else xs @ [n])"

lemma takeWhile_pos:
  "n \<in> set xs \<Longrightarrow> length (takeWhile (\<lambda>x. x \<noteq> n) xs) < length xs \<and> xs ! length (takeWhile (\<lambda>x. x \<noteq> n) xs) = n"
  "n \<notin> set xs \<Longrightarrow> takeWhile (\<lambda>x. x \<noteq> n) xs = xs"
  by (induction xs) auto

lemma bpin_calm: "calm H s \<Longrightarrow> BcacheLock \<notin> H \<Longrightarrow> bpin b s = Ok () (upd_buf b (\<lambda>r. r\<lparr>b_refcnt := b_refcnt r + 1\<rparr>) s)"
proof -
  assume c: "calm H s" and l: "BcacheLock \<notin> H"
  let ?t = "upd_buf b (\<lambda>r. r\<lparr>b_refcnt := b_refcnt r + 1\<rparr>) s"
  have "calm H ?t" using c by simp
  then show ?thesis using calm_acquire [OF c l] calm_release [of H ?t BcacheLock] l by (simp add: bpin_def kcomm)
qed

lemma log_write_new:
  assumes c: "calm {} s" and tx: "txn xs s" and len: "length xs < LOGBLOCKS" and o: "1 \<le> lg_outstanding (klog s)"
    and n: "b_blockno (bufs s b) \<notin> set xs"
  shows "log_write b s = Ok ()
    (upd_log (\<lambda>l. l\<lparr>lg_lh := \<lparr>lh_n = int (length xs) + 1, lh_block = (lh_block (lg_lh l))(length xs := b_blockno (bufs s b))\<rparr>\<rparr>)
      (upd_buf b (\<lambda>r. r\<lparr>b_refcnt := b_refcnt r + 1\<rparr>) s))" (is "_ = Ok () ?t")
proof -
  let ?n = "b_blockno (bufs s b)" and ?i = "length xs" and ?f = "\<lambda>r. r\<lparr>b_refcnt := b_refcnt r + 1\<rparr>"
  let ?u = "upd_log (\<lambda>l. l\<lparr>lg_lh := (lg_lh l)\<lparr>lh_block := (lh_block (lg_lh l))(?i := ?n)\<rparr>\<rparr>) s"
  have i: "absorb (nat (log_n s)) (log_block s) ?n 0 = ?i"
    using absorb_eq [of xs "log_block s" 0 ?n] txnD(2,3) [OF tx] log_listD(1) [OF txnD(4) [OF tx]] takeWhile_pos(2) [OF n] by simp
  have u: "calm {LogLock} (acq LogLock ?u)" using calm_acq [of "{}" ?u LogLock] c by simp
  have t: "calm {} ?t" using c by simp
  have "upd_log (\<lambda>l. l\<lparr>lg_lh := (lg_lh l)\<lparr>lh_n := int ?i + 1\<rparr>\<rparr>) (upd_buf b ?f ?u) = ?t"
    by (simp add: upd_log_def upd_buf_def)
  then have "set_log_n (int ?i + 1) (acq LogLock (upd_buf b ?f ?u)) = Ok () (acq LogLock ?t)"
    by (simp add: set_log_n_def acq_log)
  then show ?thesis
    using calm_acquire [OF c, of LogLock] txnD(2) [OF tx] len o i bpin_calm [OF u, of b] calm_release [OF t, of LogLock]
    by (simp add: log_write_def kcomm)
qed

lemma log_write_absorbed:
  assumes c: "calm {} s" and tx: "txn xs s" and len: "length xs < LOGBLOCKS" and o: "1 \<le> lg_outstanding (klog s)"
    and n: "b_blockno (bufs s b) \<in> set xs"
  shows "log_write b s = Ok () s"
proof -
  let ?n = "b_blockno (bufs s b)" and ?i = "length (takeWhile (\<lambda>x. x \<noteq> b_blockno (bufs s b)) xs)"
  note i = takeWhile_pos(1) [OF n]
  have a: "absorb (nat (log_n s)) (log_block s) ?n 0 = ?i"
    using absorb_eq [of xs "log_block s" 0 ?n] txnD(2,3) [OF tx] log_listD(1) [OF txnD(4) [OF tx]] by simp
  have "(log_block s)(?i := ?n) = log_block s" using i txnD(3) [OF tx, of ?i] by (simp add: fun_upd_idem)
  then have "upd_log (\<lambda>l. l\<lparr>lg_lh := (lg_lh l)\<lparr>lh_block := (lh_block (lg_lh l))(?i := ?n)\<rparr>\<rparr>) s = s"
    by (simp add: upd_log_def)
  moreover have "int ?i \<noteq> log_n s" using i txnD(2) [OF tx] by simp
  ultimately show ?thesis
    using calm_acquire [OF c, of LogLock] txnD(2) [OF tx] len o a calm_release [OF c, of LogLock]
    by (simp add: log_write_def kcomm)
qed

text \<open>A file system operation that changes a block: it reads the block, changes the buffer, logs it and releases it.\<close>

definition logged_update :: "uint \<Rightarrow> (blk \<Rightarrow> blk) \<Rightarrow> ('z logk_scheme, unit) km" where
  "logged_update n g = bind (bread ROOTDEV n) (\<lambda>b. block [upd_data b g, log_write b, brelse b])"

lemma pins_card:
  assumes ok: "cache_ok Q H s" and pn: "pins Q xs s" and "distinct xs"
  shows "card Q = length xs"
proof -
  have "inj_on (\<lambda>b. b_blockno (bufs s b)) Q"
    by (rule inj_onI) (use cache_okD(4,9) [OF ok] cache_okD(5) [OF ok] in metis)
  moreover have "(\<lambda>b. b_blockno (bufs s b)) ` Q = set xs" using pn by (auto simp: pins_def)
  ultimately show ?thesis using assms(3) by (metis card_image distinct_card)
qed

lemma pins_free:
  assumes ok: "cache_ok Q H s" and pn: "pins Q xs s" and "distinct xs" and "length xs < LOGBLOCKS"
  shows "\<exists>c < NBUF. c \<notin> Q"
proof -
  have "finite Q" using cache_okD(4) [OF ok] by (meson finite_lessThan finite_subset lessThan_iff subsetI)
  moreover have "card Q < card {..<NBUF}" using pins_card [OF assms(1-3)] assms(4) by (simp add: NBUF_def LOGBLOCKS_def)
  ultimately have "\<not> {..<NBUF} \<subseteq> Q" by (meson card_mono not_le)
  then show ?thesis by auto
qed

lemma log_write_ok:
  assumes ok: "cache_ok Q {b} s" and hb: "has_block s b n d" and pn: "pins Q xs s" and tx: "txn xs s"
    and bq: "b \<in> Q \<longleftrightarrow> n \<in> set xs" and len: "length xs < LOGBLOCKS"
    and o: "1 \<le> lg_outstanding (klog s)" and n: "n \<notin> log_area (lg_start (klog s))"
  shows "\<exists>t Q'. log_write b s = Ok () t \<and> cache_ok Q' {b} t \<and> pins Q' (logged n xs) t \<and> txn (logged n xs) t \<and> b \<in> Q' \<and>
     has_block t b n d \<and> view t = view s \<and> disk t = disk s \<and> dtrace t = dtrace s \<and> lg_start (klog t) = lg_start (klog s) \<and>
     lg_outstanding (klog t) = lg_outstanding (klog s) \<and> lg_committing (klog t) = lg_committing (klog s)"
proof (cases "n \<in> set xs")
  case True
  have "log_write b s = Ok () s" using log_write_absorbed [OF cache_okD(1) [OF ok] tx len o] True hb by (simp add: has_block_sels)
  then show ?thesis using True bq ok hb pn tx by (intro exI [of _ s] exI [of _ Q]) (simp add: logged_def)
next
  case False
  note tn = txnD [OF tx] and l = log_listD [OF txnD(4) [OF tx]]
  have bn: "b_blockno (bufs s b) = n" using hb by (simp add: has_block_sels)
  let ?u = "upd_buf b (\<lambda>r. r\<lparr>b_refcnt := b_refcnt r + 1\<rparr>) s"
  let ?t = "upd_log (\<lambda>l. l\<lparr>lg_lh := \<lparr>lh_n = int (length xs) + 1, lh_block = (lh_block (lg_lh l))(length xs := n)\<rparr>\<rparr>) ?u"
  have run: "log_write b s = Ok () ?t"
    using log_write_new [OF cache_okD(1) [OF ok] tx len o, of b] False unfolding bn by simp
  have ku: "klog ?u = klog s" by (simp add: upd_buf_def)
  have "bpin b s = Ok () ?u" by (rule bpin_calm [OF cache_okD(1) [OF ok]]) simp
  with bpin_ok [OF ok, of b] bq False have
    u: "cache_ok (insert b Q) {b} ?u" "view ?u = view s" "disk ?u = disk s" "forget_cache ?u = forget_cache s"
      "\<forall>c. content (bufs ?u c) = content (bufs s c)" by auto
  have bl: "b_blockno (bufs ?u c) = b_blockno (bufs s c)" for c using u(5) by (simp add: content_def)
  have p: "pins (insert b Q) (logged n xs) ?t" using pn bl bn False by (auto simp: pins_def logged_def)
  have "log_list (lg_start (klog s)) (logged n xs)" using tn(4) len n False by (simp add: log_list_def logged_def)
  then have t: "txn (logged n xs) ?t" using tn(1-3) False ku by (simp add: txn_def logged_def nth_append)
  have h: "has_block ?t b n d" using hb has_block_cong [OF u(5) [rule_format], of b n d] by simp
  have "cache_ok (insert b Q) {b} ?t" "view ?t = view s" "disk ?t = disk s" "dtrace ?t = dtrace s"
    using u(1-3) forget_cache_sels(2) [OF u(4)] by simp_all
  moreover have "lg_start (klog ?t) = lg_start (klog s)" "lg_outstanding (klog ?t) = lg_outstanding (klog s)"
    "lg_committing (klog ?t) = lg_committing (klog s)" using ku by simp_all
  ultimately show ?thesis using run p t h by blast
qed

lemma logged_update_ok:
  assumes il: "in_log Q xs s" and len: "length xs < LOGBLOCKS" and o: "1 \<le> lg_outstanding (klog s)"
    and n: "n \<notin> log_area (lg_start (klog s))"
  shows "\<exists>Q' t. logged_update n g s = Ok () t \<and> in_log Q' (logged n xs) t \<and> view t = (view s)(n := g (view s n)) \<and>
    disk t = disk s \<and> dtrace t = dtrace s \<and> lg_start (klog t) = lg_start (klog s) \<and> lg_outstanding (klog t) = lg_outstanding (klog s)"
proof -
  from il have ok: "cache_ok Q {} s" and pn: "pins Q xs s" and tx: "txn xs s" and nc: "\<not> lg_committing (klog s)"
    by (simp_all add: in_log_def)
  note ll = txnD(4) [OF tx] and l = log_listD [OF txnD(4) [OF tx]]
  from bread_pinned [OF ok, of n] pins_free [OF ok pn l(1) len] obtain b s1 where
    1: "bread ROOTDEV n s = Ok b s1" "cache_ok Q {b} s1" "has_block s1 b n (view s n)" "view s1 = view s" "disk s1 = disk s"
      "forget_cache s1 = forget_cache s" "\<forall>c. c \<in> Q \<or> c \<noteq> b \<longrightarrow> content (bufs s1 c) = content (bufs s c)"
      "b \<in> Q \<longleftrightarrow> (\<exists>c \<in> Q. b_blockno (bufs s c) = n)" by auto
  from upd_data_ok [OF 1(2) _ 1(3), of g] obtain s2 where
    2: "upd_data b g s1 = Ok () s2" "cache_ok Q {b} s2" "has_block s2 b n (g (view s n))" "view s2 = (view s1)(n := g (view s n))"
      "disk s2 = disk s1" "forget_cache s2 = forget_cache s1" "\<forall>c. c \<noteq> b \<longrightarrow> content (bufs s2 c) = content (bufs s1 c)" by auto
  note f = forget_cache_sels [OF 1(6)] forget_cache_sels [OF 2(6)]
  have bn: "b_blockno (bufs s2 b) = n" using 2(3) by (simp add: has_block_sels)
  have qn: "b_blockno (bufs s2 c) = b_blockno (bufs s c)" if "c \<in> Q" for c
    using that 1(3,7) 2(7) bn by (cases "c = b") (auto simp: content_def has_block_sels)
  have p2: "pins Q xs s2" using pn qn by (simp add: pins_def)
  have t2: "txn xs s2" using tx f(1,6) txn_cong [of s2 s] by simp
  have "b \<in> Q \<longleftrightarrow> n \<in> set xs" using 1(8) pn by (auto simp: pins_def)
  from log_write_ok [OF 2(2,3) p2 t2 this len] o n f(1,6) obtain t Q' where
    3: "log_write b s2 = Ok () t" "cache_ok Q' {b} t" "pins Q' (logged n xs) t" "txn (logged n xs) t" "b \<in> Q'"
      "has_block t b n (g (view s n))" "view t = view s2" "disk t = disk s2" "dtrace t = dtrace s2" "lg_start (klog t) = lg_start (klog s2)"
      "lg_outstanding (klog t) = lg_outstanding (klog s2)" "lg_committing (klog t) = lg_committing (klog s2)" by auto
  from brelse_ok [OF 3(2) _ 3(6)] 3(5) obtain u where
    4: "brelse b t = Ok () u" "cache_ok Q' {} u" "view u = view t" "disk u = disk t" "forget_cache u = forget_cache t"
      "\<forall>c. content (bufs u c) = content (bufs t c)" by auto
  note g = forget_cache_sels [OF 4(5)]
  have "in_log Q' (logged n xs) u"
    using 4(2) 3(3,4,12) g(1) 4(6) pins_cong [of Q' u t] txn_cong [of u t] nc f by (simp add: in_log_def)
  moreover have "logged_update n g s = Ok () u" using 1(1) 2(1) 3(1) 4(1) by (simp add: logged_update_def)
  ultimately show ?thesis using 4(3,4) 3 2(4,5) 1(4,5) f g by (intro exI [of _ Q'] exI [of _ u]) simp
qed

section \<open>The transactions as a specification\<close>

text \<open>
  A client of the log sees a store of blocks: operations open and close, the open ones change blocks of the store, and
  when the last one closes the store is saved.
\<close>

datatype lop = OpBegin | OpWrite uint "blk \<Rightarrow> blk" | OpEnd

record lspec =
  sp_store :: "uint \<Rightarrow> blk"
  sp_saved :: "uint \<Rightarrow> blk"
  sp_open :: nat
  sp_logged :: "uint list"

fun spec_step :: "lop \<Rightarrow> lspec \<Rightarrow> lspec" where
  "spec_step OpBegin a = a\<lparr>sp_open := sp_open a + 1\<rparr>"
| "spec_step (OpWrite n g) a = a\<lparr>sp_store := (sp_store a)(n := g (sp_store a n)), sp_logged := logged n (sp_logged a)\<rparr>"
| "spec_step OpEnd a = (if sp_open a = 1 then a\<lparr>sp_open := 0, sp_saved := sp_store a, sp_logged := []\<rparr> else a\<lparr>sp_open := sp_open a - 1\<rparr>)"

text \<open>What the log asks of its clients; \<open>OpBegin\<close> beyond its bound waits.\<close>

fun lop_ok :: "uint \<Rightarrow> lop \<Rightarrow> lspec \<Rightarrow> bool" where
  "lop_ok st OpBegin a \<longleftrightarrow> length (sp_logged a) + (sp_open a + 1) * MAXOPBLOCKS \<le> LOGBLOCKS"
| "lop_ok st (OpWrite n g) a \<longleftrightarrow> 1 \<le> sp_open a \<and> n \<notin> log_area st \<and> length (sp_logged a) < LOGBLOCKS"
| "lop_ok st OpEnd a \<longleftrightarrow> 1 \<le> sp_open a \<and> (sp_open a = 1 \<longrightarrow> length (sp_logged a) < LOGBLOCKS)"

primrec lops_ok :: "uint \<Rightarrow> lop list \<Rightarrow> lspec \<Rightarrow> bool" where
  "lops_ok st [] a \<longleftrightarrow> True"
| "lops_ok st (x # xs) a \<longleftrightarrow> lop_ok st x a \<and> lops_ok st xs (spec_step x a)"

fun run_lop :: "lop \<Rightarrow> ('z logk_scheme, unit) km" where
  "run_lop OpBegin = begin_op"
| "run_lop (OpWrite n g) = logged_update n g"
| "run_lop OpEnd = end_op"

definition home :: "uint \<Rightarrow> (uint \<Rightarrow> blk) \<Rightarrow> uint \<Rightarrow> blk" where
  "home st V n = (if n \<in> log_area st then (\<lambda>_. 0) else V n)"

definition refines :: "uint \<Rightarrow> lspec \<Rightarrow> ('z) logk_scheme \<Rightarrow> bool" where
  "refines st a s \<longleftrightarrow> (\<exists>Q. in_log Q (sp_logged a) s) \<and> lg_start (klog s) = st \<and> lg_outstanding (klog s) = int (sp_open a) \<and>
     sp_store a = home st (view s) \<and> head_is [] (disk s st) \<and> (\<forall>n. n \<notin> log_area st \<longrightarrow> same_block (disk s n) (sp_saved a n))"

lemma recovers_home: "recovers st D (home st G) = recovers st D G"
  by (simp add: recovers_def home_def)

lemma recovers_cong:
  assumes "recovers st D G" and "\<And>n. n \<notin> log_area st \<Longrightarrow> same_block (G n) (G' n)"
  shows "recovers st D G'"
  using assms unfolding recovers_def by (meson same_block_trans)

lemma refines_recovers: "refines st a s \<Longrightarrow> recovers st (disk s) (sp_saved a)"
  unfolding refines_def by (intro recovers_empty) blast+

lemma cp_cp: "cp (cp a b) a = a"
  by (auto simp: cp_def put_bytes_def get_bytes_def)

lemma commit_exact:
  assumes ll: "log_list st xs" and V: "\<And>n. n \<notin> set xs \<Longrightarrow> V n = D n" and n: "n \<notin> log_area st"
  shows "apply_writes (commit_writes st V xs) D n = V n"
proof -
  let ?n = "length xs" and ?h = "head_data xs (V st)"
  let ?L = "log_writes st V xs ?n"
  let ?V1 = "apply_writes (?L @ [(st, ?h)]) V" and ?D1 = "apply_writes (?L @ [(st, ?h)]) D"
  note l = log_listD [OF ll]
  have st: "n \<noteq> st" "\<And>i. i < LOGBLOCKS \<Longrightarrow> n \<noteq> log_pos st i" using n by (auto simp: log_area_def)
  have out: "apply_writes ?L dk n = dk n" for dk by (rule log_writes_outside [OF l(2) log_pos_area [OF l(2)]]) (use n in simp)
  have "apply_writes (commit_writes st V xs) D n = apply_writes (installs st ?V1 xs ?n) ?D1 n"
    using st(1) by (simp add: commit_writes_def Let_def)
  also have "\<dots> = V n"
  proof (cases "n \<in> set xs")
    case True
    then obtain i where i: "i < ?n" "n = xs ! i" by (metis in_set_conv_nth)
    have "?V1 (log_pos st i) = cp (V n) (V (log_pos st i))"
      using log_writes_at [OF i(1) l(2)] log_pos_start [OF l(5) [OF i(1)]] i(2) by simp
    moreover have "?V1 n = V n" using st(1) out by simp
    ultimately show ?thesis using installs_at [OF l(1) i(1) le_refl, of st ?V1 ?D1] i(2) cp_cp by simp
  next
    case False
    then show ?thesis using installs_outside [of ?n xs n st ?V1 ?D1] st(1) out [of D] V by simp
  qed
  finally show ?thesis .
qed

definition crash_safe :: "uint \<Rightarrow> (uint \<Rightarrow> blk) \<Rightarrow> (uint \<times> blk) list \<Rightarrow> (uint \<Rightarrow> blk) \<Rightarrow> (uint \<Rightarrow> blk) \<Rightarrow> bool" where
  "crash_safe st D ws G G' \<longleftrightarrow> (\<forall>k. recovers st (apply_writes (take k ws) D) G \<or> recovers st (apply_writes (take k ws) D) G')"

lemma crash_safe_Nil: "recovers st D G \<Longrightarrow> crash_safe st D [] G G'"
  by (simp add: crash_safe_def)

lemma in_log_upd [simp]:
  "in_log Q xs (upd_log (\<lambda>l. l\<lparr>lg_outstanding := k l\<rparr>) s) = in_log Q xs s"
  by (simp add: in_log_def txn_def pins_def)

lemma commit_step:
  assumes il: "in_log Q xs s" and len: "length xs < LOGBLOCKS" and hd: "head_is [] (disk s (lg_start (klog s)))"
  defines "s' \<equiv> upd_log (\<lambda>l. l\<lparr>lg_outstanding := 0, lg_committing := True\<rparr>) s" and "st \<equiv> lg_start (klog s)"
  shows "\<exists>t ws. commit s' = Ok () t \<and> cache_ok {} {} t \<and> log_n t = 0 \<and> lg_start (klog t) = st \<and> lg_dev (klog t) = ROOTDEV \<and>
    lg_outstanding (klog t) = 0 \<and> dtrace t = dtrace s @ ws \<and> disk t = apply_writes ws (disk s) \<and> head_is [] (disk t st) \<and>
    (\<forall>n. n \<notin> log_area st \<longrightarrow> disk t n = view s n) \<and> crash_safe st (disk s) ws (disk s) (view s)"
proof -
  from il have ok: "cache_ok Q {} s" and pn: "pins Q xs s" and tx: "txn xs s" by (simp_all add: in_log_def)
  note ll = txnD(4) [OF tx] and l = log_listD [OF txnD(4) [OF tx]]
  have ok': "cache_ok Q {} s'" "pins Q xs s'" "txn xs s'" using ok pn tx by (simp_all add: s'_def pins_def txn_def)
  have V: "view s n = disk s n" if "n \<notin> set xs" for n
    by (rule view_clean [OF ok]) (use pn that in \<open>auto simp: pins_def\<close>)
  show ?thesis
  proof (cases "xs = []")
    case True
    then have "Q = {}" using pn by (auto simp: pins_def)
    moreover have "commit s' = Ok () s'" using True txnD(2) [OF tx] by (simp add: commit_def s'_def)
    moreover have "crash_safe st (disk s) [] (disk s) (view s)" using hd by (intro crash_safe_Nil recovers_empty) (simp_all add: st_def)
    ultimately show ?thesis using True ok'(1) txnD(1,2) [OF tx] hd V
      by (intro exI [of _ s'] exI [of _ "[]"]) (simp add: s'_def st_def)
  next
    case False
    from pins_free [OF ok pn l(1) len] obtain c where c: "c < NBUF" "c \<notin> Q" by blast
    from commit_ok [OF ok' False c] obtain t where
      t: "commit s' = Ok () t" "cache_ok {} {} t" "log_n t = 0" "lg_start (klog t) = st" "lg_dev (klog t) = ROOTDEV"
        "lg_outstanding (klog t) = 0" "dtrace t = dtrace s @ commit_writes st (view s) xs"
        "disk t = apply_writes (commit_writes st (view s) xs) (disk s)" by (auto simp: s'_def st_def)
    note ll' = ll [folded st_def] and hd' = hd [folded st_def]
    have "crash_safe st (disk s) (commit_writes st (view s) xs) (disk s) (view s)"
      unfolding crash_safe_def using commit_prefix(1) [where D = "disk s" and V = "view s", OF ll' hd' V] by (metis (full_types))
    moreover have "disk t n = view s n" if "n \<notin> log_area st" for n unfolding t(8) by (rule commit_exact [OF ll' V that])
    moreover have "head_is [] (disk t st)" unfolding t(8) commit_writes_def Let_def by (simp add: head_is_data)
    ultimately show ?thesis using t by (intro exI conjI) auto
  qed
qed

lemma step_refines:
  assumes r: "refines st a s" and g: "lop_ok st x a"
  shows "\<exists>t ws. run_lop x s = Ok () t \<and> refines st (spec_step x a) t \<and> dtrace t = dtrace s @ ws \<and> disk t = apply_writes ws (disk s) \<and>
    crash_safe st (disk s) ws (sp_saved a) (sp_saved (spec_step x a))"
proof -
  from r obtain Q where il: "in_log Q (sp_logged a) s" and st: "lg_start (klog s) = st" and o: "lg_outstanding (klog s) = int (sp_open a)"
    and V: "sp_store a = home st (view s)" and hd: "head_is [] (disk s st)"
    and sv: "\<And>n. n \<notin> log_area st \<Longrightarrow> same_block (disk s n) (sp_saved a n)" by (auto simp: refines_def)
  from il have ok: "cache_ok Q {} s" and tx: "txn (sp_logged a) s" and nc: "\<not> lg_committing (klog s)" by (simp_all add: in_log_def)
  note c = cache_okD(1) [OF ok] and rc = refines_recovers [OF r]
  show ?thesis
  proof (cases x)
    case OpBegin
    let ?t = "upd_log (\<lambda>l. l\<lparr>lg_outstanding := lg_outstanding l + 1\<rparr>) s"
    have "log_n s + (lg_outstanding (klog s) + 1) * int MAXOPBLOCKS \<le> int LOGBLOCKS"
      using g OpBegin txnD(2) [OF tx] o by (simp add: MAXOPBLOCKS_def LOGBLOCKS_30)
    then have "begin_op s = Ok () ?t" by (rule begin_op_ok [OF c nc])
    moreover have "refines st (spec_step x a) ?t" using il st o V hd sv OpBegin by (auto simp: refines_def)
    ultimately show ?thesis using OpBegin crash_safe_Nil [OF rc] by (intro exI [of _ ?t] exI [of _ "[]"]) simp
  next
    case (OpWrite n g)
    then have n: "n \<notin> log_area st" and len: "length (sp_logged a) < LOGBLOCKS" and "1 \<le> lg_outstanding (klog s)" using g o by simp_all
    from logged_update_ok [OF il len this(3), of n g] n st obtain Q' t where
      t: "logged_update n g s = Ok () t" "in_log Q' (logged n (sp_logged a)) t" "view t = (view s)(n := g (view s n))" "disk t = disk s"
        "dtrace t = dtrace s" "lg_start (klog t) = st" "lg_outstanding (klog t) = lg_outstanding (klog s)" by auto
    have "(home st (view s))(n := g (home st (view s) n)) = home st (view t)" using n t(3) by (auto simp: home_def)
    then have "refines st (spec_step x a) t" using t OpWrite V hd sv o by (auto simp: refines_def)
    with t(1,4,5) OpWrite crash_safe_Nil [OF rc] show ?thesis by (intro exI [of _ t] exI [of _ "[]"]) simp
  next
    case OpEnd
    show ?thesis
    proof (cases "sp_open a = 1")
      case False
      let ?t = "upd_log (\<lambda>l. l\<lparr>lg_outstanding := lg_outstanding l - 1\<rparr>) s"
      have "end_op s = Ok () ?t" by (rule end_op_other [OF c nc]) (use o False in simp)
      moreover have "refines st (spec_step x a) ?t" using il st o V hd sv OpEnd False g by (auto simp: refines_def of_nat_diff)
      ultimately show ?thesis using OpEnd crash_safe_Nil [OF rc] by (intro exI [of _ ?t] exI [of _ "[]"]) simp
    next
      case True
      have len: "length (sp_logged a) < LOGBLOCKS" using g OpEnd True by simp
      from commit_step [OF il len] hd st obtain t ws where
        t: "commit (upd_log (\<lambda>l. l\<lparr>lg_outstanding := 0, lg_committing := True\<rparr>) s) = Ok () t" "cache_ok {} {} t" "log_n t = 0"
          "lg_start (klog t) = st" "lg_dev (klog t) = ROOTDEV" "lg_outstanding (klog t) = 0" "dtrace t = dtrace s @ ws"
          "disk t = apply_writes ws (disk s)" "head_is [] (disk t st)" "\<forall>n. n \<notin> log_area st \<longrightarrow> disk t n = view s n"
          "crash_safe st (disk s) ws (disk s) (view s)" by auto
      let ?t = "upd_log (\<lambda>l. l\<lparr>lg_committing := False\<rparr>) t"
      have "end_op s = Ok () ?t" by (rule end_op_last [OF c nc _ t(1) cache_okD(1) [OF t(2)]]) (use o True in simp)
      moreover have "in_log {} [] ?t" using t(2-5) by (simp add: in_log_def pins_def txn_def log_list_def)
      moreover have "view ?t n = disk t n" for n using view_clean [OF t(2)] by simp
      then have "home st (view ?t) = home st (view s)" using t(10) by (auto simp: home_def)
      ultimately have "refines st (spec_step x a) ?t" using OpEnd True t V by (auto simp: refines_def home_def)
      moreover have "crash_safe st (disk s) ws (sp_saved a) (sp_store a)"
        using t(11) sv recovers_cong [of st _ "disk s" "sp_saved a"] unfolding crash_safe_def V recovers_home by blast
      ultimately show ?thesis using t(7,8) OpEnd True \<open>end_op s = Ok () ?t\<close> by (intro exI [of _ ?t] exI [of _ ws]) simp
    qed
  qed
qed

text \<open>A sequence of operations: every crash recovers to what some prefix of the sequence has saved.\<close>

definition spec_run :: "lop list \<Rightarrow> lspec \<Rightarrow> lspec" where
  "spec_run xs a = fold spec_step xs a"

lemma spec_run_simps [simp]: "spec_run [] a = a" "spec_run (x # xs) a = spec_run xs (spec_step x a)"
  by (simp_all add: spec_run_def)

lemma run_refines:
  assumes "refines st a s" and "lops_ok st xs a"
  shows "\<exists>t ws. for_each xs run_lop s = Ok () t \<and> refines st (spec_run xs a) t \<and> dtrace t = dtrace s @ ws \<and>
    disk t = apply_writes ws (disk s) \<and>
    (\<forall>k. \<exists>i. recovers st (apply_writes (take k ws) (disk s)) (sp_saved (spec_run (take i xs) a)))"
  using assms
proof (induction xs arbitrary: a s)
  case Nil
  then show ?case using refines_recovers [OF Nil(1)] by (intro exI [of _ s] exI [of _ "[]"]) simp
next
  case (Cons x xs)
  let ?b = "spec_step x a"
  from Cons.prems step_refines [of st a s x] obtain u vs where
    u: "run_lop x s = Ok () u" "refines st ?b u" "dtrace u = dtrace s @ vs" "disk u = apply_writes vs (disk s)"
      "crash_safe st (disk s) vs (sp_saved a) (sp_saved ?b)" by auto
  from Cons.IH [OF u(2)] Cons.prems(2) obtain t ws where
    t: "for_each xs run_lop u = Ok () t" "refines st (spec_run xs ?b) t" "dtrace t = dtrace u @ ws" "disk t = apply_writes ws (disk u)"
      "\<forall>k. \<exists>i. recovers st (apply_writes (take k ws) (disk u)) (sp_saved (spec_run (take i xs) ?b))" by auto
  have "\<exists>i. recovers st (apply_writes (take k (vs @ ws)) (disk s)) (sp_saved (spec_run (take i (x # xs)) a))" for k
  proof (cases "k \<le> length vs")
    case True
    then have "recovers st (apply_writes (take k (vs @ ws)) (disk s)) (sp_saved (spec_run (take 0 (x # xs)) a)) \<or>
       recovers st (apply_writes (take k (vs @ ws)) (disk s)) (sp_saved (spec_run (take 1 (x # xs)) a))"
      using u(5) by (simp add: crash_safe_def)
    then show ?thesis by blast
  next
    case False
    from t(5) obtain i where "recovers st (apply_writes (take (k - length vs) ws) (disk u)) (sp_saved (spec_run (take i xs) ?b))" by blast
    then have "recovers st (apply_writes (take k (vs @ ws)) (disk s)) (sp_saved (spec_run (take (Suc i) (x # xs)) a))"
      using False u(4) by simp
    then show ?thesis by blast
  qed
  then show ?case using u t by (intro exI [of _ t] exI [of _ "vs @ ws"]) simp
qed

section \<open>Recovery at boot\<close>

lemma initlog_ok:
  assumes ok: "cache_ok {} {} s" and rd: "console_ready s" and rc: "recovers st (disk s) G"
  shows "\<exists>t ws. initlog ROOTDEV st s = Ok () t \<and> cache_ok {} {} t \<and> dtrace t = dtrace s @ ws \<and> disk t = apply_writes ws (disk s) \<and>
    (\<forall>k. recovers st (apply_writes (take k ws) (disk s)) G) \<and> (\<forall>n. n \<notin> log_area st \<longrightarrow> same_block (disk t n) (G n)) \<and>
    head_is [] (disk t st) \<and> log_n t = 0 \<and> klog t = (klog s)\<lparr>lg_start := st, lg_dev := ROOTDEV, lg_lh := lg_lh (klog t)\<rparr>"
proof -
  let ?s1 = "upd_lock LogLock (\<lambda>k. k\<lparr>lk_name := ''log'', locked := False, lk_cpu := None\<rparr>) s"
  let ?s2 = "upd_log (\<lambda>l. l\<lparr>lg_start := st, lg_dev := ROOTDEV\<rparr>) ?s1"
  have "calm {} ?s1" using cache_okD(1) [OF ok] by (auto simp: calm_def irq_wf_def settle_id_iff lock_free_def upd_lock_def)
  then have "cache_ok {} {} ?s1" using ok by (auto simp: cache_ok_def upd_lock_def cur_def)
  then have ok2: "cache_ok {} {} ?s2" by simp
  have "console_ready ?s2" "disk ?s2 = disk s" "dtrace ?s2 = dtrace s" "klog ?s1 = klog s" using rd by (simp_all add: console_ready_def upd_lock_def upd_log_def)
  with recover_ok [OF ok2, of G] rc obtain t ws where t: "recover_from_log ?s2 = Ok () t" "cache_ok {} {} t" "dtrace t = dtrace s @ ws"
    "disk t = apply_writes ws (disk s)" "\<forall>k. recovers st (apply_writes (take k ws) (disk s)) G"
    "\<forall>n. n \<notin> log_area st \<longrightarrow> same_block (disk t n) (G n)" "head_is [] (disk t st)" "log_n t = 0"
    "klog t = (klog s)\<lparr>lg_start := st, lg_dev := ROOTDEV, lg_lh := lg_lh (klog t)\<rparr>" by auto
  have "initlog ROOTDEV st s = Ok () t"
    using t(1) by (simp add: initlog_def initlock_def LOGBLOCKS_30 BSIZE_def upd_lock_def upd_log_def)
  with t(2-) show ?thesis by blast
qed

section \<open>A full log\<close>

lemma commit_full:
  assumes ok: "cache_ok Q {} s" and pn: "pins Q xs s" and tx: "txn xs s" and full: "length xs = LOGBLOCKS"
  shows "commit s = Panic ''bget: no buffers''"
proof -
  note l = log_listD [OF txnD(4) [OF tx]]
  have sub: "Q \<subseteq> {..<NBUF}" using cache_okD(4) [OF ok] by auto
  have "card Q = card {..<NBUF}" using pins_card [OF ok pn l(1)] full by (simp add: NBUF_def LOGBLOCKS_def)
  then have Q: "Q = {..<NBUF}" using card_subset_eq [OF _ sub] by simp
  let ?l = "log_at s 0"
  have "?l \<notin> set xs" using l(4) [of 0] full by (simp add: log_at_pos LOGBLOCKS_30)
  moreover have "b_blockno (bufs s b) \<in> set xs" if "b < NBUF" for b using pn that unfolding pins_def Q by blast
  ultimately have "\<not> caches (bufs s b) ?l" if "b < NBUF" for b using that by metis
  then have "bget ROOTDEV ?l s = Panic ''bget: no buffers''" by (rule bget_full [OF ok]) (simp_all add: Q)
  then have "bread ROOTDEV ?l s = Panic ''bget: no buffers''" by (simp add: bread_def)
  then have "write_log_one 0 s = Panic ''bget: no buffers''"
    using txnD(1) [OF tx] by (simp add: write_log_one_def log_at_def)
  moreover have "[0..<nat (log_n s)] = 0 # [1..<nat (log_n s)]" using txnD(2) [OF tx] full by (simp add: LOGBLOCKS_30 upt_conv_Cons)
  ultimately show ?thesis using txnD(2) [OF tx] full by (simp add: commit_def write_log_def LOGBLOCKS_30)
qed

lemma end_op_full:
  assumes r: "refines st a s" and o: "sp_open a = 1" and full: "length (sp_logged a) = LOGBLOCKS"
  shows "end_op s = Panic ''bget: no buffers''"
proof -
  from r obtain Q where il: "in_log Q (sp_logged a) s" and out: "lg_outstanding (klog s) = 1" using o by (auto simp: refines_def)
  let ?s = "upd_log (\<lambda>l. l\<lparr>lg_outstanding := 0, lg_committing := True\<rparr>) s"
  have c: "calm {} s" "\<not> lg_committing (klog s)" "calm {} ?s" using il cache_okD(1) by (auto simp: in_log_def)
  have "commit ?s = Panic ''bget: no buffers''"
    by (rule commit_full [where Q = Q and xs = "sp_logged a"]) (use il full in \<open>simp_all add: in_log_def pins_def txn_def\<close>)
  moreover have "upd_log (\<lambda>l. l\<lparr>lg_committing := True\<rparr>) (upd_log (\<lambda>l. l\<lparr>lg_outstanding := lg_outstanding l - 1\<rparr>) s) = ?s"
    using out by (simp add: upd_log_def)
  ultimately show ?thesis using c(2) out calm_release [OF c(3), of LogLock] calm_acquire [OF c(1), of LogLock]
    by (simp add: end_op_def kcomm)
qed

text \<open>No operation is open and nothing is logged.\<close>

definition log_idle :: "uint \<Rightarrow> ('z) logk_scheme \<Rightarrow> bool" where
  "log_idle st s \<longleftrightarrow> in_log {} [] s \<and> lg_start (klog s) = st \<and> lg_outstanding (klog s) = 0 \<and> head_is [] (disk s st)"

definition idle_spec :: "uint \<Rightarrow> ('z) bio_scheme \<Rightarrow> lspec" where
  "idle_spec st s = \<lparr>sp_store = home st (view s), sp_saved = home st (view s), sp_open = 0, sp_logged = []\<rparr>"

lemma idle_refines: "log_idle st s \<Longrightarrow> refines st (idle_spec st s) s"
proof -
  assume i: "log_idle st s"
  then have "view s n = disk s n" for n using view_clean [of "{}" s n] by (simp add: log_idle_def in_log_def)
  with i show ?thesis by (auto simp: refines_def idle_spec_def log_idle_def home_def)
qed

lemma writes_ok:
  assumes "1 \<le> sp_open a" and "distinct (sp_logged a @ ns)" and "length (sp_logged a @ ns) \<le> LOGBLOCKS" and "set ns \<inter> log_area st = {}"
  shows "lops_ok st (map (\<lambda>n. OpWrite n g) ns) a \<and>
    sp_open (spec_run (map (\<lambda>n. OpWrite n g) ns) a) = sp_open a \<and> sp_logged (spec_run (map (\<lambda>n. OpWrite n g) ns) a) = sp_logged a @ ns"
  using assms
proof (induction ns arbitrary: a)
  case (Cons n ns)
  let ?b = "spec_step (OpWrite n g) a"
  have b: "sp_logged ?b = sp_logged a @ [n]" "sp_open ?b = sp_open a" using Cons.prems(2) by (simp_all add: logged_def)
  have "lops_ok st (map (\<lambda>n. OpWrite n g) ns) ?b \<and> sp_open (spec_run (map (\<lambda>n. OpWrite n g) ns) ?b) = sp_open ?b \<and>
    sp_logged (spec_run (map (\<lambda>n. OpWrite n g) ns) ?b) = sp_logged ?b @ ns"
    by (rule Cons.IH) (use Cons.prems in \<open>simp_all add: logged_def\<close>)
  then show ?case using Cons.prems b by simp
qed simp

lemma lops_ok_append: "lops_ok st (xs @ ys) a \<longleftrightarrow> lops_ok st xs a \<and> lops_ok st ys (spec_run xs a)"
  by (induction xs arbitrary: a) auto

lemma spec_run_append: "spec_run (xs @ ys) a = spec_run ys (spec_run xs a)"
  by (simp add: spec_run_def)

text \<open>Three operations that log thirty blocks, and the first two of them end.\<close>

definition full_ops :: "uint list \<Rightarrow> (blk \<Rightarrow> blk) \<Rightarrow> lop list" where
  "full_ops ns g = replicate 3 OpBegin @ map (\<lambda>n. OpWrite n g) ns @ replicate 2 OpEnd"

lemma full_ops_ok:
  assumes "sp_open a = 0" "sp_logged a = []" and "distinct ns" and "length ns = LOGBLOCKS" and "set ns \<inter> log_area st = {}"
  shows "lops_ok st (full_ops ns g) a \<and> sp_open (spec_run (full_ops ns g) a) = 1 \<and> length (sp_logged (spec_run (full_ops ns g) a)) = LOGBLOCKS"
proof -
  let ?a3 = "spec_run (replicate 3 OpBegin) a"
  have a3: "sp_open ?a3 = 3" "sp_logged ?a3 = []" "lops_ok st (replicate 3 OpBegin) a"
    using assms(1,2) by (simp_all add: eval_nat_numeral MAXOPBLOCKS_def LOGBLOCKS_30)
  have "lops_ok st (map (\<lambda>n. OpWrite n g) ns) ?a3 \<and> sp_open (spec_run (map (\<lambda>n. OpWrite n g) ns) ?a3) = 3 \<and>
    sp_logged (spec_run (map (\<lambda>n. OpWrite n g) ns) ?a3) = ns"
    using writes_ok [of ?a3 ns st g] a3 assms(3-5) by simp
  then show ?thesis using a3(3) assms(4) by (simp add: full_ops_def lops_ok_append spec_run_append eval_nat_numeral)
qed

lemma far_block: "unat st + LOGBLOCKS < unat n \<Longrightarrow> n \<notin> log_area st"
proof
  assume f: "unat st + LOGBLOCKS < unat n" and "n \<in> log_area st"
  then obtain k where k: "k < LOGBLOCKS" "n = st + of_nat (Suc k)" by (auto simp: log_area_def log_pos_def ac_simps)
  have "unat n \<le> unat st + unat (of_nat (Suc k) :: uint)" unfolding k(2) unat_word_ariths(1) by (rule mod_less_eq_dividend)
  also have "\<dots> \<le> unat st + Suc k" unfolding unat_of_nat by (rule add_left_mono, rule mod_less_eq_dividend)
  finally show False using f k(1) by simp
qed

section \<open>The log in use\<close>

definition zero_logk :: logk where
  "zero_logk = virt.extend (bio.extend zero_bio (virt.fields
     \<lparr>vq_desc = (\<lambda>_. \<lparr>vd_addr = ANull, vd_len = 0, vd_flags = 0, vd_next = 0\<rparr>), vq_avail_idx = 0, vq_avail_ring = (\<lambda>_. 0),
       vq_used_idx = 0, vq_used_ring = (\<lambda>_. 0), vfree = (\<lambda>_. True), vused_idx = 0, vinfo_b = (\<lambda>_. None), vinfo_status = (\<lambda>_. 0),
       vops = (\<lambda>_. \<lparr>vr_type = 0, vr_reserved = 0, vr_sector = 0\<rparr>), vpages = [], vregs = (\<lambda>_. 0), vio_mask = 0\<rparr>))
     (logk.fields \<lparr>lg_start = 0, lg_outstanding = 0, lg_committing = False, lg_dev = 0, lg_lh = \<lparr>lh_n = 0, lh_block = (\<lambda>_. 0)\<rparr>\<rparr>)"

lemmas zero_logk_defs = zero_logk_def zero_bio_defs virt.defs logk.defs

lemma zero_logk_calm: "calm {} zero_logk"
  by (auto simp: calm_def irq_wf_def settle_id_iff lock_free_def zero_logk_defs zero_proc_def)

lemma zero_logk_sels:
  "unused_buf (bufs zero_logk b)" "console_ready zero_logk" "disk zero_logk = (\<lambda>_ _. 0)" "dtrace zero_logk = []"
  "lg_outstanding (klog zero_logk) = 0" "\<not> lg_committing (klog zero_logk)"
  by (simp_all add: zero_logk_defs unused_buf_def zero_buf_def ROOTDEV_def console_ready_def)

lemma klog_more: "bio.more t = bio.more s \<Longrightarrow> klog t = klog s"
  by (cases t, cases s) simp

text \<open>A disk of zeros has an empty log.\<close>

lemma zero_recovers: "recovers st (\<lambda>_ _. 0) (\<lambda>_ _. 0)"
  by (rule recovers_empty) (simp_all add: head_is_def get32_def get_bytes_def eval_nat_numeral)

lemma zero_boot: "\<exists>s t. binit zero_logk = Ok () s \<and> cache_ok {} {} s \<and> console_ready s \<and> disk s = (\<lambda>_ _. 0) \<and> initlog ROOTDEV st s = Ok () t \<and>
  log_idle st t"
proof -
  from binit_ok [OF zero_logk_calm zero_logk_sels(1)] obtain s where
    s: "binit zero_logk = Ok () s" "cache_ok {} {} s" "disk s = (\<lambda>_ _. 0)" "bio.more s = bio.more zero_logk" "console_ready s"
    using zero_logk_sels by auto
  note k = klog_more [OF s(4)]
  from initlog_ok [OF s(2,5), of st "\<lambda>_ _. 0"] zero_recovers s(3) obtain t where
    t: "initlog ROOTDEV st s = Ok () t" "cache_ok {} {} t" "log_n t = 0" "head_is [] (disk t st)"
      "\<forall>n. n \<notin> log_area st \<longrightarrow> same_block (disk t n) (\<lambda>_. 0)"
      and kt: "klog t = (klog s)\<lparr>lg_start := st, lg_dev := ROOTDEV, lg_lh := lg_lh (klog t)\<rparr>" by auto
  have "lg_dev (klog t) = ROOTDEV" "\<not> lg_committing (klog t)" "lg_start (klog t) = st" "lg_outstanding (klog t) = 0"
    by (subst kt, simp add: k zero_logk_sels)+
  with s t show ?thesis by (intro exI [of _ s] exI [of _ t]) (simp add: log_idle_def in_log_def pins_def txn_def log_list_def)
qed

text \<open>
  C1. Transactions are atomic with respect to crashes. From an idle log, any sequence of \<^verbatim>\<open>begin_op\<close>, logged changes of
  blocks and \<^verbatim>\<open>end_op\<close> within the limits of the log, of one or of several operations at once, runs to its end and
  leaves the store the specification gives. And if the machine stops after any number of the disk writes of the run, then
  \<^verbatim>\<open>initlog\<close> on the disk found at the next boot returns, and every block outside the log is the one that some prefix of
  the sequence had saved: all changes of the operations that a commit covers are there, or none of them.
\<close>

theorem log_crash_atomic:
  assumes "log_idle st s" and "lops_ok st xs (idle_spec st s)"
  shows "\<exists>t ws. for_each xs run_lop s = Ok () t \<and> refines st (spec_run xs (idle_spec st s)) t \<and> dtrace t = dtrace s @ ws \<and>
    (\<forall>k r. cache_ok {} {} r \<longrightarrow> console_ready r \<longrightarrow> disk r = apply_writes (take k ws) (disk s) \<longrightarrow>
      (\<exists>u i. initlog ROOTDEV st r = Ok () u \<and>
        (\<forall>n. n \<notin> log_area st \<longrightarrow> same_block (disk u n) (sp_saved (spec_run (take i xs) (idle_spec st s)) n))))"
proof -
  from run_refines [OF idle_refines [OF assms(1)] assms(2)] obtain t ws where
    t: "for_each xs run_lop s = Ok () t" "refines st (spec_run xs (idle_spec st s)) t" "dtrace t = dtrace s @ ws"
      "\<forall>k. \<exists>i. recovers st (apply_writes (take k ws) (disk s)) (sp_saved (spec_run (take i xs) (idle_spec st s)))" by auto
  have "\<exists>u i. initlog ROOTDEV st r = Ok () u \<and>
      (\<forall>n. n \<notin> log_area st \<longrightarrow> same_block (disk u n) (sp_saved (spec_run (take i xs) (idle_spec st s)) n))"
    if r: "cache_ok {} {} r" "console_ready r" "disk r = apply_writes (take k ws) (disk s)" for k r
  proof -
    from t(4) obtain i where "recovers st (disk r) (sp_saved (spec_run (take i xs) (idle_spec st s)))" unfolding r(3) by blast
    from initlog_ok [OF r(1,2) this] show ?thesis by blast
  qed
  with t(1-3) show ?thesis by blast
qed

theorem log_crash_atomic_witness:
  "\<exists>s b t. binit zero_logk = Ok () b \<and> initlog ROOTDEV 2 b = Ok () s \<and>
    for_each [OpBegin, OpWrite 100 (put32 0 7), OpWrite 101 (put32 4 9), OpEnd] run_lop s = Ok () t \<and>
    view t 100 = put32 0 7 (view s 100)"
proof -
  from zero_boot [of 2] obtain b s where 1: "binit zero_logk = Ok () b" "initlog ROOTDEV 2 b = Ok () s" "log_idle 2 s" by blast
  have f: "100 \<notin> log_area 2" "101 \<notin> log_area 2" by (rule far_block; simp add: LOGBLOCKS_30)+
  let ?xs = "[OpBegin, OpWrite 100 (put32 0 7), OpWrite 101 (put32 4 9), OpEnd]"
  have "lops_ok 2 ?xs (idle_spec 2 s)" using f by (simp add: idle_spec_def MAXOPBLOCKS_def LOGBLOCKS_30 logged_def)
  from log_crash_atomic [OF 1(3) this] obtain t where
    t: "for_each ?xs run_lop s = Ok () t" "refines 2 (spec_run ?xs (idle_spec 2 s)) t" by blast
  from t(2) have "sp_store (spec_run ?xs (idle_spec 2 s)) = home 2 (view t)" by (simp only: refines_def)
  from fun_cong [OF this, of 100] have "put32 0 7 (home 2 (view s) 100) = home 2 (view t) 100" by (simp add: idle_spec_def)
  with f have "view t 100 = put32 0 7 (view s 100)" by (simp add: home_def)
  with 1 t(1) show ?thesis by blast
qed

text \<open>
  C2. Recovery is restartable. Whatever committed store \<open>G\<close> a disk recovers to, \<^verbatim>\<open>initlog\<close> brings the blocks outside the log
  to it and empties the log; and a crash after any number of its own writes leaves a disk that still recovers to \<open>G\<close>.
\<close>

theorem recovery_restartable:
  assumes "cache_ok {} {} s" and "console_ready s" and "recovers st (disk s) G"
  shows "\<exists>t ws. initlog ROOTDEV st s = Ok () t \<and> dtrace t = dtrace s @ ws \<and> disk t = apply_writes ws (disk s) \<and>
    (\<forall>k. recovers st (apply_writes (take k ws) (disk s)) G) \<and> (\<forall>n. n \<notin> log_area st \<longrightarrow> same_block (disk t n) (G n)) \<and>
    head_is [] (disk t st) \<and> log_n t = 0"
  using initlog_ok [OF assms] by blast

theorem recovery_restartable_witness:
  "\<exists>b t. binit zero_logk = Ok () b \<and> initlog ROOTDEV 2 b = Ok () t \<and> same_block (disk t 100) (\<lambda>_. 0) \<and> head_is [] (disk t 2)"
proof -
  from zero_boot [of 2] obtain b where b: "binit zero_logk = Ok () b" "cache_ok {} {} b" "console_ready b" "disk b = (\<lambda>_ _. 0)" by blast
  have "recovers 2 (disk b) (\<lambda>_ _. 0)" unfolding b(4) by (rule zero_recovers)
  moreover have "100 \<notin> log_area 2" by (rule far_block) (simp add: LOGBLOCKS_30)
  ultimately show ?thesis using recovery_restartable [OF b(2,3)] b(1) by blast
qed

text \<open>
  C3. The log and the buffer cache have the same size, NBUF = LOGBLOCKS = 3 * MAXOPBLOCKS, so that a log filled by operations
  that keep to their limits cannot be committed: three operations that log ten blocks each are admitted, but every buffer is
  pinned when the last one ends, and \<^verbatim>\<open>commit\<close>, which needs a buffer for the first log block, panics.
\<close>

theorem full_log_commit_panics:
  assumes "log_idle st s" and "distinct ns" and "length ns = LOGBLOCKS" and "set ns \<inter> log_area st = {}"
  shows "\<exists>t. for_each (full_ops ns g) run_lop s = Ok () t \<and> end_op t = Panic ''bget: no buffers''"
proof -
  have "sp_open (idle_spec st s) = 0" "sp_logged (idle_spec st s) = []" by (simp_all add: idle_spec_def)
  note f = full_ops_ok [OF this assms(2-4), of g]
  with run_refines [OF idle_refines [OF assms(1)]] obtain t where
    "for_each (full_ops ns g) run_lop s = Ok () t" "refines st (spec_run (full_ops ns g) (idle_spec st s)) t" by blast
  with f end_op_full show ?thesis by blast
qed

theorem full_log_commit_panics_witness:
  "\<exists>b s t. binit zero_logk = Ok () b \<and> initlog ROOTDEV 2 b = Ok () s \<and>
    for_each (full_ops (map of_nat [100..<130]) (put32 0 7)) run_lop s = Ok () t \<and> end_op t = Panic ''bget: no buffers''"
proof -
  let ?ns = "map of_nat [100..<130] :: uint list"
  from zero_boot [of 2] obtain b s where 1: "binit zero_logk = Ok () b" "initlog ROOTDEV 2 b = Ok () s" "log_idle 2 s" by blast
  have "distinct ?ns" by (simp add: upt_rec)
  moreover have "length ?ns = LOGBLOCKS" by (simp add: LOGBLOCKS_30)
  moreover have "n \<notin> log_area 2" if "n \<in> set ?ns" for n
    by (rule far_block) (use that in \<open>auto simp: LOGBLOCKS_30 unat_of_nat\<close>)
  then have "set ?ns \<inter> log_area 2 = {}" by blast
  ultimately show ?thesis using full_log_commit_panics [OF 1(3)] 1 by blast
qed

end
