(* ===== verification/Pipe.thy ===== *)
theory Pipe
  imports File Crash
begin

text \<open>
  Pipes (\<^verbatim>\<open>kernel/pipe.c\<close>) are first-in first-out channels of bytes: the ring buffer with its two wrapping counters represents the
  list of bytes written and not yet read (\<open>pipe_rep\<close>), \<^verbatim>\<open>pipewrite\<close> appends the bytes of the user's memory to it and \<^verbatim>\<open>piperead\<close> takes
  them from its front.
\<close>

section \<open>The ring\<close>

definition pipe_rep :: "pipe \<Rightarrow> uchar list \<Rightarrow> bool" where
  "pipe_rep p q \<longleftrightarrow> p_nwrite p = p_nread p + of_nat (length q) \<and> length q \<le> unat PIPESIZE \<and>
     (\<forall>i < length q. p_data p (unat ((p_nread p + of_nat i) mod PIPESIZE)) = q ! i)"

lemma PIPESIZE_512: "unat PIPESIZE = 512"
  by (simp add: PIPESIZE_def)

text \<open>The counters wrap around at \<open>2 ^ 32\<close>, a multiple of the size of the ring.\<close>

lemma ring_index: "unat ((r + of_nat i) mod PIPESIZE) = (unat r + i) mod 512"
proof -
  have "(unat r + unat (of_nat i :: uint)) mod 2 ^ 32 mod 512 = (unat r + i) mod 512"
    by (simp add: unat_of_nat mod_mod_cancel mod_add_right_eq)
  then show ?thesis by (simp add: unat_mod unat_word_ariths PIPESIZE_def)
qed

lemma ring_inj_le:
  assumes "i \<le> j" and "j < 512" and "(a + i) mod 512 = (a + j) mod 512"
  shows "i = (j :: nat)"
proof -
  have "512 dvd (a + j) - (a + i)" using assms(1,3) by (subst mod_eq_dvd_iff_nat [symmetric]) simp_all
  then have "512 dvd j - i" by simp
  moreover have "j - i < 512" using assms(2) by simp
  ultimately show ?thesis using assms(1) by (metis diff_is_0_eq le_antisym nat_dvd_not_less not_gr0)
qed

lemma ring_inj: "i < 512 \<Longrightarrow> j < 512 \<Longrightarrow> (a + i) mod 512 = (a + j) mod 512 \<longleftrightarrow> i = (j :: nat)"
  using ring_inj_le [of i j a] ring_inj_le [of j i a] by (cases "i \<le> j") auto

lemma pipe_put:
  assumes "pipe_rep p q" and "length q < 512"
  shows "pipe_rep (p\<lparr>p_data := (p_data p)(unat (p_nwrite p mod PIPESIZE) := c), p_nwrite := p_nwrite p + 1\<rparr>) (q @ [c])"
proof -
  have w: "unat (p_nwrite p mod PIPESIZE) = (unat (p_nread p) + length q) mod 512"
    using assms(1) ring_index by (simp add: pipe_rep_def)
  show ?thesis using assms ring_inj [of _ "length q" "unat (p_nread p)"] unfolding pipe_rep_def w ring_index
    by (auto simp: PIPESIZE_512 nth_append less_Suc_eq)
qed

lemma pipe_get:
  assumes "pipe_rep p (c # q)"
  shows "p_data p (unat (p_nread p mod PIPESIZE)) = c" and "pipe_rep (p\<lparr>p_nread := p_nread p + 1\<rparr>) q"
proof -
  show "p_data p (unat (p_nread p mod PIPESIZE)) = c" using assms by (auto simp: pipe_rep_def dest: spec [of _ 0])
  have "p_data p (unat ((p_nread p + 1 + of_nat i) mod PIPESIZE)) = q ! i" if "i < length q" for i
  proof -
    have "p_data p (unat ((p_nread p + of_nat (Suc i)) mod PIPESIZE)) = (c # q) ! Suc i"
      using assms that unfolding pipe_rep_def by (metis Suc_less_eq length_Cons)
    then show ?thesis by (simp add: add.assoc)
  qed
  then show "pipe_rep (p\<lparr>p_nread := p_nread p + 1\<rparr>) q" using assms by (simp add: pipe_rep_def algebra_simps)
qed

lemma pipe_full: "pipe_rep p q \<Longrightarrow> p_nwrite p = p_nread p + PIPESIZE \<longleftrightarrow> length q = 512"
proof -
  assume r: "pipe_rep p q"
  then have l: "length q \<le> 512" by (simp add: pipe_rep_def PIPESIZE_512)
  have "p_nwrite p = p_nread p + PIPESIZE \<longleftrightarrow> (of_nat (length q) :: uint) = of_nat 512" using r by (simp add: pipe_rep_def PIPESIZE_def)
  also have "\<dots> \<longleftrightarrow> length q = 512" using l by (simp only: word_of_nat_eq_iff) (simp add: take_bit_nat_eq_self)
  finally show ?thesis .
qed

lemma pipe_empty: "pipe_rep p q \<Longrightarrow> p_nread p = p_nwrite p \<longleftrightarrow> q = []"
proof -
  assume r: "pipe_rep p q"
  then have l: "length q \<le> 512" by (simp add: pipe_rep_def PIPESIZE_512)
  have "p_nread p = p_nwrite p \<longleftrightarrow> (of_nat (length q) :: uint) = of_nat 0" using r by (simp add: pipe_rep_def)
  also have "\<dots> \<longleftrightarrow> length q = 0" using l by (simp only: word_of_nat_eq_iff) (simp add: take_bit_nat_eq_self)
  finally show ?thesis by simp
qed

section \<open>User memory\<close>

definition user_source :: "mem \<Rightarrow> uint64 \<Rightarrow> uint64 \<Rightarrow> nat \<Rightarrow> bool" where
  "user_source m pt va n \<longleftrightarrow> unat va + n \<le> 2 ^ 38 \<and> (\<forall>i < n. user_mapped m pt (va + of_nat i))"

definition user_bytes :: "mem \<Rightarrow> uint64 \<Rightarrow> uint64 \<Rightarrow> nat \<Rightarrow> uchar list" where
  "user_bytes m pt va n = map (\<lambda>i. m (phys_addr m pt (va + of_nat i))) [0..<n]"

lemma length_user_bytes [simp]: "length (user_bytes m pt va n) = n"
  by (simp add: user_bytes_def)

lemma copyin_user_bytes:
  assumes "pt_wf (pmem s) pt" and "user_source (pmem s) pt va n"
  shows "copyin pt va (of_nat n) s = Ok (0, user_bytes (pmem s) pt va n) s"
proof -
  have u: "unat (of_nat n :: uint64) = n" using assms(2) by (simp add: user_source_def unat_of_nat)
  have "copyin_loop (Suc n) pt va (of_nat n) s =
      Ok (0, map (\<lambda>i. pmem s (phys_addr (pmem s) pt (va + of_nat i))) [0..<unat (of_nat n :: uint64)]) s"
    by (rule copyin_loop_ok [OF assms(1)]) (use assms(2) u in \<open>auto simp: user_source_def\<close>)
  then show ?thesis by (simp only: copyin_def u user_bytes_def)
qed

lemma user_source_Suc:
  assumes "user_source m pt va (Suc n)"
  shows "user_mapped m pt va" and "user_source m pt (va + 1) n" and "user_source m pt va 1"
    and "user_bytes m pt va (Suc n) = m (phys_addr m pt va) # user_bytes m pt (va + 1) n"
proof -
  have len: "unat va + Suc n \<le> 2 ^ 38" and um: "\<And>i. i < Suc n \<Longrightarrow> user_mapped m pt (va + of_nat i)" using assms by (auto simp: user_source_def)
  show va: "user_mapped m pt va" using um [of 0] by simp
  have "user_mapped m pt (va + 1 + of_nat i)" if "i < n" for i using um [of "Suc i"] that by (simp add: add.assoc)
  moreover have "unat (va + 1) = unat va + 1" using unat_add_nat [of va 1] len by simp
  ultimately show "user_source m pt (va + 1) n" using len by (simp add: user_source_def)
  show "user_source m pt va 1" using va len by (simp add: user_source_def)
  show "user_bytes m pt va (Suc n) = m (phys_addr m pt va) # user_bytes m pt (va + 1) n"
    unfolding user_bytes_def upt_conv_Cons [OF zero_less_Suc] map_Suc_upt [symmetric] by (simp add: add.assoc comp_def)
qed

lemma user_target_Suc:
  assumes "user_target m pt va (Suc n)"
  shows "user_target m pt va 1" and "user_target m pt (va + 1) n"
proof -
  let ?f = "\<lambda>i. phys_addr m pt (va + of_nat i)"
  have len: "unat va + Suc n \<le> 2 ^ 38" and inj: "inj_on ?f {..<Suc n}"
    and w: "\<And>i. i < Suc n \<Longrightarrow> user_writable m pt (va + of_nat i) \<and> PGROUNDDOWN (?f i) \<notin> tables m pt"
    using assms by (auto simp: user_target_def)
  show "user_target m pt va 1" using len w [of 0] by (simp add: user_target_def lessThan_Suc)
  have "unat (va + 1) = unat va + 1" using unat_add_nat [of va 1] len by simp
  moreover have "inj_on (\<lambda>i. ?f (Suc i)) {..<n}" using comp_inj_on [of Suc "{..<n}" ?f] inj_on_subset [OF inj, of "Suc ` {..<n}"]
    by (auto simp: comp_def)
  moreover have "user_writable m pt (va + 1 + of_nat i) \<and> PGROUNDDOWN (phys_addr m pt (va + 1 + of_nat i)) \<notin> tables m pt" if "i < n" for i
    using w [of "Suc i"] that by (simp add: add.assoc)
  ultimately show "user_target m pt (va + 1) n" using len by (simp add: user_target_def add.assoc)
qed

section \<open>Writing\<close>

lemma upd_pipe_simps [simp]:
  "upd_pipe pi f (upd_pipe pi g s) = upd_pipe pi (\<lambda>p. f (g p)) s" "pipes (upd_pipe pi f s) = (pipes s)(pi := f (pipes s pi))"
  "pmem (upd_pipe pi f s) = pmem s" "procs (upd_pipe pi f s) = procs s" "pipes (acq l s) = pipes s"
  by (simp_all add: upd_pipe_def acq_def mach_defs)

lemma upd_pipe_comm [kcomm]: "upd_pipe pi f (acq l s) = acq l (upd_pipe pi f s)"
  by (simp add: upd_pipe_def acq_def mach_defs)

lemma calm_pipe [simp]: "calm H (upd_pipe pi f s) = calm H s" "cur (upd_pipe pi f s) = cur s"
  by (rule calm_cong; simp add: upd_pipe_def)+

lemma wakeup_pipe: "calm {} s \<Longrightarrow> wakeup cn (acq (PipeLock pi) s) = Ok () (acq (PipeLock pi) s)"
  by (rule calm_wakeup [OF calm_acq]) (use acq_nested [of s "PipeLock pi"] calmD(1) in auto)

lemma killed_pipe: "calm {} s \<Longrightarrow> killed p (acq (PipeLock pi) s) = Ok (p_killed (procs s p)) (acq (PipeLock pi) s)"
  using calm_killed [of "{PipeLock pi}" "acq (PipeLock pi) s"] calm_acq [of "{}" s "PipeLock pi"] by simp

lemma pipewrite_loop_ok:
  assumes "calm {} s" and "p_readopen (pipes s pi)" and "\<not> p_killed (procs s pr)" and "pipe_rep (pipes s pi) q"
    and "pt_wf (pmem s) (pagetable (procs s pr))" and "user_source (pmem s) (pagetable (procs s pr)) addr n" and "length q + n \<le> 512"
  shows "\<exists>p. pipewrite_loop n pr pi addr i (acq (PipeLock pi) s) = Ok (i + int n) (upd_pipe pi (\<lambda>_. p) s) \<and>
    pipe_rep p (q @ user_bytes (pmem s) (pagetable (procs s pr)) addr n) \<and>
    p_readopen p = p_readopen (pipes s pi) \<and> p_writeopen p = p_writeopen (pipes s pi)"
  using assms
proof (induction n arbitrary: s q addr i)
  case 0
  have "upd_pipe pi (\<lambda>_. pipes s pi) s = s" by (simp add: upd_pipe_def)
  with 0 show ?case using wakeup_pipe [OF 0(1)] calm_release [OF 0(1), of "PipeLock pi"]
    by (intro exI [of _ "pipes s pi"]) (simp add: user_bytes_def)
next
  case (Suc n)
  let ?pt = "pagetable (procs s pr)" and ?a = "acq (PipeLock pi) s"
  let ?c = "pmem s (phys_addr (pmem s) ?pt addr)"
  let ?p = "(pipes s pi)\<lparr>p_data := (p_data (pipes s pi))(unat (p_nwrite (pipes s pi) mod PIPESIZE) := ?c), p_nwrite := p_nwrite (pipes s pi) + 1\<rparr>"
  let ?s = "upd_pipe pi (\<lambda>_. ?p) s"
  note src = user_source_Suc [OF Suc.prems(6)]
  have "copyin ?pt addr (of_nat 1) ?a = Ok (0, user_bytes (pmem ?a) ?pt addr 1) ?a"
    by (rule copyin_user_bytes) (use Suc.prems(5) src(3) in simp_all)
  then have c: "copyin ?pt addr 1 ?a = Ok (0, [?c]) ?a" by (simp add: user_bytes_def)
  have full: "p_nwrite (pipes s pi) \<noteq> p_nread (pipes s pi) + PIPESIZE" using pipe_full [OF Suc.prems(4)] Suc.prems(7) by simp
  have u: "upd_pipe pi (\<lambda>q. q\<lparr>p_data := (p_data q)(unat (p_nwrite q mod PIPESIZE) := ?c), p_nwrite := p_nwrite q + 1\<rparr>) s = ?s"
    by (simp add: upd_pipe_def)
  have step: "pipewrite_loop (Suc n) pr pi addr i ?a = pipewrite_loop n pr pi (addr + 1) (i + 1) (acq (PipeLock pi) ?s)"
    using Suc.prems(2,3) killed_pipe [OF Suc.prems(1), of pr pi] full c u by (simp add: kcomm)
  have rep: "pipe_rep (pipes ?s pi) (q @ [?c])" using pipe_put [OF Suc.prems(4), of ?c] Suc.prems(7) by simp
  have "\<exists>p. pipewrite_loop n pr pi (addr + 1) (i + 1) (acq (PipeLock pi) ?s) = Ok (i + 1 + int n) (upd_pipe pi (\<lambda>_. p) ?s) \<and>
    pipe_rep p ((q @ [?c]) @ user_bytes (pmem ?s) (pagetable (procs ?s pr)) (addr + 1) n) \<and>
    p_readopen p = p_readopen (pipes ?s pi) \<and> p_writeopen p = p_writeopen (pipes ?s pi)"
    by (rule Suc.IH) (use Suc.prems rep src(2) in simp_all)
  with step src(4) show ?case by auto
qed

lemma pipewrite_ok:
  assumes "calm {} s" and "p_readopen (pipes s pi)" and "\<not> p_killed (procs s (cur s))" and "pipe_rep (pipes s pi) q"
    and "pt_wf (pmem s) (pagetable (procs s (cur s)))" and "user_source (pmem s) (pagetable (procs s (cur s))) addr n" and "length q + n \<le> 512"
  shows "\<exists>p. pipewrite pi addr (int n) s = Ok (int n) (upd_pipe pi (\<lambda>_. p) s) \<and>
    pipe_rep p (q @ user_bytes (pmem s) (pagetable (procs s (cur s))) addr n) \<and>
    p_readopen p = p_readopen (pipes s pi) \<and> p_writeopen p = p_writeopen (pipes s pi)"
  using pipewrite_loop_ok [OF assms, of 0] calm_acquire [OF assms(1), of "PipeLock pi"]
  by (simp add: pipewrite_def calm_with_proc [OF assms(1)])

section \<open>Reading\<close>

lemma pmem_pipe [simp]:
  "pipes (s\<lparr>pmem := m\<rparr>) = pipes s" "upd_pipe pi f (s\<lparr>pmem := m\<rparr>) = (upd_pipe pi f s)\<lparr>pmem := m\<rparr>"
  by (simp_all add: upd_pipe_def)

lemma calm_pmem [simp]: "calm H (s\<lparr>pmem := m\<rparr>) = calm H s" "cur (s\<lparr>pmem := m\<rparr>) = cur s"
  by (rule calm_cong; simp)+

lemma wrote_Cons:
  assumes "wrote m u (\<lambda>_. a) [c]" and "wrote u m' (\<lambda>i. f (Suc i)) cs" and "f 0 = a" and "inj_on f {..<Suc (length cs)}"
  shows "wrote m m' f (c # cs)"
proof -
  have "wrote m u f [c]" using assms(1,3) wrote_cong [of "[c]" f "\<lambda>_. a" m u] by simp
  from wrote_append [OF this, of m' cs] assms(2,4) show ?thesis by simp
qed

lemma piperead_copy_ok:
  assumes "calm {} s" and "pipe_rep (pipes s pi) q" and "pt_wf (pmem s) (pagetable (procs s pr))"
    and "user_target (pmem s) (pagetable (procs s pr)) addr (min n (length q))"
  shows "\<exists>p m. piperead_copy n pr pi addr i (acq (PipeLock pi) s) =
      Ok (i + int (min n (length q))) (acq (PipeLock pi) (upd_pipe pi (\<lambda>_. p) s\<lparr>pmem := m\<rparr>)) \<and>
    pipe_rep p (drop n q) \<and> p_readopen p = p_readopen (pipes s pi) \<and> p_writeopen p = p_writeopen (pipes s pi) \<and>
    wrote (pmem s) m (\<lambda>i. phys_addr (pmem s) (pagetable (procs s pr)) (addr + of_nat i)) (take n q)"
  using assms
proof (induction n arbitrary: s q addr i)
  case 0
  have "upd_pipe pi (\<lambda>_. pipes s pi) s\<lparr>pmem := pmem s\<rparr> = s" by (simp add: upd_pipe_def)
  with 0 show ?case by (intro exI [of _ "pipes s pi"] exI [of _ "pmem s"]) (simp add: wrote_def)
next
  case (Suc n)
  let ?pt = "pagetable (procs s pr)" and ?a = "acq (PipeLock pi) s"
  show ?case
  proof (cases q)
    case Nil
    have "upd_pipe pi (\<lambda>_. pipes s pi) s\<lparr>pmem := pmem s\<rparr> = s" by (simp add: upd_pipe_def)
    with Nil Suc.prems(2) pipe_empty [OF Suc.prems(2)] show ?thesis
      by (intro exI [of _ "pipes s pi"] exI [of _ "pmem s"]) (simp add: wrote_def)
  next
    case (Cons c cs)
    let ?k = "min n (length cs)"
    have tg: "user_target (pmem s) ?pt addr (Suc ?k)" using Suc.prems(4) Cons by simp
    note t = user_target_Suc [OF tg]
    from copyout_ok [of ?a ?pt addr "[c]"] Suc.prems(3) t(1) obtain m1 where
      m1: "copyout ?pt addr [c] ?a = Ok 0 (?a\<lparr>pmem := m1\<rparr>)" "wrote (pmem s) m1 (\<lambda>i. phys_addr (pmem s) ?pt (addr + of_nat i)) [c]" by auto
    let ?f = "\<lambda>i. phys_addr (pmem s) ?pt (addr + of_nat i)"
    have w1: "wrote (pmem s) m1 (\<lambda>_. ?f 0) [c]" using m1(2) wrote_cong [of "[c]" "\<lambda>_. ?f 0" ?f "pmem s" m1] by simp
    have "PGROUNDDOWN (?f i) \<notin> tables (pmem s) ?pt" if "i < length [c]" for i using t(1) that by (simp add: user_target_def)
    note pt = wrote_pt [OF Suc.prems(3) m1(2) this]
    note g = pipe_get [OF Suc.prems(2) [unfolded Cons]]
    let ?p = "(pipes s pi)\<lparr>p_nread := p_nread (pipes s pi) + 1\<rparr>"
    let ?s = "upd_pipe pi (\<lambda>_. ?p) s\<lparr>pmem := m1\<rparr>"
    have u: "upd_pipe pi (\<lambda>q. q\<lparr>p_nread := p_nread q + 1\<rparr>) s = upd_pipe pi (\<lambda>_. ?p) s" by (simp add: upd_pipe_def)
    have step: "piperead_copy (Suc n) pr pi addr i ?a = piperead_copy n pr pi (addr + 1) (i + 1) (acq (PipeLock pi) ?s)"
      using pipe_empty [OF Suc.prems(2)] Cons g(1) m1(1) u by (simp add: kcomm)
    have "\<exists>p m. piperead_copy n pr pi (addr + 1) (i + 1) (acq (PipeLock pi) ?s) =
        Ok (i + 1 + int ?k) (acq (PipeLock pi) (upd_pipe pi (\<lambda>_. p) ?s\<lparr>pmem := m\<rparr>)) \<and>
      pipe_rep p (drop n cs) \<and> p_readopen p = p_readopen (pipes ?s pi) \<and> p_writeopen p = p_writeopen (pipes ?s pi) \<and>
      wrote (pmem ?s) m (\<lambda>i. phys_addr (pmem ?s) (pagetable (procs ?s pr)) (addr + 1 + of_nat i)) (take n cs)"
      by (rule Suc.IH) (use Suc.prems(1) g(2) pt(1) t(2) user_target_cong [OF pt(2,4,6)] in simp_all)
    then obtain p m where pm: "piperead_copy n pr pi (addr + 1) (i + 1) (acq (PipeLock pi) ?s) =
        Ok (i + 1 + int ?k) (acq (PipeLock pi) (upd_pipe pi (\<lambda>_. p) s\<lparr>pmem := m\<rparr>))"
      "pipe_rep p (drop n cs)" "p_readopen p = p_readopen (pipes s pi)" "p_writeopen p = p_writeopen (pipes s pi)"
      "wrote m1 m (\<lambda>i. phys_addr m1 ?pt (addr + 1 + of_nat i)) (take n cs)" by auto
    have "inj_on ?f {..<Suc (length (take n cs))}" using tg by (simp add: user_target_def min.commute)
    moreover have "wrote m1 m (\<lambda>i. ?f (Suc i)) (take n cs)" using pm(5) pt(4) by (simp add: add.assoc)
    ultimately have "wrote (pmem s) m ?f (c # take n cs)" using wrote_Cons [OF w1, of m ?f "take n cs"] by simp
    with step pm Cons show ?thesis by (intro exI [of _ p] exI [of _ m]) simp
  qed
qed

lemma piperead_ok:
  assumes c: "calm {} s" and r: "pipe_rep (pipes s pi) q" and "q \<noteq> []" and wf: "pt_wf (pmem s) (pagetable (procs s (cur s)))"
    and t: "user_target (pmem s) (pagetable (procs s (cur s))) addr (min n (length q))"
  shows "\<exists>p m. piperead pi addr (int n) s = Ok (int (min n (length q))) (upd_pipe pi (\<lambda>_. p) s\<lparr>pmem := m\<rparr>) \<and>
    pipe_rep p (drop n q) \<and> wrote (pmem s) m (\<lambda>i. phys_addr (pmem s) (pagetable (procs s (cur s))) (addr + of_nat i)) (take n q)"
proof -
  from piperead_copy_ok [OF c r wf t, of 0] obtain p m where
    p: "piperead_copy n (cur s) pi addr 0 (acq (PipeLock pi) s) =
      Ok (int (min n (length q))) (acq (PipeLock pi) (upd_pipe pi (\<lambda>_. p) s\<lparr>pmem := m\<rparr>))"
    "pipe_rep p (drop n q)" "wrote (pmem s) m (\<lambda>i. phys_addr (pmem s) (pagetable (procs s (cur s))) (addr + of_nat i)) (take n q)" by auto
  let ?t = "upd_pipe pi (\<lambda>_. p) s\<lparr>pmem := m\<rparr>"
  have ct: "calm {} ?t" using c by simp
  have "piperead pi addr (int n) s = Ok (int (min n (length q))) ?t"
    using p(1) pipe_empty [OF r] assms(3) wakeup_pipe [OF ct] calm_release [OF ct, of "PipeLock pi"] calm_acquire [OF c, of "PipeLock pi"]
    by (simp add: piperead_def calm_with_proc [OF c] piperead_tail_def)
  with p(2,3) show ?thesis by blast
qed

text \<open>
  C26. A pipe is a first-in first-out channel from the memory of the writer to that of the reader. If the pipe holds the bytes
  \<open>q\<close> and there is room, \<^verbatim>\<open>pipewrite\<close> of \<open>n\<close> mapped user bytes returns \<open>n\<close> and the pipe holds \<open>q\<close> and these bytes behind it, whatever
  the values of the wrapping counters; then \<^verbatim>\<open>piperead\<close> of up to \<open>k\<close> bytes returns how many it got, the first ones are in the user's
  memory as \<^verbatim>\<open>copyin\<close> reads it, and the pipe holds the others.
\<close>

theorem pipe_fifo:
  assumes "calm {} s" and "p_readopen (pipes s pi)" and "\<not> p_killed (procs s (cur s))" and "pipe_rep (pipes s pi) q"
    and "pt_wf (pmem s) (pagetable (procs s (cur s)))" and "user_source (pmem s) (pagetable (procs s (cur s))) src n"
    and "0 < length q + n" and "length q + n \<le> unat PIPESIZE"
    and "user_target (pmem s) (pagetable (procs s (cur s))) dst (min k (length q + n))"
  shows "\<exists>t u. pipewrite pi src (int n) s = Ok (int n) t \<and>
    pipe_rep (pipes t pi) (q @ user_bytes (pmem s) (pagetable (procs s (cur s))) src n) \<and>
    piperead pi dst (int k) t = Ok (int (min k (length q + n))) u \<and>
    copyin (pagetable (procs s (cur s))) dst (of_nat (min k (length q + n))) u =
      Ok (0, take k (q @ user_bytes (pmem s) (pagetable (procs s (cur s))) src n)) u \<and>
    pipe_rep (pipes u pi) (drop k (q @ user_bytes (pmem s) (pagetable (procs s (cur s))) src n))"
proof -
  let ?pt = "pagetable (procs s (cur s))"
  let ?bs = "q @ user_bytes (pmem s) ?pt src n"
  have le: "length q + n \<le> 512" using assms(8) by (simp add: PIPESIZE_512)
  from pipewrite_ok [OF assms(1-6) le] obtain p where
    p: "pipewrite pi src (int n) s = Ok (int n) (upd_pipe pi (\<lambda>_. p) s)" "pipe_rep p ?bs" by blast
  let ?t = "upd_pipe pi (\<lambda>_. p) s"
  have len: "length ?bs = length q + n" by simp
  then have ne: "?bs \<noteq> []" using assms(7) by (metis length_greater_0_conv)
  have "\<exists>p m. piperead pi dst (int k) ?t = Ok (int (min k (length ?bs))) (upd_pipe pi (\<lambda>_. p) ?t\<lparr>pmem := m\<rparr>) \<and>
    pipe_rep p (drop k ?bs) \<and> wrote (pmem ?t) m (\<lambda>i. phys_addr (pmem ?t) (pagetable (procs ?t (cur ?t))) (dst + of_nat i)) (take k ?bs)"
    by (rule piperead_ok) (use assms p(2) ne len in simp_all)
  then obtain p' m where
    r: "piperead pi dst (int k) ?t = Ok (int (min k (length q + n))) (upd_pipe pi (\<lambda>_. p') s\<lparr>pmem := m\<rparr>)"
      "pipe_rep p' (drop k ?bs)" "wrote (pmem s) m (\<lambda>i. phys_addr (pmem s) ?pt (dst + of_nat i)) (take k ?bs)" by auto
  let ?u = "upd_pipe pi (\<lambda>_. p') s"
  have lt: "length (take k ?bs) = min k (length q + n)" by (simp add: min.commute)
  have "copyin ?pt dst (of_nat (length (take k ?bs))) (?u\<lparr>pmem := m\<rparr>) = Ok (0, take k ?bs) (?u\<lparr>pmem := m\<rparr>)"
    by (rule copyin_after_copyout) (use assms(5,9) r(3) lt in simp_all)
  with p r show ?thesis unfolding lt by (intro exI [of _ ?t] exI [of _ "?u\<lparr>pmem := m\<rparr>"]) simp
qed

text \<open>A process with one page of memory and a pipe whose counters are about to wrap.\<close>

definition one_pipe :: filek where
  "one_pipe = fsk.extend (logk.extend zero_logk (fsk.fields
     \<lparr>sb_magic = 0, sb_size = 0, sb_nblocks = 0, sb_ninodes = 0, sb_nlog = 0, sb_logstart = 0, sb_inodestart = 0, sb_bmapstart = 0\<rparr>
     (\<lambda>_. \<lparr>i_dev = 0, i_inum = 0, i_ref = 0, i_valid = False, i_type = 0, i_major = 0, i_minor = 0, i_nlink = 0, i_size = 0,
        i_addrs = (\<lambda>_. 0)\<rparr>)))
   (filek.fields (\<lambda>_. \<lparr>f_type = FD_NONE, f_ref = 0, f_readable = False, f_writable = False, f_pipe = 0, f_ip = None, f_off = 0, f_major = 0\<rparr>)
     (\<lambda>_. \<lparr>p_data = (\<lambda>_. 0)(511 := 7, 0 := 8), p_nread = - 1, p_nwrite = 1, p_readopen = True, p_writeopen = True\<rparr>))
   \<lparr>pmem := one_page_mem, procs := \<lambda>_. zero_proc\<lparr>pagetable := root_page\<rparr>\<rparr>"

lemmas one_pipe_defs = one_pipe_def fsk.defs filek.defs zero_logk_defs

lemma one_pipe_sels:
  "calm {} one_pipe" "p_readopen (pipes one_pipe pi)" "\<not> p_killed (procs one_pipe i)" "pmem one_pipe = one_page_mem"
  "pagetable (procs one_pipe i) = root_page" "pipe_rep (pipes one_pipe pi) [7, 8]"
proof -
  show "calm {} one_pipe" by (auto simp: calm_def irq_wf_def settle_id_iff lock_free_def one_pipe_defs zero_proc_def)
  show "p_readopen (pipes one_pipe pi)" "\<not> p_killed (procs one_pipe i)" "pmem one_pipe = one_page_mem"
    "pagetable (procs one_pipe i) = root_page" by (simp_all add: one_pipe_defs zero_proc_def)
  have "unat (- 1 mod PIPESIZE) = 511" by (simp add: PIPESIZE_def unat_mod)
  then show "pipe_rep (pipes one_pipe pi) [7, 8]" by (auto simp: pipe_rep_def one_pipe_defs PIPESIZE_512 less_Suc_eq)
qed

lemma one_page_source: "n \<le> 4096 \<Longrightarrow> user_source one_page_mem root_page 0 n"
  using one_page_target [of n] by (auto simp: user_target_def user_source_def user_writable_def)

theorem pipe_fifo_witness:
  "\<exists>t u. pipewrite 0 0 2 one_pipe = Ok 2 t \<and> piperead 0 0 3 t = Ok 3 u \<and>
    copyin root_page 0 3 u = Ok (0, [7, 8, hd (user_bytes one_page_mem root_page 0 2)]) u"
proof -
  let ?b = "user_bytes one_page_mem root_page 0 2"
  have "\<exists>t u. pipewrite 0 0 (int 2) one_pipe = Ok (int 2) t \<and>
    pipe_rep (pipes t 0) ([7, 8] @ user_bytes (pmem one_pipe) (pagetable (procs one_pipe (cur one_pipe))) 0 2) \<and>
    piperead 0 0 (int 3) t = Ok (int (min 3 (length [7, 8 :: uchar] + 2))) u \<and>
    copyin (pagetable (procs one_pipe (cur one_pipe))) 0 (of_nat (min 3 (length [7, 8 :: uchar] + 2))) u =
      Ok (0, take 3 ([7, 8] @ user_bytes (pmem one_pipe) (pagetable (procs one_pipe (cur one_pipe))) 0 2)) u \<and>
    pipe_rep (pipes u 0) (drop 3 ([7, 8] @ user_bytes (pmem one_pipe) (pagetable (procs one_pipe (cur one_pipe))) 0 2))"
    by (rule pipe_fifo) (use one_pipe_sels one_page_table(1) one_page_source one_page_target in \<open>simp_all add: PIPESIZE_512\<close>)
  moreover have "take 1 ?b = [hd ?b]" by (simp add: user_bytes_def numeral_2_eq_2)
  ultimately show ?thesis by (auto simp: one_pipe_sels)
qed

end
