(* ===== verification/Grep.thy ===== *)
theory Grep
  imports Console
begin

text \<open>
  \<^verbatim>\<open>user/grep.c\<close>: the pattern matcher and the loop that reads a file through a buffer of 1024 bytes. A C string is the list of
  its bytes before the terminating 0. What \<^verbatim>\<open>read\<close> returns is given by the pieces in which the input arrives: a call for
  \<open>n\<close> bytes gets at most \<open>n\<close> bytes of the next piece, and none at the end of the input.

  Shown here: \<^verbatim>\<open>match\<close> decides the language of the pattern, with its anchors, and \<^verbatim>\<open>grep\<close> writes the matching lines of its
  input in order, however the input arrives, if the lines fit the buffer.
\<close>

section \<open>The matcher\<close>

function matchhere :: "uchar list \<Rightarrow> uchar list \<Rightarrow> bool" and matchstar :: "uchar \<Rightarrow> uchar list \<Rightarrow> uchar list \<Rightarrow> bool" where
  "matchhere [] str = True"
| "matchhere (c # re) str =
     (if re \<noteq> [] \<and> hd re = ch CHR ''*'' then matchstar c (tl re) str
      else if c = ch CHR ''$'' \<and> re = [] then str = []
      else if str \<noteq> [] \<and> (c = ch CHR ''.'' \<or> c = hd str) then matchhere re (tl str)
      else False)"
| "matchstar c re str =
     (if matchhere re str then True
      else if str \<noteq> [] \<and> (hd str = c \<or> c = ch CHR ''.'') then matchstar c re (tl str)
      else False)"
  by pat_completeness auto
termination
  by (relation "measure (\<lambda>x. case x of Inl (re, str) \<Rightarrow> 2 * (length re + length str) | Inr (c, re, str) \<Rightarrow> 2 * (length re + length str) + 1)")
    (auto simp: neq_Nil_conv)

declare matchhere.simps(2) [simp del] matchstar.simps [simp del]

fun match_loop :: "uchar list \<Rightarrow> uchar list \<Rightarrow> bool" where
  "match_loop re [] = matchhere re []"
| "match_loop re (t # str) = (if matchhere re (t # str) then True else match_loop re str)"

definition match :: "uchar list \<Rightarrow> uchar list \<Rightarrow> bool" where
  "match re str = (if re \<noteq> [] \<and> hd re = ch CHR ''^'' then matchhere (tl re) str else match_loop re str)"

section \<open>The loop over the input\<close>

fun user_read :: "nat \<Rightarrow> uchar list list \<Rightarrow> uchar list \<times> uchar list list" where
  "user_read n [] = ([], [])"
| "user_read n (c # cs) = (take n c, if length c \<le> n then cs else drop n c # cs)"

text \<open>\<^verbatim>\<open>strchr\<close>: the position of the byte before the end of the string.\<close>

fun strchr :: "uchar list \<Rightarrow> uchar \<Rightarrow> nat option" where
  "strchr [] c = None"
| "strchr (b # bs) c = (if b = 0 then None else if b = c then Some 0 else map_option Suc (strchr bs c))"

lemma strchr_Some: "strchr bs c = Some i \<Longrightarrow> i < length bs"
  by (induction bs arbitrary: i) (auto split: if_splits)

text \<open>The inner loop gives the bytes written and what is left in the buffer.\<close>

function grep_lines :: "uchar list \<Rightarrow> uchar list \<Rightarrow> uchar list \<times> uchar list" where
  "grep_lines re p = (case strchr p (ch CHR 0x0A) of
     None \<Rightarrow> ([], p)
   | Some q \<Rightarrow> (let (ws, rest) = grep_lines re (drop (q + 1) p) in
       ((if match re (take q p) then take (q + 1) p else []) @ ws, rest)))"
  by pat_completeness auto
termination
  by (relation "measure (\<lambda>(re, p). length p)") (auto dest: strchr_Some)

definition BUFSZ :: nat where "BUFSZ = 1024"

function grep_loop :: "uchar list \<Rightarrow> uchar list \<Rightarrow> uchar list list \<Rightarrow> uchar list" where
  "grep_loop re b cs = (let (d, cs') = user_read (BUFSZ - length b - 1) cs in
     if d = [] then [] else let (ws, rest) = grep_lines re (b @ d) in ws @ grep_loop re rest cs')"
  by pat_completeness auto
termination
proof (relation "measure (\<lambda>(re, b, cs). length (concat cs))")
  fix re b cs and x :: "uchar list \<times> uchar list list" and d cs' and y :: "uchar list \<times> uchar list" and ws rest
  assume x: "x = user_read (BUFSZ - length b - 1) cs" "(d, cs') = x" "d \<noteq> []"
  then show "((re, rest, cs'), re, b, cs) \<in> measure (\<lambda>(re, b, cs). length (concat cs))"
    by (cases cs) (auto split: if_splits)
qed simp

definition grep :: "uchar list \<Rightarrow> uchar list list \<Rightarrow> uchar list" where
  "grep pattern cs = grep_loop pattern [] cs"

declare grep_lines.simps [simp del] grep_loop.simps [simp del]

section \<open>The language of a pattern\<close>

datatype item = One uchar | Many uchar

definition fit :: "uchar \<Rightarrow> uchar \<Rightarrow> bool" where
  "fit c t \<longleftrightarrow> c = ch CHR ''.'' \<or> c = t"

text \<open>The items of a pattern, and whether it ends with \<open>$\<close>.\<close>

fun items :: "uchar list \<Rightarrow> item list \<times> bool" where
  "items [] = ([], False)"
| "items [c] = (if c = ch CHR ''$'' then ([], True) else ([One c], False))"
| "items (c # d # re) = (if d = ch CHR ''*'' then (case items re of (xs, e) \<Rightarrow> (Many c # xs, e))
     else (case items (d # re) of (xs, e) \<Rightarrow> (One c # xs, e)))"

primrec item_lang :: "item \<Rightarrow> uchar list set" where
  "item_lang (One c) = {[t] | t. fit c t}"
| "item_lang (Many c) = {ts. list_all (fit c) ts}"

primrec lang :: "item list \<Rightarrow> uchar list set" where
  "lang [] = {[]}"
| "lang (x # xs) = {a @ b | a b. a \<in> item_lang x \<and> b \<in> lang xs}"

text \<open>The str starts with a word of the language, up to its end if the pattern says so.\<close>

definition starts :: "item list \<times> bool \<Rightarrow> uchar list \<Rightarrow> bool" where
  "starts x str \<longleftrightarrow> (\<exists>w post. str = w @ post \<and> w \<in> lang (fst x) \<and> (snd x \<longrightarrow> post = []))"

lemma startsI: "str = w @ post \<Longrightarrow> w \<in> lang xs \<Longrightarrow> (e \<longrightarrow> post = []) \<Longrightarrow> starts (xs, e) str"
  by (auto simp: starts_def)

lemma starts_Nil: "starts ([], e) str \<longleftrightarrow> (e \<longrightarrow> str = [])"
  by (auto simp: starts_def)

lemma starts_One: "starts (One c # xs, e) str \<longleftrightarrow> str \<noteq> [] \<and> fit c (hd str) \<and> starts (xs, e) (tl str)" (is "?l \<longleftrightarrow> ?r")
proof
  assume ?l
  then obtain v post where v: "str = v @ post" "v \<in> lang (One c # xs)" "e \<longrightarrow> post = []" by (auto simp only: starts_def fst_conv snd_conv)
  from v(2) obtain t w where w: "v = t # w" "fit c t" "w \<in> lang xs" by auto
  have "starts (xs, e) (w @ post)" by (rule startsI [OF refl w(3) v(3)])
  with v(1) w(1,2) show ?r by simp
next
  assume r: ?r
  then obtain w post where w: "tl str = w @ post" "w \<in> lang xs" "e \<longrightarrow> post = []" by (auto simp: starts_def)
  have "str = ([hd str] @ w) @ post" using r w(1) by (cases str) simp_all
  moreover have "[hd str] @ w \<in> lang (One c # xs)" unfolding lang.simps item_lang.simps using r w(2) by blast
  ultimately show ?l using w(3) by (rule startsI)
qed

lemma starts_ManyD:
  assumes "starts (Many c # xs, e) str"
  obtains a b post where "str = a @ b @ post" "list_all (fit c) a" "b \<in> lang xs" "e \<longrightarrow> post = []"
proof -
  from assms obtain a b post where "str = (a @ b) @ post" "list_all (fit c) a" "b \<in> lang xs" "e \<longrightarrow> post = []"
    unfolding starts_def fst_conv snd_conv lang.simps item_lang.simps by blast
  then show thesis by (intro that) simp_all
qed

lemma starts_Many: "starts (Many c # xs, e) str \<longleftrightarrow> starts (xs, e) str \<or> str \<noteq> [] \<and> fit c (hd str) \<and> starts (Many c # xs, e) (tl str)"
  (is "?l \<longleftrightarrow> ?r")
proof
  assume ?l
  then obtain a b post where t: "str = a @ b @ post" "list_all (fit c) a" "b \<in> lang xs" "e \<longrightarrow> post = []"
    by (rule starts_ManyD)
  show ?r
  proof (cases a)
    case Nil
    with t have "starts (xs, e) str" by (intro startsI [of _ b post]) auto
    then show ?thesis ..
  next
    case (Cons x ys)
    have "starts (Many c # xs, e) (ys @ b @ post)"
      by (rule startsI [of _ "ys @ b" post]) (use t Cons in auto)
    with Cons t show ?thesis by simp
  qed
next
  assume ?r
  then show ?l
  proof
    assume "starts (xs, e) str"
    then obtain w post where w: "str = w @ post" "w \<in> lang xs" "e \<longrightarrow> post = []" by (auto simp: starts_def)
    have "list_all (fit c) []" by simp
    with w(2) have "[] @ w \<in> lang (Many c # xs)" unfolding lang.simps item_lang.simps by blast
    with w(1,3) show ?thesis by (intro startsI [of _ w post]) simp_all
  next
    assume r: "str \<noteq> [] \<and> fit c (hd str) \<and> starts (Many c # xs, e) (tl str)"
    then obtain a b post where t: "tl str = a @ b @ post" "list_all (fit c) a" "b \<in> lang xs" "e \<longrightarrow> post = []"
      by (elim conjE starts_ManyD)
    have "str = ((hd str # a) @ b) @ post" using r t(1) by (metis append_Cons append_assoc list.collapse)
    moreover have "list_all (fit c) (hd str # a)" using r t(2) by simp
    with t(3) have "(hd str # a) @ b \<in> lang (Many c # xs)" unfolding lang.simps item_lang.simps by blast
    ultimately show ?thesis using t(4) by (rule startsI)
  qed
qed

lemma matchhere_starts:
  "matchhere re str \<longleftrightarrow> starts (items re) str"
  "matchstar c re str \<longleftrightarrow> starts (Many c # fst (items re), snd (items re)) str"
proof (induction re str and c re str rule: matchhere_matchstar.induct)
  case (1 str)
  then show ?case by (simp add: starts_Nil)
next
  case (2 c re str)
  then show ?case
    by (cases re) (auto simp: matchhere.simps(2) starts_Nil starts_One fit_def split: prod.splits)
next
  case (3 c re str)
  then show ?case
    by (subst starts_Many) (auto simp: matchstar.simps [of c re str] fit_def)
qed

lemma match_loop_starts: "match_loop re str \<longleftrightarrow> (\<exists>pre rest. str = pre @ rest \<and> starts (items re) rest)"
proof (induction str)
  case Nil
  then show ?case by (simp add: matchhere_starts)
next
  case (Cons t str)
  have "(\<exists>pre rest. t # str = pre @ rest \<and> starts (items re) rest) \<longleftrightarrow>
     starts (items re) (t # str) \<or> (\<exists>pre rest. str = pre @ rest \<and> starts (items re) rest)"
    by (metis Cons_eq_append_conv append_Nil)
  with Cons show ?case by (simp add: matchhere_starts)
qed

lemma no_nul_take: "0 \<notin> set bs \<Longrightarrow> strchr bs c = Some i \<Longrightarrow> bs = take i bs @ c # drop (Suc i) bs \<and> c \<notin> set (take i bs)"
  by (induction bs arbitrary: i) (auto split: if_splits)

lemma strchr_None: "0 \<notin> set bs \<Longrightarrow> strchr bs c = None \<longleftrightarrow> c \<notin> set bs"
  by (induction bs) auto

section \<open>Lines\<close>

abbreviation nl :: uchar where "nl \<equiv> ch CHR 0x0A"

text \<open>The lines of the input that a newline ends, without it.\<close>

function lines :: "uchar list \<Rightarrow> uchar list list" where
  "lines bs = (if nl \<in> set bs then takeWhile (\<lambda>b. b \<noteq> nl) bs # lines (tl (dropWhile (\<lambda>b. b \<noteq> nl) bs)) else [])"
  by pat_completeness auto
termination
proof (relation "measure length")
  fix bs :: "uchar list"
  assume "nl \<in> set bs"
  then show "(tl (dropWhile (\<lambda>b. b \<noteq> nl) bs), bs) \<in> measure length"
    using length_dropWhile_le [of "\<lambda>b. b \<noteq> nl" bs] length_pos_if_in_set [of nl bs] unfolding in_measure length_tl by linarith
qed simp

declare lines.simps [simp del]

lemma lines_line: "nl \<notin> set a \<Longrightarrow> lines (a @ nl # bs) = a # lines bs"
proof -
  assume "nl \<notin> set a"
  then have "\<forall>x \<in> set a. x \<noteq> nl" by metis
  then have "takeWhile (\<lambda>b. b \<noteq> nl) (a @ nl # bs) = a" "dropWhile (\<lambda>b. b \<noteq> nl) (a @ nl # bs) = nl # bs"
    by (simp_all add: takeWhile_append2 dropWhile_append2)
  then show ?thesis by (subst lines.simps) simp
qed

lemma lines_none: "nl \<notin> set a \<Longrightarrow> lines a = []"
  by (subst lines.simps) simp

definition grep_spec :: "uchar list \<Rightarrow> uchar list \<Rightarrow> uchar list" where
  "grep_spec re bs = concat (map (\<lambda>l. l @ [nl]) (filter (match re) (lines bs)))"

lemma grep_lines_ok:
  assumes "0 \<notin> set p" and "grep_lines re p = (ws, rest)"
  shows "nl \<notin> set rest \<and> (\<forall>more. grep_spec re (p @ more) = ws @ grep_spec re (rest @ more)) \<and> set rest \<subseteq> set p \<and> length rest \<le> length p \<and>
    (\<forall>more l. l \<in> set (lines (rest @ more)) \<longrightarrow> l \<in> set (lines (p @ more)))"
  using assms
proof (induction re p arbitrary: ws rest rule: grep_lines.induct)
  case (1 re p)
  show ?case
  proof (cases "strchr p nl")
    case None
    with 1 show ?thesis by (simp add: grep_lines.simps strchr_None)
  next
    case (Some q)
    let ?l = "take q p" and ?r = "drop (Suc q) p"
    have p: "p = ?l @ nl # ?r" "nl \<notin> set ?l" using no_nul_take [OF 1(2) Some] by auto
    obtain vs rest' where r: "grep_lines re ?r = (vs, rest')" by fastforce
    then have o: "rest' = rest" "ws = (if match re ?l then ?l @ [nl] else []) @ vs"
      using 1(3) Some p(1) no_nul_take [OF 1(2) Some] strchr_Some [OF Some]
      by (auto simp: grep_lines.simps [of re p] take_Suc_conv_app_nth split: if_splits) (metis nth_append_length length_take min.absorb2 less_imp_le_nat)+
    have z: "0 \<notin> set ?r" using 1(2) by (meson in_set_dropD)
    have IH: "nl \<notin> set rest \<and> (\<forall>more. grep_spec re (?r @ more) = vs @ grep_spec re (rest @ more)) \<and> set rest \<subseteq> set ?r \<and> length rest \<le> length ?r \<and>
      (\<forall>more l. l \<in> set (lines (rest @ more)) \<longrightarrow> l \<in> set (lines (?r @ more)))"
      using 1(1) [OF Some, of vs rest] z r o(1) by simp
    have ln: "lines (p @ more) = ?l # lines (?r @ more)" for more
      using lines_line [OF p(2), of "?r @ more"] p(1) by (metis append_Cons append_assoc)
    have "grep_spec re (p @ more) = (if match re ?l then ?l @ [nl] else []) @ grep_spec re (?r @ more)" for more
      unfolding grep_spec_def ln by simp
    moreover have "set rest \<subseteq> set p" using IH set_drop_subset [of "Suc q" p] by blast
    ultimately show ?thesis using IH o ln by auto
  qed
qed

lemma grep_loop_ok:
  assumes "nl \<notin> set b" and "0 \<notin> set (b @ concat cs)" and "[] \<notin> set cs" and "length b < BUFSZ"
    and "\<And>l. l \<in> set (lines (b @ concat cs)) \<Longrightarrow> length l + 2 \<le> BUFSZ"
  shows "grep_loop re b cs = grep_spec re (b @ concat cs)"
  using assms
proof (induction re b cs rule: grep_loop.induct)
  case (1 re b cs)
  obtain d cs' where d: "user_read (BUFSZ - length b - 1) cs = (d, cs')" by fastforce
  show ?case
  proof (cases "d = []")
    case True
    have "nl \<notin> set (b @ concat cs)"
    proof (cases cs)
      case Nil
      with 1(2) show ?thesis by simp
    next
      case (Cons c cs0)
      then have full: "length b = BUFSZ - 1" using d True 1(4,5) by auto
      show ?thesis
      proof
        assume "nl \<in> set (b @ concat cs)"
        then obtain l r where l: "b @ concat cs = l @ nl # r" "nl \<notin> set l" by (meson split_list_first)
        then have "length l + 2 \<le> BUFSZ" using 1(6) [of l] lines_line by simp
        then have "length l < length b" using full by (simp add: BUFSZ_def)
        then have "b ! length l = nl" using arg_cong [OF l(1), of "\<lambda>xs. xs ! length l"] by (simp add: nth_append)
        with \<open>length l < length b\<close> 1(2) show False by (metis nth_mem)
      qed
    qed
    with d True show ?thesis by (simp add: grep_loop.simps [of re b cs] grep_spec_def lines_none)
  next
    case False
    obtain ws rest where g: "grep_lines re (b @ d) = (ws, rest)" by fastforce
    have cs: "concat cs = d @ concat cs'" "[] \<notin> set cs'" "length d \<le> BUFSZ - length b - 1"
      using d 1(4) by (cases cs; auto split: if_splits)+
    note ok = grep_lines_ok [OF _ g]
    have z: "0 \<notin> set (b @ d)" "length (b @ d) < BUFSZ" using 1(3,5) cs by auto
    note ok = grep_lines_ok [OF z(1) g]
    have "length rest < BUFSZ" using ok z(2) by linarith
    moreover have "0 \<notin> set (rest @ concat cs')" using ok z(1) 1(3) cs(1) by auto
    moreover have "length l + 2 \<le> BUFSZ" if "l \<in> set (lines (rest @ concat cs'))" for l
      using 1(6) [of l] ok that cs(1) by simp
    ultimately have "grep_loop re rest cs' = grep_spec re (rest @ concat cs')"
      using 1(1) [OF d [symmetric] refl False g [symmetric] refl] ok cs(2) by blast
    then show ?thesis using d False g ok cs(1) by (simp add: grep_loop.simps [of re b cs])
  qed
qed

text \<open>
  C33. \<^verbatim>\<open>match\<close> decides the language of its pattern: the items \<open>c\<close>, \<open>.\<close> and \<open>c*\<close> match a word of the text, which is at the
  start of the text if the pattern starts with \<open>^\<close> and at its end if the pattern ends with \<open>$\<close>.
\<close>

theorem match_correct:
  "match re str \<longleftrightarrow> (let anchored = (re \<noteq> [] \<and> hd re = ch CHR ''^''); (xs, to_end) = items (if anchored then tl re else re) in
     \<exists>pre w post. str = pre @ w @ post \<and> w \<in> lang xs \<and> (if anchored then pre = [] else True) \<and> (if to_end then post = [] else True))"
proof -
  have e: "(if e then post = [] else True) = (e \<longrightarrow> post = [])" for e and post :: "uchar list" by simp
  have st: "starts x s \<longleftrightarrow> (\<exists>w post. s = w @ post \<and> w \<in> lang (fst x) \<and> (snd x \<longrightarrow> post = []))" for x s by (rule starts_def)
  show ?thesis
  proof (cases "re \<noteq> [] \<and> hd re = ch CHR ''^''")
    case True
    then show ?thesis unfolding match_def e Let_def by (simp add: matchhere_starts st split: prod.splits)
  next
    case False
    then show ?thesis unfolding match_def e Let_def by (auto simp: match_loop_starts st split: prod.splits)
  qed
qed

text \<open>
  C34. \<^verbatim>\<open>grep\<close> writes exactly the matching lines of its input, in order and each with its newline, in whatever pieces the input
  arrives: if the input has no 0 byte and no line, with its newline, is longer than the 1023 bytes the buffer holds.
\<close>

theorem grep_prints_matching_lines:
  assumes "0 \<notin> set (concat cs)" and "[] \<notin> set cs" and "list_all (\<lambda>l. length l < BUFSZ - 1) (lines (concat cs))"
  shows "grep re cs = concat (map (\<lambda>l. l @ [nl]) (filter (match re) (lines (concat cs))))"
proof -
  have "grep_loop re [] cs = grep_spec re ([] @ concat cs)"
    by (rule grep_loop_ok) (use assms in \<open>auto simp: list_all_iff BUFSZ_def\<close>)
  then show ?thesis by (simp add: grep_def grep_spec_def)
qed

theorem grep_prints_matching_lines_witness:
  "grep (chars ''^a.*c$'') [chars ''ab'', chars ''bc'' @ [nl] @ chars ''abd'' @ [nl] @ chars ''a'', chars ''c'' @ [nl] @ chars ''ac''] =
    chars ''abbc'' @ [nl] @ chars ''ac'' @ [nl]"
proof -
  let ?cs = "[chars ''ab'', chars ''bc'' @ [nl] @ chars ''abd'' @ [nl] @ chars ''a'', chars ''c'' @ [nl] @ chars ''ac'']"
  have "concat ?cs = chars ''abbc'' @ nl # chars ''abd'' @ nl # chars ''ac'' @ nl # chars ''ac''" by (simp add: chars_def)
  then have l: "lines (concat ?cs) = [chars ''abbc'', chars ''abd'', chars ''ac'']"
    by (simp only:, subst lines_line, simp add: chars_def ch_def)
      (subst lines_line, simp add: chars_def ch_def, subst lines_line, simp add: chars_def ch_def, simp add: lines_none chars_def ch_def)
  have "grep (chars ''^a.*c$'') ?cs = concat (map (\<lambda>l. l @ [nl]) (filter (match (chars ''^a.*c$'')) (lines (concat ?cs))))"
    by (rule grep_prints_matching_lines) (simp_all only: l, simp_all add: chars_def ch_def BUFSZ_def)
  also have "\<dots> = chars ''abbc'' @ [nl] @ chars ''ac'' @ [nl]"
    unfolding l by (simp add: chars_def ch_def match_def matchhere.simps matchstar.simps)
  finally show ?thesis .
qed

end
