(* ===== verification/Ulib.thy ===== *)
theory Ulib
  imports Console
begin

text \<open>
  The C library of the user programs, \<^verbatim>\<open>user/ulib.c\<close> and \<^verbatim>\<open>user/printf.c\<close>. The routines on strings and memory are over the byte
  memory of a process, like the kernel's; a loop that ends at a NUL byte is partial. Formatted output is the bytes it writes;
  the directives are those of the kernel's \<^verbatim>\<open>printf\<close>.

  Shown here: \<^verbatim>\<open>memmove\<close> of the user library is the kernel's, \<^verbatim>\<open>strcmp\<close> decides equality of strings, and \<^verbatim>\<open>atoi\<close> reads back what
  \<open>%d\<close> prints.
\<close>

section \<open>Strings and memory (user/ulib.c)\<close>

partial_function (option) strcpy :: "uint64 \<Rightarrow> uint64 \<Rightarrow> mem \<Rightarrow> mem option" where
  "strcpy s t m = (let c = m t; m' = m(s := c) in if c \<noteq> 0 then strcpy (s + 1) (t + 1) m' else Some m')"

partial_function (option) strcmp :: "uint64 \<Rightarrow> uint64 \<Rightarrow> mem \<Rightarrow> int option" where
  "strcmp p q m = (if m p \<noteq> 0 \<and> m p = m q then strcmp (p + 1) (q + 1) m else Some (uint (m p) - uint (m q)))"

partial_function (option) ulib_strlen_loop :: "uint64 \<Rightarrow> mem \<Rightarrow> int \<Rightarrow> int option" where
  "ulib_strlen_loop s m n = (if m (s + word_of_int n) \<noteq> 0 then ulib_strlen_loop s m (n + 1) else Some n)"

definition ulib_strlen :: "uint64 \<Rightarrow> mem \<Rightarrow> uint option" where
  "ulib_strlen s m = map_option word_of_int (ulib_strlen_loop s m 0)"

definition ulib_memset :: "uint64 \<Rightarrow> int \<Rightarrow> uint \<Rightarrow> mem \<Rightarrow> mem" where
  "ulib_memset dst c n m = memset_loop (unat n) dst (word_of_int c) m"

partial_function (option) ulib_strchr :: "uint64 \<Rightarrow> uchar \<Rightarrow> mem \<Rightarrow> uint64 option" where
  "ulib_strchr s c m = (if m s = 0 then Some 0 else if m s = c then Some s else ulib_strchr (s + 1) c m)"

text \<open>\<^verbatim>\<open>gets\<close>: the bytes that the calls of \<^verbatim>\<open>read\<close> give, one each, and what is left of them.\<close>

fun gets_loop :: "uint64 \<Rightarrow> int \<Rightarrow> int \<Rightarrow> uchar list \<Rightarrow> mem \<Rightarrow> int \<times> uchar list \<times> mem" where
  "gets_loop buf mx i [] m = (i, [], m)"
| "gets_loop buf mx i (c # inp) m =
     (if \<not> i + 1 < mx then (i, c # inp, m)
      else let m' = m(buf + word_of_int i := c) in
        if c = ch CHR 0x0A \<or> c = ch CHR 0x0D then (i + 1, inp, m') else gets_loop buf mx (i + 1) inp m')"

definition ulib_gets :: "uint64 \<Rightarrow> int \<Rightarrow> uchar list \<Rightarrow> mem \<Rightarrow> uchar list \<times> mem" where
  "ulib_gets buf mx inp m = (case gets_loop buf mx 0 inp m of (i, inp', m') \<Rightarrow> (inp', m'(buf + word_of_int i := 0)))"

text \<open>The number is an \<^verbatim>\<open>int\<close>, which wraps around.\<close>

partial_function (option) atoi_loop :: "uint64 \<Rightarrow> uint \<Rightarrow> mem \<Rightarrow> uint option" where
  "atoi_loop s n m = (if ch CHR ''0'' \<le> m s \<and> m s \<le> ch CHR ''9'' then atoi_loop (s + 1) (n * 10 + ucast (m s) - ucast (ch CHR ''0'')) m else Some n)"

definition atoi :: "uint64 \<Rightarrow> mem \<Rightarrow> int option" where
  "atoi s m = map_option sint (atoi_loop s 0 m)"

definition ulib_memmove :: "uint64 \<Rightarrow> uint64 \<Rightarrow> int \<Rightarrow> mem \<Rightarrow> mem" where
  "ulib_memmove vdst vsrc n m =
     (if vsrc > vdst then copy_up (nat n) vdst vsrc m
      else copy_down (nat n) (vdst + word_of_int n) (vsrc + word_of_int n) m)"

definition ulib_memcmp :: "uint64 \<Rightarrow> uint64 \<Rightarrow> uint \<Rightarrow> mem \<Rightarrow> int" where
  "ulib_memcmp s1 s2 n m = memcmp_loop (unat n) s1 s2 m"

definition ulib_memcpy :: "uint64 \<Rightarrow> uint64 \<Rightarrow> uint \<Rightarrow> mem \<Rightarrow> mem" where
  "ulib_memcpy dst src n m = ulib_memmove dst src (sint n) m"

section \<open>Formatted output (user/printf.c)\<close>

definition udigits :: "uchar list" where "udigits = chars ''0123456789ABCDEF''"

primrec uprintint_loop :: "nat \<Rightarrow> uint64 \<Rightarrow> uint64 \<Rightarrow> uchar list option" where
  "uprintint_loop 0 x base = None"
| "uprintint_loop (Suc room) x base =
     (let d = udigits ! unat (x mod base) in
      if x div base \<noteq> 0 then map_option (\<lambda>ds. d # ds) (uprintint_loop room (x div base) base)
      else Some [d])"

text \<open>The bytes that \<^verbatim>\<open>printint\<close> writes; \<open>None\<close> if they do not fit its buffer of 20 bytes.\<close>

definition uprintint :: "uint64 \<Rightarrow> uint64 \<Rightarrow> bool \<Rightarrow> uchar list option" where
  "uprintint xx base sg =
     (let neg = sg \<and> xx <s 0; x = (if neg then - xx else xx) in
      case uprintint_loop 20 x base of
        None \<Rightarrow> None
      | Some ds \<Rightarrow> if neg then (if length ds < 20 then Some (rev (ds @ [ch CHR ''-''])) else None) else Some (rev ds))"

primrec uptr_digits :: "nat \<Rightarrow> uint64 \<Rightarrow> uchar list" where
  "uptr_digits 0 x = []"
| "uptr_digits (Suc k) x = udigits ! unat (drop_bit 60 x) # uptr_digits k (push_bit 4 x)"

definition uprintptr :: "uint64 \<Rightarrow> uchar list" where
  "uprintptr x = [ch CHR ''0'', ch CHR ''x''] @ uptr_digits 16 x"

definition udirective :: "directive \<Rightarrow> parg list \<Rightarrow> (uchar list \<times> parg list) option" where
  "udirective d ap = (case d of
     DPercent \<Rightarrow> Some ([ch CHR ''%''], ap)
   | DUnknown c \<Rightarrow> Some ([ch CHR ''%'', c], ap)
   | DEnd \<Rightarrow> Some ([], ap)
   | _ \<Rightarrow> (case ap of
       [] \<Rightarrow> None
     | a # ap' \<Rightarrow> map_option (\<lambda>bs. (bs, ap')) (case (d, a) of
           (DInt32 base True, PInt v) \<Rightarrow> uprintint (scast (ucast v :: 32 word)) base True
         | (DInt32 base False, PInt v) \<Rightarrow> uprintint (ucast (ucast v :: 32 word)) base False
         | (DInt64 base sg, PInt v) \<Rightarrow> uprintint v base sg
         | (DPtr, PInt v) \<Rightarrow> Some (uprintptr v)
         | (DChar, PInt v) \<Rightarrow> Some [ucast v]
         | (DStr, PNull) \<Rightarrow> Some (chars ''(null)'')
         | (DStr, PStr s) \<Rightarrow> Some s
         | _ \<Rightarrow> None)))"

fun vprintf :: "uchar list \<Rightarrow> parg list \<Rightarrow> uchar list option" where
  "vprintf [] ap = Some []"
| "vprintf (c # cs) ap =
     (if c \<noteq> ch CHR ''%'' then map_option (\<lambda>bs. c # bs) (vprintf cs ap)
      else if cs = [] then Some []
      else case udirective (fst (directive cs)) ap of
          None \<Rightarrow> None
        | Some (bs, ap') \<Rightarrow> map_option (\<lambda>bs'. bs @ bs') (vprintf (drop (snd (directive cs)) cs) ap'))"

section \<open>memmove and strcmp\<close>

lemma ulib_memmove_eq:
  assumes "unat src + unat n < 2 ^ 64" and "unat dst + unat n < 2 ^ 64"
  shows "ulib_memmove dst src (uint n) m = memmove dst src n m"
proof -
  have n: "unat n \<le> 2 ^ 64" using unat_uint_bound [of n] by simp
  have S: "unat (src + of_nat i) = unat src + i" and D: "unat (dst + of_nat i) = unat dst + i" if "i \<le> unat n" for i
    using that assms by (auto intro!: unat_add_nat)
  have neq: "dst + of_nat i \<noteq> src + of_nat j" if "unat dst + i \<noteq> unat src + j" "i < unat n" "j < unat n" for i j
    using that S [of j] D [of i] by auto
  have "ulib_memmove dst src (uint n) m = blit m dst (bytes m src (unat n))"
  proof (cases "dst < src")
    case True
    have "copy_up (unat n) dst src m = blit m dst (bytes m src (unat n))"
      by (rule copy_up_eq) (use neq True n in \<open>auto simp: word_less_nat_alt\<close>)
    with True show ?thesis by (simp add: ulib_memmove_def)
  next
    case False
    have "copy_down (unat n) (dst + of_nat (unat n)) (src + of_nat (unat n)) m = blit m dst (bytes m src (unat n))"
      by (rule copy_down_eq) (use neq False n in \<open>auto simp: word_less_nat_alt\<close>)
    with False show ?thesis by (simp add: ulib_memmove_def)
  qed
  then show ?thesis by (simp add: memmove_eq [OF assms(1,2)])
qed

text \<open>\<^verbatim>\<open>strcmp\<close> returns on any two terminated strings, with 0 exactly when they are equal.\<close>

lemma strcmp_eq:
  assumes "bytes m p (Suc (length xs)) = xs @ [0]" and "bytes m q (Suc (length ys)) = ys @ [0]" and "0 \<notin> set xs" and "0 \<notin> set ys"
  shows "\<exists>r. strcmp p q m = Some r \<and> (r = 0 \<longleftrightarrow> xs = ys)"
  using assms
proof (induction xs arbitrary: p q ys)
  case Nil
  then have "m p = 0" by simp
  moreover have "m q = (ys @ [0]) ! 0" using Nil(2) by (cases ys) simp_all
  ultimately show ?case using Nil(4) by (subst strcmp.simps) (cases ys; auto simp: uint_0_iff)
next
  case (Cons x xs)
  note p = Cons.prems
  show ?case
  proof (cases ys)
    case Nil
    then show ?thesis using p by (subst strcmp.simps) (auto simp: uint_0_iff)
  next
    case (Cons y ys')
    show ?thesis
    proof (cases "x = y")
      case True
      with Cons.IH [of "p + 1" "q + 1" ys'] p Cons show ?thesis by (subst strcmp.simps) auto
    next
      case False
      then show ?thesis using p Cons by (subst strcmp.simps) (auto simp: word_uint_eq_iff)
    qed
  qed
qed

section \<open>atoi and printf\<close>

lemma uprintint_10: "uprintint_loop room x 10 = printint_loop room x 10"
proof (induction room arbitrary: x)
  case (Suc room)
  have "unat (x mod 10) < 10" by (simp add: unat_mod)
  then have "udigits ! unat (x mod 10) = digits ! unat (x mod 10)"
    by (auto simp: udigits_def digits_def chars_def eval_nat_numeral less_Suc_eq)
  with Suc show ?case by (simp add: Let_def)
qed simp

lemma value_rev: "foldl (\<lambda>n d. n * 10 + d) acc (rev ds) = acc * 10 ^ length ds + digits_value 10 ds"
  by (induction ds arbitrary: acc) (simp_all add: algebra_simps)

lemma digit_byte:
  assumes "d < 10"
  shows "ch CHR ''0'' \<le> digits ! d" "digits ! d \<le> ch CHR ''9''" "(ucast (digits ! d) :: uint) - ucast (ch CHR ''0'') = of_nat d"
proof -
  have "d \<in> {0, 1, 2, 3, 4, 5, 6, 7, 8, 9}" using assms by auto
  then show "ch CHR ''0'' \<le> digits ! d" "digits ! d \<le> ch CHR ''9''" "(ucast (digits ! d) :: uint) - ucast (ch CHR ''0'') = of_nat d"
    by (auto simp: digits_def chars_def ch_def)
qed

lemma atoi_loop_digits:
  assumes "list_all (\<lambda>d. d < 10) ds" and "bytes m a (length ds) = map ((!) digits) ds" and "\<not> (ch CHR ''0'' \<le> m (a + of_nat (length ds)) \<and> m (a + of_nat (length ds)) \<le> ch CHR ''9'')"
  shows "atoi_loop a (of_nat n) m = Some (of_nat (foldl (\<lambda>n d. n * 10 + d) n ds))"
  using assms
proof (induction ds arbitrary: a n)
  case Nil
  then show ?case by (subst atoi_loop.simps) auto
next
  case (Cons d ds)
  have m: "m a = digits ! d" "bytes m (a + 1) (length ds) = map ((!) digits) ds" using Cons.prems(2) by simp_all
  have d: "d < 10" using Cons.prems(1) by simp
  have e: "of_nat n * 10 + ucast (digits ! d) - ucast (ch CHR ''0'') = (of_nat (n * 10 + d) :: uint)"
    using digit_byte(3) [OF d] by (simp add: algebra_simps)
  have "atoi_loop a (of_nat n) m = atoi_loop (a + 1) (of_nat (n * 10 + d)) m"
    using digit_byte(1,2) [OF d] by (subst atoi_loop.simps) (simp only: m(1) e simp_thms if_True)
  also have "\<dots> = Some (of_nat (foldl (\<lambda>n d. n * 10 + d) (n * 10 + d) ds))"
    by (rule Cons.IH) (use Cons.prems m(2) in \<open>simp_all add: algebra_simps\<close>)
  finally show ?case by simp
qed

lemma int_of_small: "n < 2 ^ 31 \<Longrightarrow> sint (of_nat n :: uint) = int n"
proof -
  assume n: "n < 2 ^ 31"
  have "signed_take_bit 31 (int n) = int n" by (rule signed_take_bit_int_eq_self) (use n in simp_all)
  then show ?thesis by (simp add: signed_of_nat)
qed

lemma small_nonneg: "unat v < 2 ^ 31 \<Longrightarrow> scast (ucast v :: uint) = v \<and> \<not> v <s 0" for v :: uint64
proof -
  assume v: "unat v < 2 ^ 31"
  have "sint (ucast v :: uint) = uint v" using int_of_small [OF v] by simp
  then have "scast (ucast v :: uint) = (word_of_int (uint v) :: uint64)" by (metis scast_eq)
  moreover have "sint v = uint v" using v by (simp add: sint64 flip: nat_uint_eq)
  ultimately show ?thesis by (simp add: word_sless_alt)
qed

text \<open>
  C37. \<^verbatim>\<open>atoi\<close> reads back what \<open>%d\<close> prints: for every number from 0 to 2^31 - 1, \<^verbatim>\<open>printf\<close> fits the digits into its buffer,
  and wherever a process has the bytes it writes in its memory, with a NUL byte behind them, \<^verbatim>\<open>atoi\<close> returns the number.
\<close>

theorem atoi_printf_roundtrip:
  assumes "unat v < 2 ^ 31"
  shows "\<exists>bs. vprintf (chars ''%d'') [PInt v] = Some bs \<and>
    (\<forall>m a. bytes m a (length bs) = bs \<longrightarrow> m (a + of_nat (length bs)) = 0 \<longrightarrow> atoi a m = Some (int (unat v)))"
proof -
  from printint_abs [of 10 v] obtain ds where ds: "printint_loop 20 v 10 = Some (map ((!) digits) ds)"
    "\<forall>d\<in>set ds. d < 10" "digits_value 10 ds = unat v" by auto
  let ?bs = "map ((!) digits) (rev ds)"
  have "vprintf (chars ''%d'') [PInt v] = Some ?bs"
    using small_nonneg [OF assms] ds(1)
    by (simp add: chars_def directive_def ch_def udirective_def uprintint_def uprintint_10 rev_map Let_def)
  moreover have "atoi a m = Some (int (unat v))" if m: "bytes m a (length ?bs) = ?bs" "m (a + of_nat (length ?bs)) = 0" for m a
  proof -
    have "atoi_loop a (of_nat 0) m = Some (of_nat (foldl (\<lambda>n d. n * 10 + d) 0 (rev ds)))"
      by (rule atoi_loop_digits) (use m ds(2) in \<open>simp_all add: list_all_iff ch_def\<close>)
    then show ?thesis using int_of_small [OF assms] ds(3) by (simp add: atoi_def value_rev)
  qed
  ultimately show ?thesis by blast
qed

theorem atoi_printf_roundtrip_witness:
  "vprintf (chars ''%d'') [PInt 2026] = Some (chars ''2026'') \<and>
    atoi 100 (\<lambda>a. if a = 100 \<or> a = 102 then 50 else if a = 101 then 48 else if a = 103 then 54 else 0) = Some 2026"
proof -
  let ?m = "\<lambda>a. if a = 100 \<or> a = (102 :: uint64) then 50 else if a = 101 then 48 else if a = 103 then 54 else (0 :: uchar)"
  have v: "vprintf (chars ''%d'') [PInt 2026] = Some (chars ''2026'')"
    by code_simp
  from atoi_printf_roundtrip [of 2026] v have "atoi 100 ?m = Some (int (unat (2026 :: uint64)))"
    by (auto simp: chars_def ch_def)
  with v show ?thesis by simp
qed

end
