(* ===== verification/Sh.thy ===== *)
theory Sh
  imports Syscall Grep Ulib
begin

text \<open>
  The shell, \<^verbatim>\<open>user/sh.c\<close>: its tokens, its recursive descent parser and what it does with a parsed command. A pointer into the
  command line is an index into it; the line ends at the NUL that \<^verbatim>\<open>strlen\<close> found, and reading at the end gives that NUL. The
  parser is over the outcomes of the kernel functions, with the position \<^verbatim>\<open>*ps\<close> as its state and \<^verbatim>\<open>panic\<close> of the shell as \<open>Panic\<close>.
\<close>

section \<open>Commands\<close>

text \<open>The structures that share the tag \<^verbatim>\<open>type\<close>, over the representation of a string; the parser uses the pair of start and end.\<close>

datatype 'w cmd =
  EXEC "'w list"
| REDIR "'w cmd" 'w int int
| PIPE "'w cmd" "'w cmd"
| LIST "'w cmd" "'w cmd"
| BACK "'w cmd"

type_synonym pcmd = "(nat \<times> nat) cmd"

definition MAXARGS :: nat where "MAXARGS = 10"

text \<open>\<^verbatim>\<open>parseexec\<close> keeps a pointer to the innermost node and adds the arguments there.\<close>

primrec add_arg :: "'w \<Rightarrow> 'w cmd \<Rightarrow> 'w cmd" where
  "add_arg w (EXEC ws) = EXEC (ws @ [w])"
| "add_arg w (REDIR c file mode fd) = REDIR (add_arg w c) file mode fd"
| "add_arg w (PIPE l r) = PIPE l r"
| "add_arg w (LIST l r) = LIST l r"
| "add_arg w (BACK c) = BACK c"

section \<open>Tokens\<close>

definition whitespace :: "uchar list" where "whitespace = chars [CHR '' '', CHR 0x09, CHR 0x0D, CHR 0x0A, CHR 0x0B]"
definition symbols :: "uchar list" where "symbols = chars ''<|>&;()''"

definition char_at :: "uchar list \<Rightarrow> nat \<Rightarrow> uchar" where
  "char_at line s = (if s < length line then line ! s else 0)"

definition is_ws :: "uchar \<Rightarrow> bool" where "is_ws c \<longleftrightarrow> strchr whitespace c \<noteq> None"
definition is_sym :: "uchar \<Rightarrow> bool" where "is_sym c \<longleftrightarrow> strchr symbols c \<noteq> None"

function skip_ws :: "uchar list \<Rightarrow> nat \<Rightarrow> nat" where
  "skip_ws line s = (if s < length line \<and> is_ws (char_at line s) then skip_ws line (s + 1) else s)"
  by pat_completeness auto
termination by (relation "measure (\<lambda>(line, s). length line - s)") auto

function skip_word :: "uchar list \<Rightarrow> nat \<Rightarrow> nat" where
  "skip_word line s = (if s < length line \<and> \<not> is_ws (char_at line s) \<and> \<not> is_sym (char_at line s) then skip_word line (s + 1) else s)"
  by pat_completeness auto
termination by (relation "measure (\<lambda>(line, s). length line - s)") auto

text \<open>\<^verbatim>\<open>gettoken\<close> returns the kind of the token, its start and its end.\<close>

definition token_at :: "uchar list \<Rightarrow> nat \<Rightarrow> uchar \<times> nat" where
  "token_at line s = (let c = char_at line s in
     if c = 0 then (0, s)
     else if c \<in> set (chars ''|();&<'') then (c, s + 1)
     else if c = ch CHR ''>'' then if char_at line (s + 1) = ch CHR ''>'' then (ch CHR ''+'', s + 2) else (c, s + 1)
     else (ch CHR ''a'', skip_word line s))"

definition gettoken :: "uchar list \<Rightarrow> (nat, uchar \<times> nat \<times> nat) km" where
  "gettoken line = (\<lambda>s. let q = skip_ws line s; (ret, eq) = token_at line q in Ok (ret, q, eq) (skip_ws line eq))"

definition peek :: "uchar list \<Rightarrow> uchar list \<Rightarrow> (nat, bool) km" where
  "peek line toks = (\<lambda>s. let s' = skip_ws line s in Ok (char_at line s' \<noteq> 0 \<and> strchr toks (char_at line s') \<noteq> None) s')"

section \<open>Parsing\<close>

definition redirect :: "uchar \<Rightarrow> pcmd \<Rightarrow> nat \<times> nat \<Rightarrow> pcmd" where
  "redirect tok c w =
     (if tok = ch CHR ''<'' then REDIR c w O_RDONLY 0
      else if tok = ch CHR ''>'' then REDIR c w (O_WRONLY OR O_CREATE OR O_TRUNC) 1
      else if tok = ch CHR ''+'' then REDIR c w (O_WRONLY OR O_CREATE) 1 else c)"

definition loop_fuel :: "uchar list \<Rightarrow> nat" where
  "loop_fuel line = Suc (length line)"

primrec parseredirs :: "nat \<Rightarrow> uchar list \<Rightarrow> pcmd \<Rightarrow> (nat, pcmd) km" where
  "parseredirs 0 line c = spin ''parseredirs''"
| "parseredirs (Suc k) line c =
     bind (peek line (chars ''<>'')) (\<lambda>b.
     if \<not> b then return c
     else bind (gettoken line) (\<lambda>(tok, _, _).
       bind (gettoken line) (\<lambda>(tok', q, eq).
       if tok' \<noteq> ch CHR ''a'' then panic ''missing file for redirection''
       else parseredirs k line (redirect tok c (q, eq)))))"

primrec parseargs :: "nat \<Rightarrow> uchar list \<Rightarrow> nat \<Rightarrow> pcmd \<Rightarrow> (nat, pcmd) km" where
  "parseargs 0 line argc ret = spin ''parseexec''"
| "parseargs (Suc k) line argc ret =
     bind (peek line (chars ''|)&;'')) (\<lambda>b.
     if b then bind (fault_if (\<lambda>_. MAXARGS \<le> argc) ''parseexec: argv'') (\<lambda>_. return ret)
     else bind (gettoken line) (\<lambda>(tok, q, eq).
       if tok = 0 then bind (fault_if (\<lambda>_. MAXARGS \<le> argc) ''parseexec: argv'') (\<lambda>_. return ret)
       else if tok \<noteq> ch CHR ''a'' then panic ''syntax''
       else bind (fault_if (\<lambda>_. MAXARGS \<le> argc) ''parseexec: argv'') (\<lambda>_.
         if MAXARGS \<le> argc + 1 then panic ''too many args''
         else bind (parseredirs (loop_fuel line) line (add_arg (q, eq) ret)) (parseargs k line (argc + 1)))))"

primrec parsebacks :: "nat \<Rightarrow> uchar list \<Rightarrow> pcmd \<Rightarrow> (nat, pcmd) km" where
  "parsebacks 0 line c = spin ''parseline''"
| "parsebacks (Suc k) line c =
     bind (peek line (chars ''&'')) (\<lambda>b. if b then bind (gettoken line) (\<lambda>_. parsebacks k line (BACK c)) else return c)"

fun parseline :: "nat \<Rightarrow> uchar list \<Rightarrow> (nat, pcmd) km" and parsepipe :: "nat \<Rightarrow> uchar list \<Rightarrow> (nat, pcmd) km"
  and parseexec :: "nat \<Rightarrow> uchar list \<Rightarrow> (nat, pcmd) km" and parseblock :: "nat \<Rightarrow> uchar list \<Rightarrow> (nat, pcmd) km" where
  "parseline 0 line = spin ''parseline''"
| "parseline (Suc k) line =
     bind (parsepipe k line) (\<lambda>c.
     bind (parsebacks (loop_fuel line) line c) (\<lambda>c.
     bind (peek line (chars '';'')) (\<lambda>b.
     if b then bind (gettoken line) (\<lambda>_. bind (parseline k line) (\<lambda>r. return (LIST c r))) else return c)))"
| "parsepipe 0 line = spin ''parsepipe''"
| "parsepipe (Suc k) line =
     bind (parseexec k line) (\<lambda>c.
     bind (peek line (chars ''|'')) (\<lambda>b.
     if b then bind (gettoken line) (\<lambda>_. bind (parsepipe k line) (\<lambda>r. return (PIPE c r))) else return c))"
| "parseexec 0 line = spin ''parseexec''"
| "parseexec (Suc k) line =
     bind (peek line (chars ''('')) (\<lambda>b.
     if b then parseblock k line
     else bind (parseredirs (loop_fuel line) line (EXEC [])) (parseargs (loop_fuel line) line 0))"
| "parseblock 0 line = spin ''parseblock''"
| "parseblock (Suc k) line =
     bind (peek line (chars ''('')) (\<lambda>b.
     if \<not> b then panic ''parseblock''
     else bind (gettoken line) (\<lambda>_.
       bind (parseline k line) (\<lambda>c.
       bind (peek line (chars '')'')) (\<lambda>b.
       if \<not> b then panic ''syntax - missing )''
       else bind (gettoken line) (\<lambda>_. parseredirs (loop_fuel line) line c)))))"

definition parse_fuel :: "uchar list \<Rightarrow> nat" where
  "parse_fuel line = 4 * length line + 4"

text \<open>
  \<^verbatim>\<open>nulterminate\<close> writes into the buffer behind the words. \<^verbatim>\<open>parsecmd\<close> starts with the line in the buffer, its NUL included, and
  returns the command and the buffer.
\<close>

primrec nulterminate :: "pcmd \<Rightarrow> uchar list \<Rightarrow> uchar list" where
  "nulterminate (EXEC ws) buf = fold (\<lambda>w b. b[snd w := 0]) ws buf"
| "nulterminate (REDIR c file mode fd) buf = (nulterminate c buf)[snd file := 0]"
| "nulterminate (PIPE l r) buf = nulterminate r (nulterminate l buf)"
| "nulterminate (LIST l r) buf = nulterminate r (nulterminate l buf)"
| "nulterminate (BACK c) buf = nulterminate c buf"

definition parsecmd :: "uchar list \<Rightarrow> (nat, pcmd \<times> uchar list) km" where
  "parsecmd line =
     bind (parseline (parse_fuel line) line) (\<lambda>c.
     bind (peek line []) (\<lambda>_.
     bind (panic_if (\<lambda>s. s \<noteq> length line) ''syntax'') (\<lambda>_.
     return (c, nulterminate c (line @ [0])))))"

section \<open>Every line is parsed or refused\<close>

definition plain :: "uchar \<Rightarrow> bool" where
  "plain c \<longleftrightarrow> \<not> is_ws c \<and> \<not> is_sym c \<and> c \<noteq> 0"

text \<open>A word of the line: plain characters, and no plain one behind it.\<close>

definition word_ok :: "uchar list \<Rightarrow> nat \<times> nat \<Rightarrow> bool" where
  "word_ok line w \<longleftrightarrow> fst w < snd w \<and> snd w \<le> length line \<and> list_all plain (take (snd w - fst w) (drop (fst w) line)) \<and>
     \<not> plain (char_at line (snd w))"

definition redir_kinds :: "(int \<times> int) list" where
  "redir_kinds = [(O_RDONLY, 0), (O_WRONLY OR O_CREATE OR O_TRUNC, 1), (O_WRONLY OR O_CREATE, 1)]"

primrec cmd_ok :: "('w \<Rightarrow> bool) \<Rightarrow> 'w cmd \<Rightarrow> bool" where
  "cmd_ok P (EXEC ws) \<longleftrightarrow> length ws < MAXARGS \<and> list_all P ws"
| "cmd_ok P (REDIR c file mode fd) \<longleftrightarrow> cmd_ok P c \<and> P file \<and> (mode, fd) \<in> set redir_kinds"
| "cmd_ok P (PIPE l r) \<longleftrightarrow> cmd_ok P l \<and> cmd_ok P r"
| "cmd_ok P (LIST l r) \<longleftrightarrow> cmd_ok P l \<and> cmd_ok P r"
| "cmd_ok P (BACK c) \<longleftrightarrow> cmd_ok P c"

text \<open>\<open>pend m Q s\<close>: from \<open>s\<close> the parser \<open>m\<close> returns with \<open>Q\<close> or stops with one of the errors of syntax.\<close>

definition syntax_errors :: "string list" where
  "syntax_errors = [''missing file for redirection'', ''syntax'', ''too many args'', ''syntax - missing )'']"

definition pend :: "('s, 'a) km \<Rightarrow> ('a \<Rightarrow> 's \<Rightarrow> bool) \<Rightarrow> 's \<Rightarrow> bool" where
  "pend m Q s \<longleftrightarrow> (case m s of Ok x t \<Rightarrow> Q x t | Panic e \<Rightarrow> e \<in> set syntax_errors | _ \<Rightarrow> False)"

lemma pend_bind [simp]: "pend (bind m f) Q s = pend m (\<lambda>x. pend (f x) Q) s"
  by (simp add: pend_def bind_def split: kres.splits)

lemma pend_simps [simp]:
  "pend (return x) Q s = Q x s" "pend (panic e) Q s = (e \<in> set syntax_errors)"
  "pend (fault_if b e) P s = (\<not> b s \<and> P () s)" "pend (panic_if b e) P s = (if b s then e \<in> set syntax_errors else P () s)"
  by (simp_all add: pend_def)

lemma pend_mono: "pend m P s \<Longrightarrow> (\<And>x t. P x t \<Longrightarrow> Q x t) \<Longrightarrow> pend m Q s"
  by (auto simp: pend_def split: kres.splits)

lemma char_at_nonzero: "0 \<notin> set line \<Longrightarrow> char_at line s = 0 \<longleftrightarrow> length line \<le> s"
  by (metis char_at_def nth_mem not_le)

lemmas [simp del] = skip_ws.simps skip_word.simps

lemma skip_ws_bounds: "s \<le> length line \<Longrightarrow> s \<le> skip_ws line s \<and> skip_ws line s \<le> length line"
proof (induction line s rule: skip_ws.induct)
  case (1 line s)
  then show ?case by (subst (1 2) skip_ws.simps) (auto simp: Suc_le_eq)
qed

lemma skip_ws_stop: "\<not> (skip_ws line s < length line \<and> is_ws (char_at line (skip_ws line s)))"
proof (induction line s rule: skip_ws.induct)
  case (1 line s)
  then show ?case by (subst (1 2) skip_ws.simps) auto
qed

lemma skip_ws_idem [simp]: "skip_ws line (skip_ws line s) = skip_ws line s"
  by (subst skip_ws.simps) (use skip_ws_stop in auto)

lemma skip_word_bounds: "s \<le> length line \<Longrightarrow> s \<le> skip_word line s \<and> skip_word line s \<le> length line"
proof (induction line s rule: skip_word.induct)
  case (1 line s)
  then show ?case by (subst (1 2) skip_word.simps) (auto simp: Suc_le_eq)
qed

lemma skip_word_stop: "\<not> plain (char_at line (skip_word line s))"
proof (induction line s rule: skip_word.induct)
  case (1 line s)
  then show ?case by (subst skip_word.simps) (auto simp: plain_def char_at_def)
qed

lemma skip_word_plain: "0 \<notin> set line \<Longrightarrow> list_all plain (take (skip_word line s - s) (drop s line))"
proof (induction line s rule: skip_word.induct)
  case (1 line s)
  show ?case
  proof (cases "s < length line \<and> \<not> is_ws (char_at line s) \<and> \<not> is_sym (char_at line s)")
    case True
    then have e: "skip_word line s = skip_word line (s + 1)" and s: "s < length line" by (subst skip_word.simps, simp, simp)
    from skip_word_bounds [of "s + 1" line] s have le: "s + 1 \<le> skip_word line (s + 1)" by simp
    have "plain (char_at line s)" using True char_at_nonzero [OF 1(2), of s] by (auto simp: plain_def)
    then have "plain (line ! s)" using s by (simp add: char_at_def)
    moreover have "take (skip_word line s - s) (drop s line) = line ! s # take (skip_word line (s + 1) - (s + 1)) (drop (s + 1) line)"
      using s le unfolding e by (simp add: Cons_nth_drop_Suc [symmetric] take_Cons' )
    ultimately show ?thesis using 1(1) [OF True 1(2)] by simp
  next
    case False
    then show ?thesis by (subst skip_word.simps) auto
  qed
qed

lemma peek_ok:
  assumes "s \<le> length line"
  shows "pend (peek line toks) (\<lambda>b t. s \<le> t \<and> t \<le> length line \<and> skip_ws line t = t \<and> (b \<longrightarrow> t < length line)) s"
  using skip_ws_bounds [OF assms] by (auto simp: pend_def peek_def Let_def char_at_def)

lemma symbols_eq: "is_sym c \<longleftrightarrow> c \<in> set (chars ''|();&<'') \<or> c = ch CHR ''>''"
proof -
  have "0 \<notin> set symbols" by (simp add: symbols_def chars_def ch_def)
  from strchr_None [OF this, of c] show ?thesis by (auto simp: is_sym_def symbols_def chars_def)
qed

lemma gettoken_ok:
  assumes s: "s \<le> length line" and z: "0 \<notin> set line"
  shows "pend (gettoken line) (\<lambda>(tok, q, e) t. s \<le> t \<and> t \<le> length line \<and> (skip_ws line s < length line \<longrightarrow> tok \<noteq> 0) \<and> (tok \<noteq> 0 \<longrightarrow> s < t) \<and>
    (tok = ch CHR ''a'' \<longrightarrow> word_ok line (q, e))) s"
proof -
  let ?q = "skip_ws line s" and ?c = "char_at line (skip_ws line s)"
  note b = skip_ws_bounds [OF s]
  have ret: "gettoken line s = (let (ret, e) = token_at line ?q in Ok (ret, ?q, e) (skip_ws line e))"
    by (simp add: gettoken_def Let_def)
  have le: "e \<le> skip_ws line e \<and> skip_ws line e \<le> length line" if "e \<le> length line" for e using skip_ws_bounds [OF that] .
  consider "?c = 0" | "?c \<noteq> 0" "is_sym ?c" | "?c \<noteq> 0" "\<not> is_sym ?c" by blast
  then show ?thesis
  proof cases
    case 1
    have "?q = length line" using 1 b char_at_nonzero [OF z, of ?q] by simp
    then show ?thesis using 1 b le [of ?q] by (simp add: pend_def ret token_at_def ch_def)
  next
    case 2
    then have q: "?q < length line" by (auto simp: char_at_def split: if_splits)
    have "?c \<noteq> ch CHR ''a''" using 2 by (auto simp: symbols_eq chars_def ch_def)
    moreover have "?q + 2 \<le> length line" if "char_at line (?q + 1) = ch CHR ''>''"
      using that by (auto simp: char_at_def ch_def split: if_splits)
    ultimately show ?thesis using 2 q b le [of "?q + 1"] le [of "?q + 2"]
      by (auto simp: pend_def ret token_at_def Let_def symbols_eq ch_def)
  next
    case 3
    then have q: "?q < length line" by (auto simp: char_at_def split: if_splits)
    with skip_ws_stop [of line s] have "skip_word line ?q = skip_word line (?q + 1)" using 3 by (subst skip_word.simps) auto
    with skip_word_bounds [of "?q + 1" line] q have e: "?q < skip_word line ?q" "skip_word line ?q \<le> length line" by auto
    have "word_ok line (?q, skip_word line ?q)"
      using e skip_word_stop skip_word_plain [OF z] by (simp add: word_ok_def)
    then show ?thesis using 3 q b e le [of "skip_word line ?q"] by (auto simp: pend_def ret token_at_def Let_def symbols_eq ch_def)
  qed
qed

lemma redirect_ok: "cmd_ok P c \<Longrightarrow> P w \<Longrightarrow> cmd_ok P (redirect tok c w)" for c :: pcmd
  by (simp add: redirect_def redir_kinds_def)

primrec spine_args :: "'w cmd \<Rightarrow> 'w list option" where
  "spine_args (EXEC ws) = Some ws"
| "spine_args (REDIR c file mode fd) = spine_args c"
| "spine_args (PIPE l r) = None"
| "spine_args (LIST l r) = None"
| "spine_args (BACK c) = None"

lemma spine_args_redirect [simp]: "spine_args (redirect tok c w) = spine_args c"
  by (simp add: redirect_def)

lemma add_arg_ok: "cmd_ok P c \<Longrightarrow> P w \<Longrightarrow> spine_args c = Some ws \<Longrightarrow> Suc (length ws) < MAXARGS \<Longrightarrow>
  cmd_ok P (add_arg w c) \<and> spine_args (add_arg w c) = Some (ws @ [w])"
  by (induction c) auto

lemma peekI:
  assumes "s \<le> length line" and "\<And>b t. s \<le> t \<Longrightarrow> t \<le> length line \<Longrightarrow> skip_ws line t = t \<Longrightarrow> (b \<Longrightarrow> t < length line) \<Longrightarrow> Q b t"
  shows "pend (peek line toks) Q s"
  by (rule pend_mono [OF peek_ok [OF assms(1)]]) (use assms(2) in auto)

lemma gettokenI:
  assumes "s \<le> length line" and "0 \<notin> set line"
    and "\<And>tok q e t. s \<le> t \<Longrightarrow> t \<le> length line \<Longrightarrow> (skip_ws line s < length line \<Longrightarrow> tok \<noteq> 0) \<Longrightarrow> (tok \<noteq> 0 \<Longrightarrow> s < t) \<Longrightarrow>
      (tok = ch CHR ''a'' \<Longrightarrow> word_ok line (q, e)) \<Longrightarrow> Q (tok, q, e) t"
  shows "pend (gettoken line) Q s"
  by (rule pend_mono [OF gettoken_ok [OF assms(1,2)]]) (use assms(3) in auto)

text \<open>What every part of the parser promises: it moves forward and its command is well formed.\<close>

abbreviation parsed :: "uchar list \<Rightarrow> nat \<Rightarrow> pcmd \<Rightarrow> nat \<Rightarrow> bool" where
  "parsed line s \<equiv> \<lambda>c t. s \<le> t \<and> t \<le> length line \<and> cmd_ok (word_ok line) c"

lemma parseredirs_ok:
  assumes "s \<le> length line" and "0 \<notin> set line" and "length line - s < k" and "cmd_ok (word_ok line) c"
  shows "pend (parseredirs k line c) (\<lambda>c' t. parsed line s c' t \<and> spine_args c' = spine_args c) s"
  using assms
proof (induction k arbitrary: c s)
  case (Suc k)
  have "pend (parseredirs k line (redirect tok c w)) (\<lambda>c' t. parsed line s c' t \<and> spine_args c' = spine_args c) u"
    if "s < u" "u \<le> length line" "word_ok line w" for tok w u
    by (rule pend_mono [OF Suc.IH]) (use that Suc.prems redirect_ok in auto)
  with Suc.prems show ?case by (auto simp: syntax_errors_def ch_def intro!: peekI gettokenI)
qed simp

lemma parseargs_ok:
  assumes "s \<le> length line" and "0 \<notin> set line" and "length line - s < k" and "cmd_ok (word_ok line) c"
    and "spine_args c = Some ws" and "length ws = argc" and "argc < MAXARGS"
  shows "pend (parseargs k line argc c) (parsed line s) s"
  using assms
proof (induction k arbitrary: c s argc ws)
  case (Suc k)
  have "pend (parseredirs (loop_fuel line) line (add_arg w c)) (\<lambda>c'. pend (parseargs k line (Suc argc) c') (parsed line s)) u"
    if u: "s < u" "u \<le> length line" "word_ok line w" "Suc argc < MAXARGS" for w u
  proof -
    from add_arg_ok [of "word_ok line" c w ws] Suc.prems u
    have a: "cmd_ok (word_ok line) (add_arg w c)" "spine_args (add_arg w c) = Some (ws @ [w])" by auto
    have "pend (parseargs k line (Suc argc) c') (parsed line s) t"
      if "parsed line u c' t" "spine_args c' = Some (ws @ [w])" for c' t
      by (rule pend_mono [OF Suc.IH [of t c' "ws @ [w]"]]) (use that u Suc.prems in auto)
    then show ?thesis using a(2) by (intro pend_mono [OF parseredirs_ok]) (use u Suc.prems a(1) in \<open>auto simp: loop_fuel_def\<close>)
  qed
  with Suc.prems show ?case by (auto simp: syntax_errors_def ch_def intro!: peekI gettokenI)
qed simp

lemma parsebacks_ok:
  assumes "s \<le> length line" and "0 \<notin> set line" and "length line - s < k" and "cmd_ok (word_ok line) c"
  shows "pend (parsebacks k line c) (parsed line s) s"
  using assms
proof (induction k arbitrary: c s)
  case (Suc k)
  have "pend (parsebacks k line (BACK c)) (parsed line s) u" if "s < u" "u \<le> length line" for u
    by (rule pend_mono [OF Suc.IH]) (use that Suc.prems in auto)
  with Suc.prems show ?case by (auto intro!: peekI gettokenI)
qed simp

lemma pend_peek: "pend (peek line toks) Q s = Q (char_at line (skip_ws line s) \<noteq> 0 \<and> strchr toks (char_at line (skip_ws line s)) \<noteq> None) (skip_ws line s)"
  by (simp add: pend_def peek_def Let_def)

lemma parse_parts_ok:
  assumes "0 \<notin> set line" and "s \<le> length line"
  shows "4 * (length line - s) + 4 \<le> k \<Longrightarrow> pend (parseline k line) (parsed line s) s"
    "4 * (length line - s) + 3 \<le> k \<Longrightarrow> pend (parsepipe k line) (parsed line s) s"
    "4 * (length line - s) + 2 \<le> k \<Longrightarrow> pend (parseexec k line) (parsed line s) s"
    "skip_ws line s = s \<Longrightarrow> char_at line s = ch CHR ''('' \<Longrightarrow> 4 * (length line - s) + 1 \<le> k \<Longrightarrow> pend (parseblock k line) (parsed line s) s"
  using assms
proof (induction k arbitrary: s)
  case (Suc k)
  {
    case 1
    have "pend (parseline k line) (\<lambda>r. pend (return (LIST c r)) (parsed line s)) u" if "s < u" "u \<le> length line" "cmd_ok (word_ok line) c" for u c
      by (rule pend_mono [OF Suc.IH(1)]) (use that 1 in auto)
    then have "pend (parsebacks (loop_fuel line) line c) (\<lambda>c. pend (bind (peek line (chars '';'')) (\<lambda>b.
        if b then bind (gettoken line) (\<lambda>_. bind (parseline k line) (\<lambda>r. return (LIST c r))) else return c)) (parsed line s)) u"
      if "parsed line s c u" for c u
      by (intro pend_mono [OF parsebacks_ok]) (use that 1 in \<open>auto simp: loop_fuel_def intro!: peekI gettokenI\<close>)
    then show ?case by simp (rule pend_mono [OF Suc.IH(2)], use 1 in auto)
  next
    case 2
    have "pend (parsepipe k line) (\<lambda>r. pend (return (PIPE c r)) (parsed line s)) u" if "s < u" "u \<le> length line" "cmd_ok (word_ok line) c" for u c
      by (rule pend_mono [OF Suc.IH(2)]) (use that 2 in auto)
    then show ?case using 2 by simp (rule pend_mono [OF Suc.IH(3)], auto intro!: peekI gettokenI)
  next
    case 3
    let ?t = "skip_ws line s"
    note b = skip_ws_bounds [OF 3(3)]
    have "pend (parseblock k line) (parsed line s) ?t" if "char_at line ?t = ch CHR ''(''"
      by (rule pend_mono [OF Suc.IH(4)]) (use that b 3 in auto)
    moreover have "pend (parseargs (loop_fuel line) line 0 c) (parsed line s) u" if "parsed line ?t c u" "spine_args c = Some []" for c u
      by (rule pend_mono [OF parseargs_ok]) (use that b 3 in \<open>auto simp: loop_fuel_def MAXARGS_def\<close>)
    then have "pend (parseredirs (loop_fuel line) line (EXEC [])) (\<lambda>c. pend (parseargs (loop_fuel line) line 0 c) (parsed line s)) ?t"
      by (intro pend_mono [OF parseredirs_ok]) (use b 3 in \<open>auto simp: loop_fuel_def MAXARGS_def\<close>)
    ultimately show ?case by (auto simp: pend_peek chars_def ch_def)
  next
    case 4
    have "pend (parseline k line) (\<lambda>c. pend (bind (peek line (chars '')'')) (\<lambda>b.
       if \<not> b then panic ''syntax - missing )'' else bind (gettoken line) (\<lambda>_. parseredirs (loop_fuel line) line c))) (parsed line s)) u"
      if "s < u" "u \<le> length line" for u
    proof -
      have "pend (parseredirs (loop_fuel line) line c) (parsed line s) t" if "parsed line s c t" for c t
        by (rule pend_mono [OF parseredirs_ok]) (use that 4 in \<open>auto simp: loop_fuel_def\<close>)
      then show ?thesis
        by (intro pend_mono [OF Suc.IH(1)]) (use that 4 in \<open>auto simp: syntax_errors_def intro!: peekI gettokenI\<close>)
    qed
    moreover have "s < length line" using 4 by (auto simp: char_at_def ch_def split: if_splits)
    ultimately show ?case using 4 by (auto simp: pend_peek chars_def ch_def intro!: gettokenI)
  }
qed simp_all

lemma parsecmd_ends:
  assumes "0 \<notin> set line"
  shows "pend (parsecmd line) (\<lambda>(c, buf) t. cmd_ok (word_ok line) c \<and> buf = nulterminate c (line @ [0])) 0"
proof -
  have "pend (parseline (parse_fuel line) line) (parsed line 0) 0"
    by (rule parse_parts_ok(1)) (simp_all add: assms parse_fuel_def)
  then show ?thesis unfolding parsecmd_def pend_bind
    by (rule pend_mono) (auto simp: pend_peek syntax_errors_def)
qed

section \<open>The words become strings\<close>

lemma length_nulterminate [simp]: "length (nulterminate c buf) = length buf"
proof (induction c arbitrary: buf)
  case (EXEC ws)
  show ?case by (induction ws arbitrary: buf) simp_all
qed simp_all

lemma nth_nulterminate:
  "i < length buf \<Longrightarrow> nulterminate c buf ! i = (if i \<in> snd ` set_cmd c then 0 else buf ! i)"
proof (induction c arbitrary: buf)
  case (EXEC ws)
  then show ?case by (induction ws arbitrary: buf) (auto simp: nth_list_update)
next
  case (REDIR c f mode fd)
  then show ?case by (cases "i = snd f") (simp_all add: nth_list_update)
qed auto

definition word_text :: "uchar list \<Rightarrow> nat \<times> nat \<Rightarrow> uchar list" where
  "word_text line w = take (snd w - fst w) (drop (fst w) line)"

lemma cmd_ok_words: "cmd_ok P c \<Longrightarrow> w \<in> set_cmd c \<Longrightarrow> P w"
  by (induction c) (auto simp: list_all_iff)

lemma nulterminate_word:
  assumes "\<And>v. v \<in> set_cmd c \<Longrightarrow> word_ok line v" and w: "w \<in> set_cmd c"
  shows "cstr (drop (fst w) (nulterminate c (line @ [0]))) = word_text line w"
proof -
  let ?b = "nulterminate c (line @ [0])" and ?n = "snd w - fst w"
  note ok = assms(1) [OF w, unfolded word_ok_def]
  have t: "?b ! (fst w + i) = word_text line w ! i" "word_text line w ! i \<noteq> 0" if i: "i < ?n" for i
  proof -
    have p: "word_text line w ! i = line ! (fst w + i)" "plain (line ! (fst w + i))"
      using ok i by (auto simp: word_text_def list_all_length)
    then show "word_text line w ! i \<noteq> 0" by (simp add: plain_def)
    have "fst w + i \<notin> snd ` set_cmd c"
    proof
      assume "fst w + i \<in> snd ` set_cmd c"
      then obtain v where v: "v \<in> set_cmd c" "snd v = fst w + i" by auto
      from assms(1) [OF v(1)] v(2) have "\<not> plain (char_at line (fst w + i))" by (simp add: word_ok_def)
      moreover have "fst w + i < length line" using ok i by linarith
      ultimately show False using p(2) by (simp add: char_at_def)
    qed
    then show "?b ! (fst w + i) = word_text line w ! i" using ok i p(1) by (subst nth_nulterminate) (auto simp: nth_append)
  qed
  have len: "length (word_text line w) = ?n" using ok by (auto simp: word_text_def)
  have "?b ! snd w = 0" using ok w by (subst nth_nulterminate) auto
  then have "drop (snd w) ?b = 0 # drop (Suc (snd w)) ?b" using ok Cons_nth_drop_Suc [of "snd w" ?b] by simp
  moreover have "take ?n (drop (fst w) ?b) = word_text line w" by (rule nth_equalityI) (use t(1) len ok in auto)
  moreover have "drop (fst w) ?b = take ?n (drop (fst w) ?b) @ drop (snd w) ?b"
    using append_take_drop_id [of ?n "drop (fst w) ?b"] ok by simp
  ultimately have "drop (fst w) ?b = word_text line w @ 0 # drop (Suc (snd w)) ?b" by simp
  moreover have "0 \<notin> set (word_text line w)" using t(2) len by (auto simp: in_set_conv_nth)
  ultimately show ?thesis by (simp add: cstr_def takeWhile_append)
qed

section \<open>Printing and parsing\<close>

text \<open>Every command over plain words, printed with the parentheses that it needs. Levels: 0 a line, 1 what may be put into the
  background, 2 a pipeline, 3 a part of a pipeline.\<close>

definition plain_word :: "uchar list \<Rightarrow> bool" where
  "plain_word w \<longleftrightarrow> w \<noteq> [] \<and> list_all plain w"

definition redir_text :: "uchar list \<Rightarrow> int \<Rightarrow> int \<Rightarrow> uchar list" where
  "redir_text f mode fd =
     (if (mode, fd) = (O_RDONLY, 0) then chars ''< '' else if (mode, fd) = (O_WRONLY OR O_CREATE OR O_TRUNC, 1) then chars ''> '' else chars ''>> '')
     @ f @ chars '' ''"

definition words_text :: "uchar list list \<Rightarrow> uchar list" where
  "words_text ws = concat (map (\<lambda>w. w @ chars '' '') ws)"

definition paren :: "bool \<Rightarrow> uchar list \<Rightarrow> uchar list" where
  "paren b cs = (if b then chars ''( '' @ cs @ chars '') '' else cs)"

primrec show_cmd :: "uchar list cmd \<Rightarrow> nat \<Rightarrow> uchar list" where
  "show_cmd (EXEC ws) n = words_text ws"
| "show_cmd (REDIR c f mode fd) n = show_cmd c 3 @ redir_text f mode fd"
| "show_cmd (PIPE l r) n = paren (2 < n) (show_cmd l 3 @ chars ''| '' @ show_cmd r 2)"
| "show_cmd (LIST l r) n = paren (0 < n) (show_cmd l 1 @ chars ''; '' @ show_cmd r 0)"
| "show_cmd (BACK c) n = paren (1 < n) (show_cmd c 1 @ chars ''& '')"

definition rest :: "uchar list \<Rightarrow> nat \<Rightarrow> uchar list \<Rightarrow> bool" where
  "rest line s xs \<longleftrightarrow> s \<le> length line \<and> drop s line = xs"

definition nows :: "uchar list \<Rightarrow> bool" where
  "nows xs \<longleftrightarrow> xs = [] \<or> \<not> is_ws (hd xs)"

definition follow :: "string \<Rightarrow> uchar list \<Rightarrow> bool" where
  "follow S xs \<longleftrightarrow> xs = [] \<or> hd xs \<in> set (chars S)"

lemma ws_eq: "is_ws c \<longleftrightarrow> c \<in> {32, 9, 13, 10, 11}"
  by (auto simp: is_ws_def whitespace_def chars_def ch_def)

lemma sym_eq: "is_sym c \<longleftrightarrow> c \<in> {60, 124, 62, 38, 59, 40, 41}"
  by (auto simp: symbols_eq chars_def ch_def)

lemma rest_iff: "rest line s xs \<longleftrightarrow> (\<exists>pre. line = pre @ xs \<and> length pre = s)"
proof
  assume "rest line s xs"
  then show "\<exists>pre. line = pre @ xs \<and> length pre = s"
    using append_take_drop_id [of s line] by (intro exI [of _ "take s line"]) (auto simp: rest_def)
qed (auto simp: rest_def)

lemma rest_append: "rest line s (xs @ ys) \<Longrightarrow> rest line (s + length xs) ys \<and> word_text line (s, s + length xs) = xs"
  unfolding rest_iff by (auto simp: word_text_def intro!: exI [of _ "_ @ xs"])

lemma rest_Cons: "rest line s (c # xs) \<Longrightarrow> s < length line \<and> char_at line s = c \<and> rest line (Suc s) xs"
  using rest_append [of line s "[c]" xs] by (auto simp: rest_iff char_at_def)

lemma rest_char: "rest line s xs \<Longrightarrow> char_at line s = (case xs of [] \<Rightarrow> 0 | c # _ \<Rightarrow> c)"
  using rest_Cons [of line s "hd xs" "tl xs"] by (cases xs) (auto simp: rest_def char_at_def)

lemma rest_length: "rest line s xs \<Longrightarrow> length line = s + length xs"
  by (auto simp: rest_iff)

lemma skip_ws_nows: "rest line s xs \<Longrightarrow> nows xs \<Longrightarrow> skip_ws line s = s"
  by (subst skip_ws.simps) (auto simp: nows_def rest_char rest_length split: list.split)

lemma skip_ws_space: "rest line s (32 # xs) \<Longrightarrow> nows xs \<Longrightarrow> skip_ws line s = Suc s"
  using skip_ws_nows [of line "Suc s" xs] rest_Cons [of line s 32 xs] by (subst skip_ws.simps) (auto simp: ws_eq)

lemma skip_word_plain_run: "rest line s (w @ 32 # xs) \<Longrightarrow> list_all plain w \<Longrightarrow> skip_word line s = s + length w"
proof (induction w arbitrary: s)
  case Nil
  then show ?case using rest_Cons [of line s 32 xs] by (subst skip_word.simps) (auto simp: ws_eq)
next
  case (Cons c w)
  then show ?case using rest_Cons [of line s c "w @ 32 # xs"] by (subst skip_word.simps) (auto simp: plain_def)
qed

lemma peek_rest:
  "rest line s xs \<Longrightarrow> nows xs \<Longrightarrow> peek line toks s = Ok (case xs of [] \<Rightarrow> False | c # _ \<Rightarrow> c \<noteq> 0 \<and> strchr toks c \<noteq> None) s"
  by (auto simp: peek_def Let_def skip_ws_nows rest_char split: list.split)

lemma gettoken_symbol:
  assumes "rest line s (c # 32 # xs)" and "nows xs" and "is_sym c"
  shows "gettoken line s = Ok (c, s, Suc s) (Suc (Suc s)) \<and> rest line (Suc (Suc s)) xs"
proof -
  note 1 = rest_Cons [OF assms(1)]
  then have 2: "char_at line (Suc s) = 32" "rest line (Suc (Suc s)) xs" using rest_Cons [of line "Suc s" 32 xs] by auto
  have "nows (c # 32 # xs)" using assms(3) by (auto simp: nows_def ws_eq sym_eq)
  from skip_ws_nows [OF assms(1) this] skip_ws_space [of line "Suc s" xs] 1 2 assms(2,3) show ?thesis
    by (auto simp: gettoken_def token_at_def Let_def symbols_eq ch_def chars_def)
qed

lemma gettoken_append:
  assumes "rest line s (chars ''>> '' @ xs)" and "nows xs"
  shows "gettoken line s = Ok (ch CHR ''+'', s, Suc (Suc s)) (Suc (Suc (Suc s))) \<and> rest line (Suc (Suc (Suc s))) xs"
proof -
  have r: "rest line s (62 # 62 # 32 # xs)" using assms(1) by (simp add: chars_def ch_def)
  note 1 = rest_Cons [OF r]
  then have 2: "char_at line (Suc s) = 62" "rest line (Suc (Suc s)) (32 # xs)" using rest_Cons [of line "Suc s" 62 "32 # xs"] by auto
  have "nows (62 # 62 # 32 # xs)" by (simp add: nows_def ws_eq)
  from skip_ws_nows [OF r this] skip_ws_space [OF 2(2) assms(2)] 1 2 rest_Cons [OF 2(2)] show ?thesis
    by (auto simp: gettoken_def token_at_def Let_def ch_def chars_def)
qed

lemma gettoken_word:
  assumes "rest line s (w @ 32 # xs)" and "nows xs" and "plain_word w"
  shows "gettoken line s = Ok (ch CHR ''a'', s, s + length w) (Suc (s + length w)) \<and> rest line (Suc (s + length w)) xs \<and>
    word_text line (s, s + length w) = w"
proof -
  obtain c w' where w: "w = c # w'" "plain c" using assms(3) by (cases w) (auto simp: plain_word_def)
  have "nows (w @ 32 # xs)" using w by (simp add: nows_def plain_def)
  note 1 = skip_ws_nows [OF assms(1) this] and 2 = rest_append [OF assms(1)]
  have "skip_word line s = s + length w" using skip_word_plain_run assms(1,3) by (simp add: plain_word_def)
  moreover have "char_at line s = c" using rest_Cons [of line s c "w' @ 32 # xs"] assms(1) w by simp
  ultimately show ?thesis using w(2) 1 2 skip_ws_space [of line "s + length w" xs] assms(2) rest_Cons [of line "s + length w" 32 xs]
    by (auto simp: gettoken_def token_at_def Let_def plain_def symbols_eq)
qed

lemma nows_append: "nows xs \<Longrightarrow> nows ys \<Longrightarrow> nows (xs @ ys)"
  by (cases xs) (auto simp: nows_def)

lemma nows_follow: "follow S xs \<Longrightarrow> list_all (\<lambda>c. is_sym (ch c)) S \<Longrightarrow> nows xs"
  by (auto simp: follow_def nows_def chars_def list_all_iff sym_eq ws_eq)

text \<open>Redirections, in the order in which they are written.\<close>

type_synonym redir = "uchar list \<times> int \<times> int"

definition wrap :: "redir list \<Rightarrow> uchar list cmd \<Rightarrow> uchar list cmd" where
  "wrap rs c = foldl (\<lambda>c (f, mode, fd). REDIR c f mode fd) c rs"

definition redirs_text :: "redir list \<Rightarrow> uchar list" where
  "redirs_text rs = concat (map (\<lambda>(f, mode, fd). redir_text f mode fd) rs)"

definition redir_ok :: "redir \<Rightarrow> bool" where
  "redir_ok r \<longleftrightarrow> plain_word (fst r) \<and> snd r \<in> set redir_kinds"

lemma gettoken_redir:
  assumes "rest line s (redir_text f mode fd @ xs)" and "nows xs" and "redir_ok (f, mode, fd)"
  shows "\<exists>tok q e t q' e' u. gettoken line s = Ok (tok, q, e) t \<and> gettoken line t = Ok (ch CHR ''a'', q', e') u \<and> rest line u xs \<and>
    redirect tok c (q', e') = REDIR c (q', e') mode fd \<and> word_text line (q', e') = f"
proof -
  have f: "plain_word f" and k: "(mode, fd) \<in> set redir_kinds" using assms(3) by (auto simp: redir_ok_def)
  have n: "nows (f @ 32 # xs)" using f by (cases f) (auto simp: nows_def plain_word_def plain_def)
  have ne: "(O_WRONLY OR O_CREATE, 1 :: int) \<noteq> (O_WRONLY OR O_CREATE OR O_TRUNC, 1)" "(O_RDONLY, 0 :: int) \<noteq> (O_WRONLY OR O_CREATE, 1)"
    by (simp_all add: O_WRONLY_def O_CREATE_def O_TRUNC_def)
  consider "(mode, fd) = (O_RDONLY, 0)" | "(mode, fd) = (O_WRONLY OR O_CREATE OR O_TRUNC, 1)" | "(mode, fd) = (O_WRONLY OR O_CREATE, 1)"
    using k by (auto simp: redir_kinds_def)
  then show ?thesis
  proof cases
    case 1
    then have "rest line s (60 # 32 # f @ 32 # xs)" using assms(1) by (simp add: redir_text_def chars_def ch_def)
    from gettoken_symbol [OF this n] have g: "gettoken line s = Ok (60, s, Suc s) (Suc (Suc s))" "rest line (Suc (Suc s)) (f @ 32 # xs)" by (simp_all add: sym_eq)
    from gettoken_word [OF g(2) assms(2) f] g(1) 1 show ?thesis by (auto simp: redirect_def ch_def)
  next
    case 2
    then have "rest line s (62 # 32 # f @ 32 # xs)" using assms(1) by (auto simp: redir_text_def chars_def ch_def)
    from gettoken_symbol [OF this n] have g: "gettoken line s = Ok (62, s, Suc s) (Suc (Suc s))" "rest line (Suc (Suc s)) (f @ 32 # xs)" by (simp_all add: sym_eq)
    from gettoken_word [OF g(2) assms(2) f] g(1) 2 show ?thesis by (auto simp: redirect_def ch_def)
  next
    case 3
    then have "rest line s (chars ''>> '' @ f @ 32 # xs)" using assms(1) ne by (auto simp: redir_text_def chars_def ch_def)
    from gettoken_append [OF this n] have g: "gettoken line s = Ok (ch CHR ''+'', s, Suc (Suc s)) (Suc (Suc (Suc s)))"
      "rest line (Suc (Suc (Suc s))) (f @ 32 # xs)" by simp_all
    from gettoken_word [OF g(2) assms(2) f] g(1) 3 show ?thesis by (auto simp: redirect_def ch_def)
  qed
qed

lemma redirs_head:
  "\<exists>x xs. redirs_text (r # rs) = x # xs \<and> (x = 60 \<or> x = 62)"
proof -
  obtain f mode fd where r: "r = (f, mode, fd)" by (cases r)
  have "\<exists>x xs. redir_text f mode fd = x # xs \<and> (x = 60 \<or> x = 62)"
    unfolding redir_text_def by (auto simp: chars_def ch_def)
  then show ?thesis by (auto simp: r redirs_text_def)
qed

lemma length_redirs: "length rs \<le> length (redirs_text rs)"
proof (induction rs)
  case (Cons r rs)
  obtain f mode fd where r: "r = (f, mode, fd)" by (cases r)
  have "1 \<le> length (redir_text f mode fd)" by (simp add: redir_text_def chars_def)
  moreover have "redirs_text (r # rs) = redir_text f mode fd @ redirs_text rs" by (simp add: r redirs_text_def)
  ultimately show ?case using Cons by simp
qed (simp add: redirs_text_def)

lemma nows_redirs: "nows (redirs_text rs)"
proof (cases rs)
  case (Cons r rs')
  with redirs_head [of r rs'] show ?thesis by (auto simp: nows_def ws_eq)
qed (simp add: redirs_text_def nows_def)

lemma parseredirs_text:
  assumes "rest line s (redirs_text rs @ post)" and "nows post" and "post = [] \<or> hd post \<notin> {60, 62}" and "list_all redir_ok rs" and "length rs < k"
  shows "\<exists>c' t. parseredirs k line c s = Ok c' t \<and> rest line t post \<and> map_cmd (word_text line) c' = wrap rs (map_cmd (word_text line) c)"
  using assms
proof (induction rs arbitrary: s c k)
  case Nil
  then obtain k' where k: "k = Suc k'" by (cases k) auto
  from peek_rest [of line s post] Nil show ?case unfolding k
    by (auto simp: redirs_text_def wrap_def chars_def ch_def split: list.splits)
next
  case (Cons r rs)
  obtain f mode fd where r: "r = (f, mode, fd)" by (cases r)
  obtain k' where k: "k = Suc k'" using Cons.prems by (cases k) auto
  have rs: "rest line s (redir_text f mode fd @ redirs_text rs @ post)" using Cons.prems(1) by (simp add: r redirs_text_def)
  obtain x xs where x: "redirs_text (r # rs) @ post = x # xs" "x = 60 \<or> x = 62" using redirs_head [of r rs] by auto
  have "peek line (chars ''<>'') s = Ok True s"
    using peek_rest [OF Cons.prems(1) nows_append [OF nows_redirs Cons.prems(2)]] x by (auto simp: chars_def ch_def)
  moreover from gettoken_redir [OF rs nows_append [OF nows_redirs Cons.prems(2)], of c] obtain tok q e t q' e' u where
    g: "gettoken line s = Ok (tok, q, e) t" "gettoken line t = Ok (ch CHR ''a'', q', e') u" "rest line u (redirs_text rs @ post)"
      "redirect tok c (q', e') = REDIR c (q', e') mode fd" "word_text line (q', e') = f" using Cons.prems(4) r by auto
  moreover from Cons.IH [OF g(3), of k' "REDIR c (q', e') mode fd"] Cons.prems k obtain c' v where
    "parseredirs k' line (REDIR c (q', e') mode fd) u = Ok c' v" "rest line v post"
      "map_cmd (word_text line) c' = wrap rs (map_cmd (word_text line) (REDIR c (q', e') mode fd))" by auto
  ultimately show ?case by (auto simp: k r wrap_def)
qed

lemma map_add_arg: "map_cmd f (add_arg w c) = add_arg (f w) (map_cmd f c)"
  by (induction c) auto

lemma nows_words: "list_all plain_word ws \<Longrightarrow> nows (words_text ws)"
  by (cases ws; cases "hd ws") (auto simp: words_text_def nows_def plain_word_def plain_def)

lemma words_text_Nil [simp]: "words_text [] = []"
  by (simp add: words_text_def)

lemma words_text_Cons: "words_text (w # ws) = w @ 32 # words_text ws"
  by (simp add: words_text_def chars_def ch_def)

lemma length_words_text: "length ws \<le> length (words_text ws)"
  by (induction ws) (auto simp: words_text_Cons)

lemma plain_head: "plain_word w \<Longrightarrow> \<exists>x xs. w = x # xs \<and> plain x"
  by (cases w) (auto simp: plain_word_def)

lemma follow_exec: "follow ''|)&;'' post \<Longrightarrow> post = [] \<or> (\<exists>x xs. post = x # xs \<and> x \<in> {124, 41, 38, 59})"
  by (cases post) (auto simp: follow_def chars_def ch_def)

text \<open>The arguments, then the redirections behind the last one.\<close>

lemma parseargs_text:
  assumes "rest line s (words_text ws @ (if ws = [] then post else redirs_text rs @ post))" and "follow ''|)&;'' post"
    and "list_all plain_word ws" and "list_all redir_ok rs" and "argc + length ws < MAXARGS" and "length ws < k"
  shows "\<exists>c' t. parseargs k line argc c s = Ok c' t \<and> rest line t post \<and>
    map_cmd (word_text line) c' = (if ws = [] then id else wrap rs) (foldl (\<lambda>c w. add_arg w c) (map_cmd (word_text line) c) ws)"
  using assms
proof (induction ws arbitrary: s c k argc)
  case Nil
  then obtain k' where k: "k = Suc k'" by (cases k) auto
  have n: "nows post" using Nil.prems(2) by (rule nows_follow) (simp add: sym_eq ch_def)
  have r: "rest line s post" using Nil.prems(1) by (simp add: words_text_def)
  show ?case
  proof (cases post)
    case Nil
    have "gettoken line s = Ok (0, s, s) s" using r n skip_ws_nows [OF r n] Nil
      by (simp add: gettoken_def token_at_def rest_char Let_def)
    with peek_rest [OF r n] r Nil Nil.prems(5) show ?thesis unfolding k by simp
  next
    case (Cons x xs)
    with follow_exec [OF Nil.prems(2)] peek_rest [OF r n] r Nil.prems(5) show ?thesis unfolding k by (auto simp: chars_def ch_def)
  qed
next
  case (Cons w ws)
  obtain k' where k: "k = Suc k'" using Cons.prems by (cases k) auto
  let ?p = "if ws = [] then redirs_text rs @ post else words_text ws @ redirs_text rs @ post"
  have r: "rest line s (w @ 32 # ?p)" using Cons.prems(1) by (auto simp: words_text_Cons)
  have np: "nows post" using Cons.prems(2) by (rule nows_follow) (simp add: sym_eq ch_def)
  have n: "nows ?p" using Cons.prems(3) by (auto intro!: nows_append nows_redirs nows_words np)
  obtain x xs where x: "w @ 32 # ?p = x # xs" "plain x" using plain_head [of w] Cons.prems(3) by auto
  have "x \<notin> {124, 41, 38, 59}" "nows (x # xs)" using x(2) by (auto simp: plain_def sym_eq nows_def)
  then have pk: "peek line (chars ''|)&;'') s = Ok False s" using peek_rest [OF r] x(1) by (auto simp: chars_def ch_def)
  obtain q e t where g: "gettoken line s = Ok (ch CHR ''a'', q, e) t" "rest line t ?p" "word_text line (q, e) = w"
    using gettoken_word [OF r n] Cons.prems(3) by auto
  let ?rs = "if ws = [] then rs else []" and ?q = "if ws = [] then post else words_text ws @ redirs_text rs @ post"
  have a3: "?q = [] \<or> hd ?q \<notin> {60, 62}"
  proof (cases ws)
    case Nil
    then show ?thesis using follow_exec [OF Cons.prems(2)] by auto
  next
    case (Cons w' ws')
    with plain_head [of w'] Cons.prems(3) show ?thesis by (auto simp: words_text_Cons plain_def sym_eq)
  qed
  have a2: "nows ?q" using Cons.prems(3) by (auto intro!: nows_append nows_redirs nows_words np)
  have a1: "rest line t (redirs_text ?rs @ ?q)" using g(2) by (auto simp: redirs_text_def)
  have a4: "list_all redir_ok ?rs" using Cons.prems(4) by simp
  have "length ?rs < loop_fuel line" using rest_length [OF g(2)] length_redirs [of rs] by (auto simp: loop_fuel_def)
  from parseredirs_text [OF a1 a2 a3 a4 this, of "add_arg (q, e) c"] obtain c1 u where
    1: "parseredirs (loop_fuel line) line (add_arg (q, e) c) t = Ok c1 u" "rest line u ?q"
      "map_cmd (word_text line) c1 = wrap ?rs (map_cmd (word_text line) (add_arg (q, e) c))" by blast
  have "rest line u (words_text ws @ (if ws = [] then post else redirs_text rs @ post))" using 1(2) by auto
  from Cons.IH [OF this Cons.prems(2), of "Suc argc" k' c1] Cons.prems k obtain c' v where
    2: "parseargs k' line (Suc argc) c1 u = Ok c' v" "rest line v post"
      "map_cmd (word_text line) c' = (if ws = [] then id else wrap rs) (foldl (\<lambda>c w. add_arg w c) (map_cmd (word_text line) c1) ws)" by auto
  have "parseargs k line argc c s = Ok c' v" unfolding k using pk g(1) 1(1) 2(1) Cons.prems(5) by (simp add: ch_def)
  moreover have "map_cmd (word_text line) c' = wrap rs (foldl (\<lambda>c w. add_arg w c) (map_cmd (word_text line) c) (w # ws))"
    using 2(3) 1(3) g(3) by (auto simp: map_add_arg wrap_def)
  ultimately show ?case using 2(2) by auto
qed

definition parses :: "(nat \<Rightarrow> uchar list \<Rightarrow> (nat, pcmd) km) \<Rightarrow> nat \<Rightarrow> nat \<Rightarrow> string \<Rightarrow> uchar list cmd \<Rightarrow> bool" where
  "parses m n level S c \<longleftrightarrow> (\<forall>k line s post. rest line s (show_cmd c level @ post) \<longrightarrow> follow S post \<longrightarrow> 4 * (length line - s) + n \<le> k \<longrightarrow>
     (\<exists>c' t. m k line s = Ok c' t \<and> rest line t post \<and> map_cmd (word_text line) c' = c))"

lemma parsesI:
  assumes "\<And>k line s post. rest line s (show_cmd c level @ post) \<Longrightarrow> follow S post \<Longrightarrow> 4 * (length line - s) + n \<le> Suc k \<Longrightarrow>
    \<exists>c' t. m (Suc k) line s = Ok c' t \<and> rest line t post \<and> map_cmd (word_text line) c' = c" and "0 < n"
  shows "parses m n level S c"
  unfolding parses_def
proof (intro allI impI)
  fix k line s post
  assume a: "rest line s (show_cmd c level @ post)" "follow S post" "4 * (length line - s) + n \<le> k"
  then obtain k' where "k = Suc k'" using assms(2) by (cases k) auto
  with assms(1) a show "\<exists>c' t. m k line s = Ok c' t \<and> rest line t post \<and> map_cmd (word_text line) c' = c" by blast
qed

lemma parses_run:
  assumes "parses m n level S c" and "rest line s (show_cmd c level @ post)" and "follow S post" and "4 * (length line - s) + n \<le> k"
  shows "\<exists>c' t. m k line s = Ok c' t \<and> rest line t post \<and> map_cmd (word_text line) c' = c \<and> s \<le> t"
proof -
  from assms obtain c' t where "m k line s = Ok c' t" "rest line t post" "map_cmd (word_text line) c' = c" unfolding parses_def by blast
  moreover have "s \<le> t" using rest_length [OF assms(2)] rest_length [OF calculation(2)] by simp
  ultimately show ?thesis by blast
qed

lemma show_wrap: "show_cmd (wrap rs c) 3 = show_cmd c 3 @ redirs_text rs"
proof (induction rs rule: rev_induct)
  case (snoc r rs)
  then show ?case by (cases r) (simp add: wrap_def redirs_text_def)
qed (simp add: wrap_def redirs_text_def)

lemma foldl_add_arg: "foldl (\<lambda>c w. add_arg w c) (EXEC us) ws = EXEC (us @ ws)"
  by (induction ws arbitrary: us) auto

lemma parses_exec:
  assumes "list_all plain_word ws" and "length ws < MAXARGS" and "list_all redir_ok rs"
  shows "parses parseexec 2 3 ''|)&;'' (wrap rs (EXEC ws))"
proof (rule parsesI)
  fix k line s post
  assume a: "rest line s (show_cmd (wrap rs (EXEC ws)) 3 @ post)" "follow ''|)&;'' post" "4 * (length line - s) + 2 \<le> Suc k"
  have np: "nows post" using a(2) by (rule nows_follow) (simp add: sym_eq ch_def)
  have r: "rest line s (words_text ws @ redirs_text rs @ post)" using a(1) by (simp add: show_wrap)
  have n: "nows (words_text ws @ redirs_text rs @ post)" by (intro nows_append nows_redirs nows_words np assms)
  have len: "length ws < loop_fuel line" "length rs < loop_fuel line"
    using rest_length [OF r] length_words_text [of ws] length_redirs [of rs] by (auto simp: loop_fuel_def)
  have "words_text ws @ redirs_text rs @ post = [] \<or> hd (words_text ws @ redirs_text rs @ post) \<noteq> 40"
  proof (cases ws)
    case Nil
    show ?thesis
    proof (cases rs)
      case Nil
      then show ?thesis using \<open>ws = []\<close> follow_exec [OF a(2)] by (auto simp: redirs_text_def)
    next
      case (Cons r rs')
      with \<open>ws = []\<close> redirs_head [of r rs'] show ?thesis by auto
    qed
  next
    case (Cons w ws')
    with plain_head [of w] assms(1) show ?thesis by (auto simp: words_text_Cons plain_def sym_eq)
  qed
  then have pk: "peek line (chars ''('') s = Ok False s" using peek_rest [OF r n] by (auto simp: chars_def ch_def split: list.splits)
  let ?rs = "if ws = [] then rs else []" and ?q = "words_text ws @ (if ws = [] then post else redirs_text rs @ post)"
  have a3: "?q = [] \<or> hd ?q \<notin> {60, 62}"
  proof (cases ws)
    case Nil
    then show ?thesis using follow_exec [OF a(2)] by auto
  next
    case (Cons w ws')
    with plain_head [of w] assms(1) show ?thesis by (auto simp: words_text_Cons plain_def sym_eq)
  qed
  have a2: "nows ?q" by (auto intro!: nows_append nows_redirs nows_words np assms)
  have a1: "rest line s (redirs_text ?rs @ ?q)" using r by (auto simp: redirs_text_def)
  have a4: "list_all redir_ok ?rs" "length ?rs < loop_fuel line" using assms(3) len by simp_all
  from parseredirs_text [OF a1 a2 a3 a4, of "EXEC []"] obtain c1 u where
    1: "parseredirs (loop_fuel line) line (EXEC []) s = Ok c1 u" "rest line u ?q" "map_cmd (word_text line) c1 = wrap ?rs (EXEC [])" by auto
  from parseargs_text [OF 1(2) a(2) assms(1,3), of 0 "loop_fuel line" c1] assms(2) len obtain c' t where
    2: "parseargs (loop_fuel line) line 0 c1 u = Ok c' t" "rest line t post"
      "map_cmd (word_text line) c' = (if ws = [] then id else wrap rs) (foldl (\<lambda>c w. add_arg w c) (map_cmd (word_text line) c1) ws)" by auto
  have "map_cmd (word_text line) c' = wrap rs (EXEC ws)" using 2(3) 1(3) by (auto simp: foldl_add_arg wrap_def)
  with pk 1(1) 2 show "\<exists>c' t. parseexec (Suc k) line s = Ok c' t \<and> rest line t post \<and> map_cmd (word_text line) c' = wrap rs (EXEC ws)" by auto
qed simp

lemma nows_show: "cmd_ok plain_word c \<Longrightarrow> nows (show_cmd c n)"
proof (induction c arbitrary: n)
  case (REDIR c f mode fd)
  have "nows (redir_text f mode fd)" using nows_redirs [of "[(f, mode, fd)]"] by (simp add: redirs_text_def)
  with REDIR show ?case by (simp add: nows_append)
next
  case (EXEC ws)
  then show ?case by (simp add: nows_words)
qed (auto simp: paren_def nows_def ws_eq chars_def ch_def hd_append)

lemma chars_tokens:
  "chars ''( '' = [40, 32]" "chars '') '' = [41, 32]" "chars ''| '' = [124, 32]" "chars ''; '' = [59, 32]" "chars ''& '' = [38, 32]"
  "chars ''('' = [40]" "chars '')'' = [41]" "chars ''|'' = [124]" "chars '';'' = [59]" "chars ''&'' = [38]"
  by (simp_all add: chars_def ch_def)

lemma parses_block:
  assumes "parses parseline 4 0 '')'' c" and "cmd_ok plain_word c" and "show_cmd c 3 = paren True (show_cmd c 0)" and "list_all redir_ok rs"
  shows "parses parseexec 2 3 ''|)&;'' (wrap rs c)"
proof (rule parsesI)
  fix k line s post
  assume a: "rest line s (show_cmd (wrap rs c) 3 @ post)" "follow ''|)&;'' post" "4 * (length line - s) + 2 \<le> Suc k"
  let ?r = "redirs_text rs @ post" and ?t = "Suc (Suc s)"
  have np: "nows post" using a(2) by (rule nows_follow) (simp add: sym_eq ch_def)
  have n: "nows ?r" "nows (41 # 32 # ?r)" by (auto intro: nows_append nows_redirs np) (simp add: nows_def ws_eq)
  have r: "rest line s (40 # 32 # show_cmd c 0 @ 41 # 32 # ?r)"
    using a(1) by (simp add: show_wrap assms(3) paren_def chars_tokens)
  have pk: "peek line (chars ''('') s = Ok True s" using peek_rest [OF r] by (simp add: nows_def ws_eq chars_tokens)
  from gettoken_symbol [OF r nows_append [OF nows_show [OF assms(2)] n(2)]]
  have g: "gettoken line s = Ok (40, s, Suc s) ?t" "rest line ?t (show_cmd c 0 @ 41 # 32 # ?r)" by (simp_all add: sym_eq)
  obtain k' where k: "k = Suc k'" "4 * (length line - ?t) + 4 \<le> k'" using a(3) rest_length [OF r] by (cases k) auto
  from parses_run [OF assms(1) g(2) _ k(2)] obtain c' u where
    c: "parseline k' line ?t = Ok c' u" "rest line u (41 # 32 # ?r)" "map_cmd (word_text line) c' = c" by (auto simp: follow_def chars_tokens)
  have pk2: "peek line (chars '')'') u = Ok True u" using peek_rest [OF c(2) n(2)] by (simp add: chars_tokens)
  from gettoken_symbol [OF c(2) n(1)] have g2: "gettoken line u = Ok (41, u, Suc u) (Suc (Suc u))" "rest line (Suc (Suc u)) ?r" by (simp_all add: sym_eq)
  have "post = [] \<or> hd post \<notin> {60, 62}" using follow_exec [OF a(2)] by auto
  moreover have "length rs < loop_fuel line" using rest_length [OF r] length_redirs [of rs] by (simp add: loop_fuel_def)
  ultimately obtain c'' t where "parseredirs (loop_fuel line) line c' (Suc (Suc u)) = Ok c'' t" "rest line t post"
    "map_cmd (word_text line) c'' = wrap rs (map_cmd (word_text line) c')" using parseredirs_text [OF g2(2) np _ assms(4)] by blast
  with pk g(1) c pk2 g2(1) k(1)
  show "\<exists>c' t. parseexec (Suc k) line s = Ok c' t \<and> rest line t post \<and> map_cmd (word_text line) c' = wrap rs c" by simp
qed simp

lemma follow_pipe: "follow '')&;'' post \<Longrightarrow> post = [] \<or> (\<exists>x xs. post = x # xs \<and> x \<in> {41, 38, 59})"
  by (cases post) (auto simp: follow_def chars_def ch_def)

lemma follow_mono: "follow S post \<Longrightarrow> set S \<subseteq> set S' \<Longrightarrow> follow S' post"
  by (auto simp: follow_def chars_def)

lemma parses_pipe_exec:
  assumes "parses parseexec 2 3 ''|)&;'' c" and "show_cmd c 2 = show_cmd c 3"
  shows "parses parsepipe 3 2 '')&;'' c"
proof (rule parsesI)
  fix k line s post
  assume a: "rest line s (show_cmd c 2 @ post)" "follow '')&;'' post" "4 * (length line - s) + 3 \<le> Suc k"
  have "nows post" using a(2) by (rule nows_follow) (simp add: sym_eq ch_def)
  moreover have "rest line s (show_cmd c 3 @ post)" "4 * (length line - s) + 2 \<le> k" using a assms(2) by simp_all
  from parses_run [OF assms(1) this(1) follow_mono [OF a(2), of "''|)&;''"] this(2)] obtain c' t where
    "parseexec k line s = Ok c' t" "rest line t post" "map_cmd (word_text line) c' = c" by auto
  ultimately show "\<exists>c' t. parsepipe (Suc k) line s = Ok c' t \<and> rest line t post \<and> map_cmd (word_text line) c' = c"
    using peek_rest [of line t post] follow_pipe [OF a(2)] by (auto simp: chars_tokens)
qed simp

lemma parses_pipe:
  assumes "parses parseexec 2 3 ''|)&;'' l" and "parses parsepipe 3 2 '')&;'' r" and "cmd_ok plain_word r"
  shows "parses parsepipe 3 2 '')&;'' (PIPE l r)"
proof (rule parsesI)
  fix k line s post
  assume a: "rest line s (show_cmd (PIPE l r) 2 @ post)" "follow '')&;'' post" "4 * (length line - s) + 3 \<le> Suc k"
  have np: "nows post" using a(2) by (rule nows_follow) (simp add: sym_eq ch_def)
  have 1: "rest line s (show_cmd l 3 @ 124 # 32 # show_cmd r 2 @ post)" "4 * (length line - s) + 2 \<le> k"
    using a by (simp_all add: paren_def chars_tokens)
  from parses_run [OF assms(1) 1(1) _ 1(2)] obtain c' t where
    c: "parseexec k line s = Ok c' t" "rest line t (124 # 32 # show_cmd r 2 @ post)" "map_cmd (word_text line) c' = l" "s \<le> t"
    by (auto simp: follow_def chars_def ch_def)
  have "peek line (chars ''|'') t = Ok True t" using peek_rest [OF c(2)] by (simp add: nows_def ws_eq chars_tokens)
  moreover from gettoken_symbol [OF c(2) nows_append [OF nows_show [OF assms(3)] np]]
  have g: "gettoken line t = Ok (124, t, Suc t) (Suc (Suc t))" "rest line (Suc (Suc t)) (show_cmd r 2 @ post)" by (simp_all add: sym_eq)
  moreover have "4 * (length line - Suc (Suc t)) + 3 \<le> k" using a(3) c(4) rest_length [OF c(2)] by simp
  from parses_run [OF assms(2) g(2) a(2) this] obtain d u where
    "parsepipe k line (Suc (Suc t)) = Ok d u" "rest line u post" "map_cmd (word_text line) d = r" by auto
  ultimately show "\<exists>c' t. parsepipe (Suc k) line s = Ok c' t \<and> rest line t post \<and> map_cmd (word_text line) c' = PIPE l r"
    using c by simp
qed simp

lemma parsebacks_text:
  assumes "rest line s (concat (replicate n [38, 32]) @ post)" and "nows post" and "post = [] \<or> hd post \<noteq> 38" and "n < k"
  shows "\<exists>c' t. parsebacks k line c s = Ok c' t \<and> rest line t post \<and> map_cmd (word_text line) c' = (BACK ^^ n) (map_cmd (word_text line) c)"
  using assms
proof (induction n arbitrary: s c k)
  case 0
  then obtain k' where k: "k = Suc k'" by (cases k) auto
  from peek_rest [of line s post] 0 show ?case unfolding k by (auto simp: chars_tokens split: list.splits)
next
  case (Suc n)
  obtain k' where k: "k = Suc k'" using Suc.prems by (cases k) auto
  have r: "rest line s (38 # 32 # concat (replicate n [38, 32]) @ post)" using Suc.prems(1) by simp
  have n: "nows (concat (replicate n [38, 32]) @ post)" using Suc.prems(2) by (cases n) (auto simp: nows_def ws_eq)
  have "peek line (chars ''&'') s = Ok True s" using peek_rest [OF r] by (simp add: nows_def ws_eq chars_tokens)
  moreover from gettoken_symbol [OF r n]
  have g: "gettoken line s = Ok (38, s, Suc s) (Suc (Suc s))" "rest line (Suc (Suc s)) (concat (replicate n [38, 32]) @ post)" by (simp_all add: sym_eq)
  moreover from Suc.IH [OF g(2) Suc.prems(2,3), of k' "BACK c"] Suc.prems(4) k obtain c' t where
    "parsebacks k' line (BACK c) (Suc (Suc s)) = Ok c' t" "rest line t post"
    "map_cmd (word_text line) c' = (BACK ^^ n) (map_cmd (word_text line) (BACK c))" by auto
  ultimately show ?case by (auto simp: k funpow_swap1)
qed

lemma show_backs:
  assumes "\<And>d. p \<noteq> BACK d"
  shows "show_cmd ((BACK ^^ n) p) 1 = show_cmd p 2 @ concat (replicate n [38, 32])"
proof (induction n)
  case 0
  show ?case using assms by (cases p) (auto simp: paren_def)
next
  case (Suc n)
  have "concat (replicate n [38, 32]) @ [38, 32 :: uchar] = 38 # 32 # concat (replicate n [38, 32])"
    by (induction n) auto
  with Suc show ?case by (simp add: paren_def chars_tokens)
qed

lemma parse_back_text:
  assumes "parses parsepipe 3 2 '')&;'' p" and "\<And>d. p \<noteq> BACK d" and "rest line s (show_cmd ((BACK ^^ n) p) 1 @ q)" and "follow '');'' q"
    and "4 * (length line - s) + 3 \<le> k"
  shows "\<exists>c t c' u. parsepipe k line s = Ok c t \<and> parsebacks (loop_fuel line) line c t = Ok c' u \<and> rest line u q \<and>
    map_cmd (word_text line) c' = (BACK ^^ n) p \<and> s \<le> u"
proof -
  let ?b = "concat (replicate n [38, 32 :: uchar])"
  have r: "rest line s (show_cmd p 2 @ ?b @ q)" using assms(3) unfolding show_backs [OF assms(2)] by simp
  have q: "nows q" using assms(4) by (rule nows_follow) (simp add: sym_eq ch_def)
  have q2: "q = [] \<or> hd q \<noteq> 38" using assms(4) by (auto simp: follow_def chars_def ch_def)
  have "follow '')&;'' (?b @ q)"
    using follow_mono [OF assms(4), of "'')&;''"] by (cases n) (auto simp: follow_def chars_def ch_def)
  from parses_run [OF assms(1) r this assms(5)] obtain c t where
    c: "parsepipe k line s = Ok c t" "rest line t (?b @ q)" "map_cmd (word_text line) c = p" by blast
  have "n \<le> length ?b" by (induction n) auto
  then have "n < loop_fuel line" using rest_length [OF r] by (simp add: loop_fuel_def)
  from parsebacks_text [OF c(2) q q2 this, of c] obtain c' u where
    d: "parsebacks (loop_fuel line) line c t = Ok c' u" "rest line u q" "map_cmd (word_text line) c' = (BACK ^^ n) p" using c(3) by blast
  have "s \<le> u" using rest_length [OF r] rest_length [OF d(2)] by simp
  with c(1) d show ?thesis by blast
qed

lemma parses_line:
  assumes "parses parsepipe 3 2 '')&;'' p" and "\<And>d. p \<noteq> BACK d" and "show_cmd ((BACK ^^ n) p) 0 = show_cmd ((BACK ^^ n) p) 1"
  shows "parses parseline 4 0 '')'' ((BACK ^^ n) p)"
proof (rule parsesI)
  fix k line s post
  assume a: "rest line s (show_cmd ((BACK ^^ n) p) 0 @ post)" "follow '')'' post" "4 * (length line - s) + 4 \<le> Suc k"
  have np: "nows post" using a(2) by (rule nows_follow) (simp add: sym_eq ch_def)
  have 1: "rest line s (show_cmd ((BACK ^^ n) p) 1 @ post)" "4 * (length line - s) + 3 \<le> k" using a assms(3) by simp_all
  from parse_back_text [OF assms(1,2) 1(1) follow_mono [OF a(2)] 1(2)] obtain c t c' u where
    "parsepipe k line s = Ok c t" "parsebacks (loop_fuel line) line c t = Ok c' u" "rest line u post" "map_cmd (word_text line) c' = (BACK ^^ n) p"
    by auto
  then show "\<exists>c' t. parseline (Suc k) line s = Ok c' t \<and> rest line t post \<and> map_cmd (word_text line) c' = (BACK ^^ n) p"
    using peek_rest [of line u post "chars '';''"] np a(2) by (auto simp: chars_tokens follow_def split: list.splits)
qed simp

lemma parses_list:
  assumes "parses parsepipe 3 2 '')&;'' p" and "\<And>d. p \<noteq> BACK d" and "parses parseline 4 0 '')'' r" and "cmd_ok plain_word r"
  shows "parses parseline 4 0 '')'' (LIST ((BACK ^^ n) p) r)"
proof (rule parsesI)
  fix k line s post
  let ?l = "(BACK ^^ n) p"
  assume a: "rest line s (show_cmd (LIST ?l r) 0 @ post)" "follow '')'' post" "4 * (length line - s) + 4 \<le> Suc k"
  have np: "nows post" using a(2) by (rule nows_follow) (simp add: sym_eq ch_def)
  have 1: "rest line s (show_cmd ?l 1 @ 59 # 32 # show_cmd r 0 @ post)" "4 * (length line - s) + 3 \<le> k"
    using a by (simp_all add: paren_def chars_tokens)
  from parse_back_text [OF assms(1,2) 1(1) _ 1(2)] obtain c t c' u where
    c: "parsepipe k line s = Ok c t" "parsebacks (loop_fuel line) line c t = Ok c' u" "rest line u (59 # 32 # show_cmd r 0 @ post)"
      "map_cmd (word_text line) c' = ?l" "s \<le> u" by (auto simp: follow_def chars_def ch_def)
  have "peek line (chars '';'') u = Ok True u" using peek_rest [OF c(3)] by (simp add: nows_def ws_eq chars_tokens)
  moreover from gettoken_symbol [OF c(3) nows_append [OF nows_show [OF assms(4)] np]]
  have g: "gettoken line u = Ok (59, u, Suc u) (Suc (Suc u))" "rest line (Suc (Suc u)) (show_cmd r 0 @ post)" by (simp_all add: sym_eq)
  moreover have "4 * (length line - Suc (Suc u)) + 4 \<le> k" using a(3) c(5) rest_length [OF c(3)] by simp
  from parses_run [OF assms(3) g(2) a(2) this] obtain d v where
    "parseline k line (Suc (Suc u)) = Ok d v" "rest line v post" "map_cmd (word_text line) d = r" by blast
  ultimately show "\<exists>c' t. parseline (Suc k) line s = Ok c' t \<and> rest line t post \<and> map_cmd (word_text line) c' = LIST ?l r"
    using c by simp
qed simp

lemma split_backs: "\<exists>n p. c = (BACK ^^ n) p \<and> (\<forall>d. p \<noteq> BACK d) \<and> size p \<le> size c \<and> (cmd_ok P c \<longrightarrow> cmd_ok P p)"
proof (induction c)
  case (BACK c)
  then obtain n p where "c = (BACK ^^ n) p" "\<forall>d. p \<noteq> BACK d" "size p \<le> size c" "cmd_ok P c \<longrightarrow> cmd_ok P p" by blast
  then show ?case by (intro exI [of _ "Suc n"] exI [of _ p]) auto
qed (rule exI [of _ 0], simp)+

lemma split_redirs: "cmd_ok plain_word c \<Longrightarrow>
  \<exists>rs b. c = wrap rs b \<and> (\<forall>d f m i. b \<noteq> REDIR d f m i) \<and> (b = c \<or> size b < size c) \<and> cmd_ok plain_word b \<and> list_all redir_ok rs"
proof (induction c)
  case (REDIR c f mode fd)
  then obtain rs b where "c = wrap rs b" "\<forall>d f m i. b \<noteq> REDIR d f m i" "b = c \<or> size b < size c" "cmd_ok plain_word b" "list_all redir_ok rs" by auto
  moreover have "redir_ok (f, mode, fd)" using REDIR.prems by (simp add: redir_ok_def)
  ultimately show ?case by (intro exI [of _ "rs @ [(f, mode, fd)]"] exI [of _ b]) (auto simp: wrap_def)
qed (rule exI [of _ "[]"], simp add: wrap_def)+

lemma parses_all:
  "cmd_ok plain_word c \<Longrightarrow> parses parseline 4 0 '')'' c \<and> parses parsepipe 3 2 '')&;'' c \<and> parses parseexec 2 3 ''|)&;'' c"
proof (induction c rule: measure_induct_rule [of size])
  case (less c)
  have exec: "parses parseexec 2 3 ''|)&;'' c" if "parses parseline 4 0 '')'' c" "show_cmd c 3 = paren True (show_cmd c 0)"
    using parses_block [OF that(1) less.prems that(2), of "[]"] by (simp add: wrap_def)
  have line: "parses parseline 4 0 '')'' c" if "parses parsepipe 3 2 '')&;'' c" "\<And>d. c \<noteq> BACK d" "show_cmd c 0 = show_cmd c 1"
    using parses_line [of c 0] that by simp
  show ?case
  proof (cases c)
    case (EXEC ws)
    with less.prems parses_exec [of ws "[]"] have "parses parseexec 2 3 ''|)&;'' c" by (simp add: wrap_def)
    with parses_pipe_exec [OF this] line EXEC show ?thesis by simp
  next
    case (REDIR d f mode fd)
    obtain rs b where b: "c = wrap rs b" "\<forall>d f m i. b \<noteq> REDIR d f m i" "b = c \<or> size b < size c" "cmd_ok plain_word b" "list_all redir_ok rs"
      using split_redirs [OF less.prems] by blast
    have "size b < size c" using b(2,3) REDIR by auto
    from less.IH [OF this b(4)] have "parses parseline 4 0 '')'' b" by simp
    then have "parses parseexec 2 3 ''|)&;'' c"
      using parses_exec [of _ rs] parses_block [of b rs] b by (cases b) (auto simp: paren_def)
    with parses_pipe_exec [OF this] line REDIR show ?thesis by simp
  next
    case (PIPE l r)
    with less.IH [of l] less.IH [of r] less.prems parses_pipe [of l r] have "parses parsepipe 3 2 '')&;'' c" by simp
    with line PIPE exec show ?thesis by (simp add: paren_def)
  next
    case (LIST l r)
    obtain n p where p: "l = (BACK ^^ n) p" "\<forall>d. p \<noteq> BACK d" "size p \<le> size l" "cmd_ok plain_word p"
      using split_backs [of l plain_word] less.prems LIST by auto
    with less.IH [of p] less.IH [of r] less.prems parses_list [of p r n] LIST have "parses parseline 4 0 '')'' c" by simp
    with exec LIST parses_pipe_exec [of c] show ?thesis by (simp add: paren_def)
  next
    case (BACK d)
    obtain n p where p: "d = (BACK ^^ n) p" "\<forall>d. p \<noteq> BACK d" "size p \<le> size d" "cmd_ok plain_word p"
      using split_backs [of d plain_word] less.prems BACK by auto
    with less.IH [of p] parses_line [of p "Suc n"] BACK have "parses parseline 4 0 '')'' c" by (simp add: paren_def)
    with exec BACK parses_pipe_exec [of c] show ?thesis by (simp add: paren_def)
  qed
qed

lemma parseline_show:
  assumes "cmd_ok plain_word c"
  shows "\<exists>c'. parseline (parse_fuel (show_cmd c 0)) (show_cmd c 0) 0 = Ok c' (length (show_cmd c 0)) \<and> map_cmd (word_text (show_cmd c 0)) c' = c"
proof -
  let ?l = "show_cmd c 0"
  have "rest ?l 0 (?l @ [])" "follow '')'' []" by (simp_all add: rest_def follow_def)
  with parses_all [OF assms] parses_run [of parseline 4 0 "'')''" c ?l 0 "[]" "parse_fuel ?l"] obtain c' t where
    c: "parseline (parse_fuel ?l) ?l 0 = Ok c' t" "rest ?l t []" "map_cmd (word_text ?l) c' = c" by (auto simp: parse_fuel_def)
  moreover have "t = length ?l" using rest_length [OF c(2)] by simp
  ultimately show ?thesis by blast
qed

text \<open>
  C30. The shell parses every command that it can represent: a tree of lists, pipelines, background commands and redirections over
  plain words, with fewer than MAXARGS arguments to a command, printed with the parentheses that its shape needs, is
  parsed back as itself; \<^verbatim>\<open>parsecmd\<close> uses up the line and terminates the words in the buffer.
\<close>

theorem parsecmd_show:
  assumes "cmd_ok plain_word c"
  shows "\<exists>c'. parsecmd (show_cmd c 0) 0 = Ok (c', nulterminate c' (show_cmd c 0 @ [0])) (length (show_cmd c 0)) \<and>
    map_cmd (word_text (show_cmd c 0)) c' = c"
proof -
  let ?l = "show_cmd c 0"
  from parseline_show [OF assms] obtain c' where
    c: "parseline (parse_fuel ?l) ?l 0 = Ok c' (length ?l)" "map_cmd (word_text ?l) c' = c" by blast
  have "peek ?l [] (length ?l) = Ok False (length ?l)" using peek_rest [of ?l "length ?l" "[]" "[]"] by (simp add: rest_def nows_def)
  with c show ?thesis by (simp add: parsecmd_def)
qed

theorem parsecmd_show_witness:
  "\<exists>c'. parsecmd (chars ''( ls ; wc ) < f | rm & '') 0 =
      Ok (c', nulterminate c' (chars ''( ls ; wc ) < f | rm & '' @ [0])) (length (chars ''( ls ; wc ) < f | rm & '')) \<and>
    map_cmd (word_text (chars ''( ls ; wc ) < f | rm & '')) c' =
      BACK (PIPE (REDIR (LIST (EXEC [chars ''ls'']) (EXEC [chars ''wc''])) (chars ''f'') O_RDONLY 0) (EXEC [chars ''rm'']))"
proof -
  let ?c = "BACK (PIPE (REDIR (LIST (EXEC [chars ''ls'']) (EXEC [chars ''wc''])) (chars ''f'') O_RDONLY 0) (EXEC [chars ''rm'']))"
  have "cmd_ok plain_word ?c" by (auto simp: MAXARGS_def plain_word_def plain_def ws_eq sym_eq redir_kinds_def chars_def ch_def)
  moreover have "show_cmd ?c 0 = chars ''( ls ; wc ) < f | rm & ''"
    by (simp add: paren_def words_text_def redir_text_def chars_def)
  ultimately show ?thesis using parsecmd_show [of ?c] by simp
qed

text \<open>
  C31. Whatever the line, \<^verbatim>\<open>parsecmd\<close> ends: it stops with one of the four errors of syntax, or it returns a well-formed command.
  Then every command has fewer than MAXARGS arguments, every redirection is one of the three kinds, and every word is a
  non-empty run of plain characters of the line, whole up to the next blank or symbol. No array of arguments is overrun.
\<close>

theorem parsecmd_well_formed:
  assumes "0 \<notin> set line"
  shows "(\<exists>c buf t. parsecmd line 0 = Ok (c, buf) t \<and> cmd_ok (word_ok line) c) \<or> (\<exists>e. e \<in> set syntax_errors \<and> parsecmd line 0 = Panic e)"
  using parsecmd_ends [OF assms] by (auto simp: pend_def split: kres.splits)

theorem parsecmd_well_formed_witness:
  "(\<exists>c buf t. parsecmd (chars ''a b>c'') 0 = Ok (c, buf) t \<and> cmd_ok (word_ok (chars ''a b>c'')) c) \<or>
   (\<exists>e. e \<in> set syntax_errors \<and> parsecmd (chars ''a b>c'') 0 = Panic e)"
  by (rule parsecmd_well_formed) (simp add: chars_def ch_def)

text \<open>
  C32. When \<^verbatim>\<open>parsecmd\<close> returns, the strings that \<^verbatim>\<open>runcmd\<close> will read are the words of the line: read as a C string from its start,
  each argument and each file name in the terminated buffer is exactly its word, since the NUL behind one word never falls
  into another one.
\<close>

theorem parsecmd_strings:
  assumes "0 \<notin> set line" and "parsecmd line 0 = Ok (c, buf) t" and "w \<in> set_cmd c"
  shows "cstr (drop (fst w) buf) = word_text line w \<and> plain_word (word_text line w)"
proof -
  have c: "cmd_ok (word_ok line) c" "buf = nulterminate c (line @ [0])" using parsecmd_ends [OF assms(1)] assms(2) by (simp_all add: pend_def)
  have ok: "word_ok line v" if "v \<in> set_cmd c" for v using cmd_ok_words [OF c(1)] that by blast
  then show ?thesis using nulterminate_word [OF ok assms(3)] ok [OF assms(3)] c(2)
    by (auto simp: word_ok_def plain_word_def word_text_def)
qed

theorem parsecmd_strings_witness:
  "parsecmd [97, 32, 98, 62, 99] 0 = Ok (REDIR (EXEC [(0, 1), (2, 3)]) (4, 5) 0x601 1, [97, 0, 98, 0, 99, 0]) 5 \<and>
   cstr (drop 2 [97, 0, 98, 0, 99, 0]) = word_text [97, 32, 98, 62, 99] (2, 3)"
proof -
  have "parsecmd [97, 32, 98, 62, 99] 0 = Ok (REDIR (EXEC [(0, 1), (2, 3)]) (4, 5) 0x601 1, [97, 0, 98, 0, 99, 0]) 5" by code_simp
  with parsecmd_strings [OF _ this, of "(2, 3)"] show ?thesis by simp
qed

end
