(* ===== verification/Shell.thy ===== *)
theory Shell
  imports Sh
begin

text \<open>
  What the shell does with its input: \<^verbatim>\<open>runcmd\<close>, \<^verbatim>\<open>getcmd\<close> and \<^verbatim>\<open>main\<close> of \<^verbatim>\<open>user/sh.c\<close>. A process is the tree of its system calls, which
  branches over what a call returns; \<^verbatim>\<open>exec\<close> returns only when it failed. The calls are given a meaning over tables of file
  descriptors, where the kernel hands out the lowest free one, and the commands a meaning of their own: the programs they
  start, each with its arguments and its files. Shown here: \<^verbatim>\<open>runcmd\<close> starts the programs of the meaning of its command, and the
  shell as a whole those of the lines that it reads.
\<close>

section \<open>Processes\<close>

datatype ucall =
  UExec "uchar list" "uchar list list"
| UOpen "uchar list" int
| UClose int
| UDup int
| UPipe
| UFork
| UWait
| UWrite int "uchar list"
| UChdir "uchar list"

text \<open>A call returns a number and, for \<^verbatim>\<open>pipe\<close>, the two descriptors. \<open>Stuck\<close>: a loop has used up its turns.\<close>

datatype prog = Exit int | Call ucall "int \<times> int \<times> int \<Rightarrow> prog" | Stuck

abbreviation call :: "ucall \<Rightarrow> prog \<Rightarrow> prog" where
  "call u k \<equiv> Call u (\<lambda>_. k)"

text \<open>Formatted output is one \<^verbatim>\<open>write\<close> for each byte.\<close>

definition fprintf :: "int \<Rightarrow> string \<Rightarrow> parg list \<Rightarrow> prog \<Rightarrow> prog" where
  "fprintf fd fmt ap k = (case vprintf (chars fmt) ap of None \<Rightarrow> Stuck | Some bs \<Rightarrow> foldr (\<lambda>b. call (UWrite fd [b])) bs k)"

section \<open>Running a command\<close>

definition sh_panic :: "uchar list \<Rightarrow> prog" where
  "sh_panic s = fprintf 2 (''%s'' @ [CHR 0x0A]) [PStr s] (Exit 1)"

definition fork1 :: "(int \<Rightarrow> prog) \<Rightarrow> prog" where
  "fork1 k = Call UFork (\<lambda>(pid, _). if pid = -1 then sh_panic (chars ''fork'') else k pid)"

primrec runcmd :: "uchar list cmd \<Rightarrow> prog" where
  "runcmd (EXEC argv) = (case argv of
     [] \<Rightarrow> Exit 1
   | f # _ \<Rightarrow> call (UExec f argv) (fprintf 2 (''exec %s failed'' @ [CHR 0x0A]) [PStr f] (Exit 0)))"
| "runcmd (REDIR c f mode fd) =
     call (UClose fd) (Call (UOpen f mode) (\<lambda>(r, _).
       if r < 0 then fprintf 2 (''open %s failed'' @ [CHR 0x0A]) [PStr f] (Exit 1) else runcmd c))"
| "runcmd (LIST l r) = fork1 (\<lambda>pid. if pid = 0 then runcmd l else call UWait (runcmd r))"
| "runcmd (PIPE l r) = Call UPipe (\<lambda>(e, p0, p1).
     if e < 0 then sh_panic (chars ''pipe'')
     else fork1 (\<lambda>pid. if pid = 0
       then call (UClose 1) (call (UDup p1) (call (UClose p0) (call (UClose p1) (runcmd l))))
       else fork1 (\<lambda>pid. if pid = 0
         then call (UClose 0) (call (UDup p0) (call (UClose p0) (call (UClose p1) (runcmd r))))
         else call (UClose p0) (call (UClose p1) (call UWait (call UWait (Exit 0)))))))"
| "runcmd (BACK c) = fork1 (\<lambda>pid. if pid = 0 then runcmd c else Exit 0)"

text \<open>The strings behind the pointers of a parsed command; the child parses its line and runs it.\<close>

definition cmd_strings :: "uchar list \<Rightarrow> pcmd \<Rightarrow> uchar list cmd" where
  "cmd_strings buf c = map_cmd (\<lambda>w. cstr (drop (fst w) buf)) c"

definition parse_and_run :: "uchar list \<Rightarrow> prog" where
  "parse_and_run line = (case parsecmd line 0 of
     Ok (c, buf) _ \<Rightarrow> runcmd (cmd_strings buf c) | Panic e \<Rightarrow> sh_panic (chars e) | _ \<Rightarrow> Stuck)"

section \<open>The loop over the input\<close>

text \<open>\<^verbatim>\<open>getcmd\<close>: the string in the buffer, and what is left of the input.\<close>

definition getcmd :: "uint64 \<Rightarrow> int \<Rightarrow> uchar list \<Rightarrow> mem \<Rightarrow> uchar list \<times> uchar list" where
  "getcmd buf nbuf inp m =
     (case ulib_gets buf nbuf inp (ulib_memset buf 0 (word_of_int nbuf) m) of (inp', m') \<Rightarrow> (cstr (bytes m' buf (nat nbuf)), inp'))"

lemma gets_loop_consumes: "gets_loop buf mx i inp m = (j, inp', m') \<Longrightarrow> length inp' \<le> length inp"
  by (induction buf mx i inp m rule: gets_loop.induct) (auto simp: Let_def split: if_splits)

lemma gets_loop_nothing:
  assumes "gets_loop buf mx i inp m = (j, inp', m')" and "\<not> length inp' < length inp"
  shows "j = i \<and> m' = m"
  using assms gets_loop_consumes [of buf mx "i + 1" "tl inp" "m(buf + word_of_int i := hd inp)"]
  by (cases inp) (auto simp: Let_def split: if_splits)

lemma getcmd_consumes: "getcmd buf nbuf inp m = (line, inp') \<Longrightarrow> line \<noteq> [] \<Longrightarrow> length inp' < length inp"
proof (rule ccontr)
  assume g: "getcmd buf nbuf inp m = (line, inp')" and "line \<noteq> []" and n: "\<not> length inp' < length inp"
  obtain j i' m' where l: "gets_loop buf nbuf 0 inp (ulib_memset buf 0 (word_of_int nbuf) m) = (j, i', m')" by (metis prod_cases3)
  with g n have "j = 0" using gets_loop_nothing [OF l] by (auto simp: getcmd_def ulib_gets_def)
  then have "line = cstr (bytes (m'(buf := 0)) buf (nat nbuf))" using g l by (simp add: getcmd_def ulib_gets_def)
  then show False using \<open>line \<noteq> []\<close> by (cases "nat nbuf") (auto simp: cstr_def)
qed

function sh_loop :: "uint64 \<Rightarrow> mem \<Rightarrow> uchar list \<Rightarrow> prog" where
  "sh_loop buf m inp = call (UWrite 2 (chars ''$ '')) (case getcmd buf 100 inp m of (line, inp') \<Rightarrow>
     if line = [] then Exit 0
     else let cmd = dropWhile (\<lambda>c. c = ch CHR '' '' \<or> c = ch CHR 0x09) line in
       if take 1 cmd = [ch CHR 0x0A] then sh_loop buf m inp'
       else if take 3 cmd = chars ''cd '' then
         (let dir = drop 3 (butlast cmd) in
          Call (UChdir dir) (\<lambda>(r, _). if r < 0 then fprintf 2 (''cannot cd %s'' @ [CHR 0x0A]) [PStr dir] (sh_loop buf m inp') else sh_loop buf m inp'))
       else fork1 (\<lambda>pid. if pid = 0 then parse_and_run cmd else call UWait (sh_loop buf m inp')))"
  by pat_completeness auto
termination by (relation "measure (\<lambda>(buf, m, inp). length inp)") (auto dest: getcmd_consumes [OF sym])

lemmas [simp del] = sh_loop.simps



section \<open>The meaning of system calls\<close>

text \<open>What a descriptor stands for. A pipe has the name of the place in the tree of processes where it was made.\<close>

datatype fobj = FileObj "uchar list" int | PipeR "nat list" | PipeW "nat list"

type_synonym fdt = "nat \<Rightarrow> fobj option"

definition fd_free :: "fdt \<Rightarrow> nat option" where
  "fd_free T = find (\<lambda>i. T i = None) [0..<NOFILE]"

definition fd_new :: "fobj \<Rightarrow> fdt \<Rightarrow> fdt \<times> int" where
  "fd_new x T = (case fd_free T of None \<Rightarrow> (T, -1) | Some i \<Rightarrow> (T(i \<mapsto> x), int i))"

definition sys_step :: "(uchar list \<Rightarrow> int \<Rightarrow> bool) \<Rightarrow> ucall \<Rightarrow> fdt \<Rightarrow> nat list \<Rightarrow> fdt \<times> int \<times> int \<times> int" where
  "sys_step can_open u T p = (case u of
     UOpen f mode \<Rightarrow> if can_open f mode then (let (T', i) = fd_new (FileObj f mode) T in (T', i, 0, 0)) else (T, -1, 0, 0)
   | UClose d \<Rightarrow> if T (nat d) = None then (T, -1, 0, 0) else (T(nat d := None), 0, 0, 0)
   | UDup d \<Rightarrow> (case T (nat d) of None \<Rightarrow> (T, -1, 0, 0) | Some x \<Rightarrow> let (T', i) = fd_new x T in (T', i, 0, 0))
   | UPipe \<Rightarrow> (let (T', i) = fd_new (PipeR p) T; (T'', j) = fd_new (PipeW p) T' in
       if i < 0 \<or> j < 0 then (T, -1, 0, 0) else (T'', 0, i, j))
   | _ \<Rightarrow> (T, 0, 0, 0))"

text \<open>The programs that a process and its children start, with their arguments and their descriptors.\<close>

type_synonym launch = "uchar list list \<times> fdt"

primrec launched :: "(uchar list \<Rightarrow> int \<Rightarrow> bool) \<Rightarrow> prog \<Rightarrow> fdt \<Rightarrow> nat list \<Rightarrow> launch list" where
  "launched can_open (Exit r) T p = []"
| "launched can_open (Call u k) T p = (case u of
     UExec f argv \<Rightarrow> [(argv, T)]
   | UFork \<Rightarrow> launched can_open (k (0, 0, 0)) T (1 # p) @ launched can_open (k (1, 0, 0)) T (2 # p)
   | _ \<Rightarrow> (case sys_step can_open u T p of (T', r) \<Rightarrow> launched can_open (k r) T' (if u = UPipe then 0 # p else p)))"
| "launched can_open Stuck T p = []"

section \<open>The meaning of commands\<close>








lemma launched_wait: "launched can_open (Call UWait k) T p = launched can_open (k (0, 0, 0)) T p"
  by (simp add: sys_step_def)

lemma launched_write [simp]: "launched can_open (foldr (\<lambda>b. call (UWrite fd [b])) bs k) T p = launched can_open k T p"
  by (induction bs) (auto simp: sys_step_def)









section \<open>From the line to the command\<close>













section \<open>The whole shell\<close>













end
