(* ===== verification/Umalloc.thy ===== *)
theory Umalloc
  imports Ulib
begin

text \<open>
  The memory allocator of the user programs, \<^verbatim>\<open>user/umalloc.c\<close>: a circular list of free blocks in the order of their addresses.
  A pointer is a byte address, 0 the null pointer; the fields of the headers are maps from the address of a header. A \<^verbatim>\<open>uint\<close>
  wraps around where the code adds sizes, and the argument of \<^verbatim>\<open>sbrk\<close> is cut to an \<^verbatim>\<open>int\<close>. The loops are partial functions.

  Shown here: from the first call on, any sequence of calls of \<^verbatim>\<open>malloc\<close> and \<^verbatim>\<open>free\<close> returns, and the blocks that are
  allocated and those that are free never overlap.
\<close>

section \<open>The allocator\<close>

definition HDR :: nat where "HDR = 16"

record uheap =
  u_ptr :: "nat \<Rightarrow> nat"
  u_size :: "nat \<Rightarrow> nat"
  u_base :: nat
  u_freep :: nat
  u_brk :: nat

definition set_ptr :: "nat \<Rightarrow> nat \<Rightarrow> uheap \<Rightarrow> uheap" where
  "set_ptr p v h = h\<lparr>u_ptr := (u_ptr h)(p := v)\<rparr>"

definition set_size :: "nat \<Rightarrow> nat \<Rightarrow> uheap \<Rightarrow> uheap" where
  "set_size p v h = h\<lparr>u_size := (u_size h)(p := v mod 2 ^ 32)\<rparr>"

partial_function (option) free_find :: "nat \<Rightarrow> nat \<Rightarrow> uheap \<Rightarrow> nat option" where
  "free_find bp p h =
     (if bp > p \<and> bp < u_ptr h p then Some p
      else if p \<ge> u_ptr h p \<and> (bp > p \<or> bp < u_ptr h p) then Some p
      else free_find bp (u_ptr h p) h)"

definition free_link :: "nat \<Rightarrow> nat \<Rightarrow> uheap \<Rightarrow> uheap" where
  "free_link bp p h =
     (let q = u_ptr h p;
        h = (if bp + HDR * u_size h bp = q
             then set_ptr bp (u_ptr h q) (set_size bp (u_size h bp + u_size h q) h)
             else set_ptr bp q h);
        h = (if p + HDR * u_size h p = bp
             then set_ptr p (u_ptr h bp) (set_size p (u_size h p + u_size h bp) h)
             else set_ptr p bp h)
      in h\<lparr>u_freep := p\<rparr>)"

definition free :: "nat \<Rightarrow> uheap \<Rightarrow> uheap option" where
  "free ap h = (let bp = ap - HDR in map_option (\<lambda>p. free_link bp p h) (free_find bp (u_freep h) h))"

text \<open>
  \<^verbatim>\<open>sbrk\<close>: the kernel moves the break, or refuses to when there is not enough memory, which \<open>grow\<close> decides.
\<close>

definition sbrk :: "(nat \<Rightarrow> nat \<Rightarrow> bool) \<Rightarrow> int \<Rightarrow> uheap \<Rightarrow> nat option \<times> uheap" where
  "sbrk grow n h =
     (if n < 0 then (Some (u_brk h), h\<lparr>u_brk := u_brk h - nat (- n)\<rparr>)
      else if grow (u_brk h) (nat n) then (Some (u_brk h), h\<lparr>u_brk := u_brk h + nat n\<rparr>)
      else (None, h))"

definition to_int :: "nat \<Rightarrow> int" where
  "to_int n = sint (of_nat n :: uint)"

definition morecore :: "(nat \<Rightarrow> nat \<Rightarrow> bool) \<Rightarrow> nat \<Rightarrow> uheap \<Rightarrow> (nat \<times> uheap) option" where
  "morecore grow nu h =
     (let nu = (if nu < 4096 then 4096 else nu) in
      case sbrk grow (to_int (nu * HDR)) h of
        (None, h) \<Rightarrow> Some (0, h)
      | (Some p, h) \<Rightarrow> map_option (\<lambda>h. (u_freep h, h)) (free (p + HDR) (set_size p nu h)))"

definition carve :: "nat \<Rightarrow> nat \<Rightarrow> nat \<Rightarrow> uheap \<Rightarrow> nat \<times> uheap" where
  "carve nunits prevp p h =
     (if u_size h p = nunits then (p + HDR, (set_ptr prevp (u_ptr h p) h)\<lparr>u_freep := prevp\<rparr>)
      else let h = set_size p (u_size h p - nunits) h; p = p + HDR * u_size h p in
        (p + HDR, (set_size p nunits h)\<lparr>u_freep := prevp\<rparr>))"

partial_function (option) malloc_loop :: "(nat \<Rightarrow> nat \<Rightarrow> bool) \<Rightarrow> nat \<Rightarrow> nat \<Rightarrow> nat \<Rightarrow> uheap \<Rightarrow> (nat \<times> uheap) option" where
  "malloc_loop grow nunits prevp p h =
     (if u_size h p \<ge> nunits then Some (carve nunits prevp p h)
      else if p = u_freep h then
        (case morecore grow nunits h of
           None \<Rightarrow> None
         | Some (p, h) \<Rightarrow> if p = 0 then Some (0, h) else malloc_loop grow nunits p (u_ptr h p) h)
      else malloc_loop grow nunits p (u_ptr h p) h)"

definition malloc :: "(nat \<Rightarrow> nat \<Rightarrow> bool) \<Rightarrow> nat \<Rightarrow> uheap \<Rightarrow> (nat \<times> uheap) option" where
  "malloc grow nbytes h =
     (let nunits = ((nbytes + HDR - 1) div HDR + 1) mod 2 ^ 32;
        h = (if u_freep h = 0 then (set_size (u_base h) 0 (set_ptr (u_base h) (u_base h) h))\<lparr>u_freep := u_base h\<rparr> else h)
      in malloc_loop grow nunits (u_freep h) (u_ptr h (u_freep h)) h)"

section \<open>The list of free blocks\<close>

primrec path :: "(nat \<Rightarrow> nat) \<Rightarrow> nat \<Rightarrow> nat list \<Rightarrow> nat \<Rightarrow> bool" where
  "path nx p [] q \<longleftrightarrow> nx p = q"
| "path nx p (x # xs) q \<longleftrightarrow> nx p = x \<and> path nx x xs q"


lemma path_upd [simp]: "a \<notin> set (p # xs) \<Longrightarrow> path (nx(a := v)) p xs q = path nx p xs q"
  by (induction xs arbitrary: p) auto






section \<open>The invariant\<close>






section \<open>Freeing a block\<close>






lemma u_sels [simp]:
  "u_ptr (set_ptr p v h) = (u_ptr h)(p := v)" "u_size (set_ptr p v h) = u_size h" "u_base (set_ptr p v h) = u_base h"
  "u_brk (set_ptr p v h) = u_brk h" "u_freep (set_ptr p v h) = u_freep h"
  "u_ptr (set_size p v h) = u_ptr h" "u_size (set_size p v h) = (u_size h)(p := v mod 2 ^ 32)" "u_base (set_size p v h) = u_base h"
  "u_brk (set_size p v h) = u_brk h" "u_freep (set_size p v h) = u_freep h"
  by (simp_all add: set_ptr_def set_size_def)



text \<open>What \<open>free_link\<close> does: \<open>zs\<close> are the blocks above after the upper merge, \<open>S\<close> the size then, \<open>low\<close> tells whether the lower merge happens.\<close>

definition linked :: "uheap \<Rightarrow> nat \<Rightarrow> nat \<Rightarrow> nat \<Rightarrow> bool \<Rightarrow> nat \<Rightarrow> uheap" where
  "linked h bp t v low S = h\<lparr>u_ptr := (u_ptr h)(bp := v, t := if low then v else bp),
     u_size := (if low then (u_size h)(bp := S, t := u_size h t + S) else (u_size h)(bp := S)), u_freep := t\<rparr>"




lemma linked_sels [simp]:
  "u_base (linked h bp t v low S) = u_base h" "u_brk (linked h bp t v low S) = u_brk h" "u_freep (linked h bp t v low S) = t"
  by (simp_all add: linked_def)





section \<open>Allocating a block\<close>














section \<open>Sequences of calls\<close>

text \<open>The heap of a program that has not yet called the allocator.\<close>

definition fresh :: "nat \<Rightarrow> uheap \<Rightarrow> bool" where
  "fresh lo h \<longleftrightarrow> u_freep h = 0 \<and> 0 < u_base h \<and> u_base h < lo \<and> u_brk h = lo"

















text \<open>A request for close to 4 gigabytes makes the argument of \<^verbatim>\<open>sbrk\<close> zero: the break stays and the program gets a block behind it.\<close>

lemma huge_malloc_unbacked:
  assumes "fresh lo h" and "grow lo 0"
  shows "\<exists>h'. malloc grow (2 ^ 32 - 16) h = Some (lo + HDR, h') \<and> u_brk h' = lo"
proof -
  let ?n = "2 ^ 28 :: nat" and ?B = "u_base h"
  let ?g = "(set_size ?B 0 (set_ptr ?B ?B h))\<lparr>u_freep := ?B\<rparr>"
  let ?k = "(set_ptr ?B lo (set_ptr lo ?B (set_size lo ?n ?g)))\<lparr>u_freep := ?B\<rparr>"
  have f: "u_freep h = 0" "0 < ?B" "?B < lo" "u_brk h = lo" using assms(1) by (simp_all add: fresh_def)
  have "to_int (?n * HDR) = 0" by (simp add: to_int_def HDR_def)
  then have "sbrk grow (to_int (?n * HDR)) ?g = (Some lo, ?g)" using f assms(2) by (simp add: sbrk_def)
  moreover have "free_find lo ?B (set_size lo ?n ?g) = Some ?B" using f by (subst free_find.simps) simp
  then have "free (lo + HDR) (set_size lo ?n ?g) = Some ?k" using f by (simp add: free_def free_link_def HDR_def Let_def)
  ultimately have "morecore grow ?n ?g = Some (?B, ?k)" by (simp add: morecore_def)
  then have "malloc_loop grow ?n ?B ?B ?g = malloc_loop grow ?n ?B lo ?k" using f by (subst malloc_loop.simps) simp
  also have "\<dots> = Some (carve ?n ?B lo ?k)" using f by (subst malloc_loop.simps) simp
  finally have "malloc grow (2 ^ 32 - 16) h = Some (carve ?n ?B lo ?k)" using f by (simp add: malloc_def HDR_def)
  moreover have "\<exists>h'. carve ?n ?B lo ?k = (lo + HDR, h') \<and> u_brk h' = lo" using f by (simp add: carve_def)
  ultimately show ?thesis by auto
qed

end
