(* ===== verification/Spec2Isabelle.thy ===== *)
theory Spec2Isabelle
  imports Boot Rounds Crash Pipe Shell Umalloc
begin

text \<open>
  xv6-riscv, a small Unix kernel for RISC-V multiprocessors, with a multi-level feedback queue (MLFQ) scheduler in place of
  the round robin one: a model of the kernel and of parts of its user programs, with the theorems that make them correct. Paths
  below are those of the repository under \<^verbatim>\<open>src/\<close>.

  \<^bold>\<open>How the code is rendered.\<close>
  A kernel function is a function from the kernel state to an outcome (theory \<open>Kernel_Prelude\<close>): a value and a state, a
  context switch, a panic, an undefined action of C, or a loop that waits for another CPU for ever. The function bodies are
  written with the sequencing operators of that theory, statement by statement. The state is an extensible record; every
  component adds its fields to those of the components below it:
  \<^item> \<open>machine\<close>: CPUs, interrupt flags and spin locks; \<open>kern\<close>: the process table, the run queues, the tick counters and
    statistics; \<open>phys\<close>: the byte memory and the list of free pages; \<open>slk\<close>: sleep locks; \<open>con\<close>: serial line and console;
  \<^item> \<open>bio\<close>: buffers and disk; \<open>virt\<close>: the queues shared with the disk device; \<open>logk\<close>: the log; \<open>fsk\<close>: superblock and
    inode table; \<open>filek\<close>: open files and pipes; \<open>prk\<close>: what the life of a process adds.
  A pointer to a struct of an array is an index, a null pointer \<open>None\<close> or 0. Integers keep their width where the code relies on
  it: \<open>uint\<close> is \<open>32 word\<close>, \<open>uint64\<close> is \<open>64 word\<close>, \<^verbatim>\<open>int\<close> is \<open>int\<close> where it stays in range. Page tables, trapframes and the list
  of free pages live in the byte memory, as in the code. A thread that calls \<^verbatim>\<open>swtch\<close> ends with the outcome \<open>Switch\<close>; what it
  does afterwards is a definition of its own (suffix \<open>_rest\<close> or \<open>_tail\<close>).

  \<^bold>\<open>Concurrency and locks.\<close>
  \<open>Spinlock\<close> (\<^verbatim>\<open>kernel/spinlock.c\<close>) has the lock operations for one CPU and, as the step relation \<open>lock_step\<close>, their single
  instructions on any number of CPUs: mutual exclusion, exactness of the nesting counter, the state of a lock holder. The
  components above are then run by one CPU at a time; \<open>calm\<close> (theory \<open>Sched\<close>) says that the other locks are free and nobody
  sleeps, and a critical section gives back the state it found. \<open>Sleeplock\<close> has \<^verbatim>\<open>kernel/sleeplock.c\<close>.

  \<^bold>\<open>Processes and the scheduler.\<close>
  \<open>RunQueue\<close> has the process table and the queues of \<^verbatim>\<open>kernel/proc.c\<close>; its interface \<open>ready_queues\<close> says that the linked
  queues are lists, first in first out per level. \<open>Sched\<close> has \<^verbatim>\<open>sched\<close>, \<^verbatim>\<open>yield\<close>, \<^verbatim>\<open>sleep\<close>, \<^verbatim>\<open>wakeup\<close>, \<^verbatim>\<open>kkill\<close>; \<open>Mlfq\<close> the scheduler loop,
  \<^verbatim>\<open>priority_boost\<close> and \<^verbatim>\<open>clockintr\<close> (\<^verbatim>\<open>kernel/trap.c\<close>). \<open>Rounds\<close> composes them into rounds of dispatch, running and
  return: the RUNNABLE processes are exactly the queued ones, the scheduler never idles while there is one, the top queue is
  served in order, and a process killed in its sleep is lost to the scheduler until the next boost. \<open>Proc\<close> has allocation,
  fork, exit, wait and the first process; \<open>Exec\<close> \<^verbatim>\<open>kernel/exec.c\<close>.

  \<^bold>\<open>Memory.\<close>
  \<open>CString\<close> has \<^verbatim>\<open>kernel/string.c\<close>, \<open>Memory\<close> words in memory and the page macros of \<^verbatim>\<open>kernel/riscv.h\<close>, \<open>Kalloc\<close> the page allocator
  with its interface \<open>page_allocator\<close>, \<open>Vm\<close> \<^verbatim>\<open>kernel/vm.c\<close>: a page table as a tree of pages, \<^verbatim>\<open>mappages\<close> as an update of the
  translation, \<^verbatim>\<open>copyout\<close> and \<^verbatim>\<open>copyin\<close> as inverse to each other.

  \<^bold>\<open>Devices.\<close>
  \<open>Console\<close> has \<^verbatim>\<open>kernel/uart.c\<close>, \<^verbatim>\<open>kernel/console.c\<close> and \<^verbatim>\<open>kernel/printf.c\<close>; \<open>Virtio\<close> the disk driver; \<open>Trap\<close> \<^verbatim>\<open>kernel/trap.c\<close> and
  \<^verbatim>\<open>kernel/plic.c\<close>; \<open>Boot\<close> \<^verbatim>\<open>kernel/start.c\<close> and \<^verbatim>\<open>kernel/main.c\<close>. A device is its registers and queues; when it makes progress is
  not up to the driver.

  \<^bold>\<open>Storage.\<close>
  \<open>Bio\<close> has \<^verbatim>\<open>kernel/bio.c\<close>, and \<open>Cache\<close> its correctness: the doubly linked list of buffers, one buffer per block, the
  interface \<open>block_store\<close> and its interpretation. \<open>Log\<close> has \<^verbatim>\<open>kernel/log.c\<close>; \<open>Crash\<close> shows that the log refines a store with atomic
  transactions: a crash keeps any prefix of the disk writes, and recovery at boot, itself restartable, gives the store as some
  prefix of the operations had saved it. \<open>Fs\<close> has \<^verbatim>\<open>kernel/fs.c\<close>, \<open>File\<close> \<^verbatim>\<open>kernel/file.c\<close> and \<^verbatim>\<open>kernel/pipe.c\<close>, and
  \<open>Pipe\<close> shows that a pipe carries bytes from the writer's memory to the reader's in order. \<open>Syscall\<close> has the system call layer, \<^verbatim>\<open>kernel/syscall.c\<close>, \<^verbatim>\<open>kernel/sysproc.c\<close> and \<^verbatim>\<open>kernel/sysfile.c\<close>.

  \<^bold>\<open>User programs.\<close>
  \<open>Ulib\<close> has the C library, \<^verbatim>\<open>user/ulib.c\<close> and \<^verbatim>\<open>user/printf.c\<close>; \<open>Grep\<close> the matcher and the input loop of \<^verbatim>\<open>user/grep.c\<close>, with the
  language of a pattern as its specification. \<open>Sh\<close> has the parser of the shell, \<^verbatim>\<open>user/sh.c\<close>: it ends on every line, its results are
  well formed, it inverts a printer of commands, and the words it finds become C strings. \<open>Shell\<close> has \<^verbatim>\<open>runcmd\<close>, \<^verbatim>\<open>getcmd\<close> and \<^verbatim>\<open>main\<close>,
  as trees of system calls, and shows that the shell starts the programs of the lines it reads, with their arguments and files.
  \<open>Umalloc\<close> has the allocator, \<^verbatim>\<open>user/umalloc.c\<close>, and shows that its calls return and never hand out memory twice.

  \<^bold>\<open>Bounds and fuel.\<close>
  A loop over data that may be malformed carries a number of turns and ends in \<open>Spin\<close> when it is used up. The scan of the
  buffers has \<open>NBUF + 1\<close> turns and \<open>scan_ring\<close> shows them enough on a well-formed list; \<^verbatim>\<open>freerange\<close> has one per page
  below its end; \<^verbatim>\<open>copyin\<close>, \<^verbatim>\<open>copyout\<close> and \<^verbatim>\<open>copyinstr\<close> have one more than the number of bytes, and every turn copies one byte at
  least. \<^verbatim>\<open>strlen\<close> and its like are partial functions, with theorems that they return on terminated strings. The loops
  of the shell's parser have one turn per character and one more, its recursion four steps per character and four more, and
  \<open>parse_parts_ok\<close> shows them enough; its loop that opens the console has one turn more than there are descriptors.

  \<^bold>\<open>Not modelled.\<close>
  The assembly code (\<^verbatim>\<open>entry.S\<close>, \<^verbatim>\<open>kernelvec.S\<close>, \<^verbatim>\<open>swtch.S\<close>, \<^verbatim>\<open>trampoline.S\<close>): it saves and restores registers, which the model does not
  have beyond the trapframe. Weak memory ordering: the instructions of the lock operations interleave, but take effect at once. The
  interleaving of kernel code on several CPUs above the locks: \<open>calm\<close> is the assumption that what runs is not interfered
  with. The test programs and the short user programs that only make system calls. \<^verbatim>\<open>mkfs\<close>, which runs on the build host.
\<close>

end
